(* ===== verification/Prelude.thy ===== *)
theory Prelude
  imports Main "HOL-Library.Word" "HOL-Library.Sublist"
begin

text \<open>
  What every theory of the development shares: the bytes and types the model is written
  in, the collections of rewrite rules the proofs draw on, and generic facts about lists
  that the standard-library model, the cache and the connection model all use.

  A \<open>std::string\<close> is a \<open>char list\<close> (an Isabelle \<open>char\<close> is one byte), a
  \<open>size_t\<close> that only measures strings held in memory is a \<open>nat\<close>, and a counter or
  size that the code lets wrap around is a \<open>64 word\<close>.
\<close>

section \<open>Names of the model's basic data\<close>

type_synonym bytes = string
type_synonym u64 = "64 word"

abbreviation CR :: char where "CR \<equiv> CHR 0x0D"
abbreviation LF :: char where "LF \<equiv> CHR 0x0A"
abbreviation HT :: char where "HT \<equiv> CHR 0x09"
abbreviation NUL :: char where "NUL \<equiv> CHR 0x00"
abbreviation DQ :: char where "DQ \<equiv> CHR 0x22"
abbreviation crlf :: bytes where "crlf \<equiv> [CR, LF]"

named_theorems str_facts \<open>facts about the standard string operations\<close>
named_theorems cache_laws \<open>what the cache operations do to the abstract contents\<close>
named_theorems net_facts \<open>facts about the socket model\<close>

section \<open>Lists\<close>

lemma length_filter_le_Suc: "length (filter P (x # xs)) \<le> Suc (length (filter P xs))"
  by simp

lemma takeWhile_eq_take_first:
  assumes "i < length xs" "\<not> P (xs ! i)" "\<And>j. j < i \<Longrightarrow> P (xs ! j)"
  shows "takeWhile P xs = take i xs"
  using assms by (metis takeWhile_eq_take_P_nth)

lemma distinct_map_fst_filter:
  "distinct (map f xs) \<Longrightarrow> distinct (map f (filter P xs))"
  by (induction xs) auto

lemma filter_id_if_all: "(\<And>x. x \<in> set xs \<Longrightarrow> P x) \<Longrightarrow> filter P xs = xs"
  by (induction xs) auto

lemma drop_append_le: "n \<le> length xs \<Longrightarrow> drop n (xs @ ys) = drop n xs @ ys"
  by simp

lemma drop_take_rejoin: "j \<le> m \<Longrightarrow> drop j (take m xs) @ drop m xs = drop j xs"
proof -
  assume jm: "j \<le> m"
  have "drop j xs = drop j (take m xs @ drop m xs)" by simp
  also have "\<dots> = drop j (take m xs) @ drop (j - length (take m xs)) (drop m xs)" by (rule drop_append)
  also have "drop (j - length (take m xs)) (drop m xs) = drop m xs"
    using jm by (cases "m \<le> length xs") simp_all
  finally show ?thesis by simp
qed

lemma part_of_take:
  assumes "x @ y = take m z"
  shows "x = take (length x) z" "length x \<le> length z" "length x \<le> m"
proof -
  have l: "length x + length y = min (length z) m" using arg_cong [OF assms, of length] by simp
  then show xz: "length x \<le> length z" and xm: "length x \<le> m" by simp_all
  have "x = take (length x) (x @ y)" by simp
  also have "\<dots> = take (length x) z" unfolding assms using xm by simp
  finally show "x = take (length x) z" .
qed

lemma prefix_append_right: "prefix xs ys \<Longrightarrow> prefix xs (ys @ zs)"
  by (auto simp: prefix_def)

lemma prefix_of_append_long:
  "prefix pat (xs @ ys) \<Longrightarrow> length pat \<le> length xs \<Longrightarrow> prefix pat xs"
  by (metis prefix_length_prefix prefixI)

lemma prefix_drop_length: "prefix p (a @ b) \<Longrightarrow> prefix (drop (length a) p) b"
proof -
  assume "prefix p (a @ b)"
  then consider "prefix p a" | q where "p = a @ q" "prefix q b" unfolding prefix_append by blast
  then show ?thesis by cases (auto dest: prefix_length_le)
qed

lemma dropWhile_snoc_no: "\<not> P x \<Longrightarrow> dropWhile P (xs @ x # ys) = dropWhile P (xs @ [x]) @ ys"
  by (induction xs) auto

lemma set_take_le: "x \<in> set (take n xs) \<Longrightarrow> x \<in> set xs"
  by (rule in_set_takeD)

text \<open>Lists ordered by most recent occurrence: \<open>rev (remdups xs)\<close>.\<close>

lemma remdups_append_filter: "remdups (xs @ ys) = filter (\<lambda>x. x \<notin> set ys) (remdups xs) @ remdups ys"
  by (induction xs) auto

lemma length_filter_neq: "distinct xs \<Longrightarrow> length xs - 1 \<le> length (filter (\<lambda>x. x \<noteq> k) xs)"
proof (induction xs)
  case (Cons x xs)
  have "k \<notin> set xs \<Longrightarrow> filter (\<lambda>x. x \<noteq> k) xs = xs" by (auto simp: filter_id_conv)
  with Cons show ?case by auto
qed simp

lemma take_filter_take:
  assumes "distinct xs" "1 \<le> c"
  shows "take c (k # filter (\<lambda>x. x \<noteq> k) (take c xs)) = take c (k # filter (\<lambda>x. x \<noteq> k) xs)"
proof -
  obtain n where c: "c = Suc n" using assms(2) by (cases c) auto
  have f: "filter (\<lambda>x. x \<noteq> k) xs = filter (\<lambda>x. x \<noteq> k) (take c xs) @ filter (\<lambda>x. x \<noteq> k) (drop c xs)"
    by (metis append_take_drop_id filter_append)
  show ?thesis
  proof (cases "length xs \<le> c")
    case False
    then have "length (take c xs) = c" by simp
    then have "n \<le> length (filter (\<lambda>x. x \<noteq> k) (take c xs))"
      using length_filter_neq [of "take c xs" k] assms(1) c by simp
    then show ?thesis using f c by simp
  qed simp
qed

lemma in_take_recent:
  "k \<in> set (take c (rev (remdups ks))) \<longleftrightarrow>
     (\<exists>pre post. ks = pre @ k # post \<and> k \<notin> set post \<and> card (set post) < c)"
proof -
  have *: "k \<in> set (take c (rev (remdups (pre @ k # post)))) \<longleftrightarrow> card (set post) < c" if "k \<notin> set post" for pre post
  proof -
    have "remdups (pre @ k # post) = filter (\<lambda>x. x \<notin> set (k # post)) (remdups pre) @ k # remdups post"
      using that by (simp add: remdups_append_filter)
    then have "rev (remdups (pre @ k # post)) =
        rev (remdups post) @ k # rev (filter (\<lambda>x. x \<notin> set (k # post)) (remdups pre))" by simp
    moreover have "length (rev (remdups post)) = card (set post)" by (simp add: length_remdups_card_conv)
    ultimately show ?thesis using that by (auto simp: take_Cons' dest!: in_set_takeD)
  qed
  show ?thesis
  proof
    assume k: "k \<in> set (take c (rev (remdups ks)))"
    then have "k \<in> set ks" by (auto dest: in_set_takeD)
    then obtain pre post where "ks = pre @ k # post" "k \<notin> set post" by (meson split_list_last)
    with * [of post pre] k show "\<exists>pre post. ks = pre @ k # post \<and> k \<notin> set post \<and> card (set post) < c" by blast
  qed (use * in auto)
qed

section \<open>64-bit sizes\<close>

lemma unat_of_nat_u64 [simp]: "n < 2 ^ 64 \<Longrightarrow> unat (of_nat n :: u64) = n"
  by (simp add: unat_of_nat)

lemma unat_less_u64: "unat (w :: u64) < 2 ^ 64"
  by (rule order.strict_trans2 [OF unsigned_less]) simp

lemma unat_sum_u64: "a + b < 2 ^ 64 \<Longrightarrow> unat (of_nat a + of_nat b :: u64) = a + b"
  using unat_of_nat_u64 [of "a + b"] by simp

end
