(* ===== verification/Cpp_Strings.thy ===== *)
theory Cpp_Strings
  imports Prelude
begin

text \<open>
  The part of the C and C++ standard library that the program's parsers are written with,
  as executable functions on byte strings: \<open>std::string::find\<close> and its relatives,
  \<open>std::getline\<close> and \<open>operator>>\<close> on a string stream, \<open>std::strtol\<close>,
  \<open>std::atoi\<close> and \<open>std::to_string\<close>, each in the ``C'' locale. \<open>npos\<close> is
  \<^const>\<open>None\<close>. The lemmas say what a search finds, that it is stable when bytes
  are appended, and that printing a number and reading it back is the identity.
\<close>

section \<open>Characters\<close>

definition tolower_c :: "char \<Rightarrow> char" where
  "tolower_c c = (let n = (of_char c :: nat) in if 65 \<le> n \<and> n \<le> 90 then char_of (n + 32) else c)"

definition isdigit_c :: "char \<Rightarrow> bool" where
  "isdigit_c c = (let n = (of_char c :: nat) in 48 \<le> n \<and> n \<le> 57)"

definition isspace_c :: "char \<Rightarrow> bool" where
  "isspace_c c = (let n = (of_char c :: nat) in n = 32 \<or> (9 \<le> n \<and> n \<le> 13))"

definition digit_val :: "char \<Rightarrow> nat" where
  "digit_val c = of_char c - 48"

definition digit_c :: "nat \<Rightarrow> char" where
  "digit_c d = char_of (48 + d)"

lemma tolower_c_idem [simp]: "tolower_c (tolower_c c) = tolower_c c"
  by (auto simp: tolower_c_def Let_def)

lemma isdigit_digit_c [simp]: "d < 10 \<Longrightarrow> isdigit_c (digit_c d)"
  by (simp add: isdigit_c_def digit_c_def Let_def)

lemma digit_val_digit_c [simp]: "d < 10 \<Longrightarrow> digit_val (digit_c d) = d"
  by (simp add: digit_val_def digit_c_def)

lemma isdigit_not_space: "isdigit_c c \<Longrightarrow> \<not> isspace_c c"
  by (auto simp: isdigit_c_def isspace_c_def Let_def)

lemma digit_val_less: "isdigit_c c \<Longrightarrow> digit_val c < 10"
  by (auto simp: isdigit_c_def digit_val_def Let_def)

section \<open>Searching\<close>

fun find_at :: "bytes \<Rightarrow> bytes \<Rightarrow> nat \<Rightarrow> nat option" where
  "find_at pat [] i = (if pat = [] then Some i else None)"
| "find_at pat (c # cs) i = (if prefix pat (c # cs) then Some i else find_at pat cs (Suc i))"

text \<open>\<open>s.find(pat, pos)\<close>, \<open>s.rfind(c)\<close>, and the searches for a character class.\<close>

definition str_find :: "bytes \<Rightarrow> bytes \<Rightarrow> nat \<Rightarrow> nat option" where
  "str_find s pat pos = (if pos \<le> length s then find_at pat (drop pos s) pos else None)"

fun first_idx :: "(char \<Rightarrow> bool) \<Rightarrow> bytes \<Rightarrow> nat option" where
  "first_idx P [] = None"
| "first_idx P (c # cs) = (if P c then Some 0 else map_option Suc (first_idx P cs))"

fun last_idx :: "(char \<Rightarrow> bool) \<Rightarrow> bytes \<Rightarrow> nat option" where
  "last_idx P [] = None"
| "last_idx P (c # cs) = (case last_idx P cs of Some i \<Rightarrow> Some (Suc i)
     | None \<Rightarrow> (if P c then Some 0 else None))"

definition str_rfind :: "bytes \<Rightarrow> char \<Rightarrow> nat option" where
  "str_rfind s c = last_idx (\<lambda>x. x = c) s"

definition substr :: "bytes \<Rightarrow> nat \<Rightarrow> nat \<Rightarrow> bytes" where
  "substr s pos n = take n (drop pos s)"

lemma find_at_Some:
  "find_at pat s i = Some j \<Longrightarrow> pat \<noteq> [] \<Longrightarrow>
     i \<le> j \<and> j < i + length s \<and> prefix pat (drop (j - i) s) \<and>
     (\<forall>k. i \<le> k \<and> k < j \<longrightarrow> \<not> prefix pat (drop (k - i) s))"
proof (induction pat s i rule: find_at.induct)
  case (1 pat i)
  then show ?case by simp
next
  case (2 pat c cs i)
  show ?case
  proof (cases "prefix pat (c # cs)")
    case True
    with "2.prems" show ?thesis by auto
  next
    case False
    with "2.prems" have f: "find_at pat cs (Suc i) = Some j" by simp
    note ih = "2.IH" [OF False f "2.prems"(2)]
    have "\<not> prefix pat (drop (k - i) (c # cs))" if "i \<le> k" "k < j" for k
    proof (cases "k = i")
      case True
      with False show ?thesis by simp
    next
      case neq: False
      with that have "Suc i \<le> k" by simp
      then have "drop (k - i) (c # cs) = drop (k - Suc i) cs"
        by (metis Suc_diff_Suc Suc_le_eq drop_Suc_Cons)
      with ih that \<open>Suc i \<le> k\<close> show ?thesis by auto
    qed
    moreover have "drop (j - i) (c # cs) = drop (j - Suc i) cs"
      using ih by (metis Suc_diff_Suc Suc_le_eq drop_Suc_Cons)
    ultimately show ?thesis using ih by auto
  qed
qed

lemma find_at_None:
  "find_at pat s i = None \<Longrightarrow> \<not> prefix pat (drop k s)"
proof (induction pat s i arbitrary: k rule: find_at.induct)
  case (1 pat i)
  then show ?case by (auto split: if_splits)
next
  case (2 pat c cs i)
  then have np: "\<not> prefix pat (c # cs)" and f: "find_at pat cs (Suc i) = None"
    by (auto split: if_splits)
  show ?case
  proof (cases k)
    case 0
    with np show ?thesis by simp
  next
    case (Suc k')
    with "2.IH" [OF np f, of k'] show ?thesis by simp
  qed
qed

lemma str_find_SomeD:
  assumes "str_find s pat pos = Some j" "pat \<noteq> []"
  shows "pos \<le> j" "j + length pat \<le> length s" "prefix pat (drop j s)"
    "\<And>k. pos \<le> k \<Longrightarrow> k < j \<Longrightarrow> \<not> prefix pat (drop k s)"
proof -
  from assms(1) have pos: "pos \<le> length s" and f: "find_at pat (drop pos s) pos = Some j"
    by (auto simp: str_find_def split: if_splits)
  note F = find_at_Some [OF f assms(2)]
  show "pos \<le> j" using F by simp
  then have "j - pos + pos = j" by simp
  with F show p: "prefix pat (drop j s)" by simp
  have "j < length s" using F pos by simp
  with prefix_length_le [OF p] show "j + length pat \<le> length s" by simp
  fix k assume k: "pos \<le> k" "k < j"
  then have "drop (k - pos) (drop pos s) = drop k s" by simp
  with F k show "\<not> prefix pat (drop k s)" by metis
qed

lemma str_find_NoneD: "str_find s pat pos = None \<Longrightarrow> pos \<le> k \<Longrightarrow> k \<le> length s \<Longrightarrow> \<not> prefix pat (drop k s)"
proof -
  assume "str_find s pat pos = None" "pos \<le> k" "k \<le> length s"
  then have "find_at pat (drop pos s) pos = None" by (simp add: str_find_def)
  from find_at_None [OF this, of "k - pos"] \<open>pos \<le> k\<close> show ?thesis by simp
qed

text \<open>A search finds exactly the first occurrence at or after the start position.\<close>

lemma str_find_SomeI:
  assumes "pos \<le> j" "pat \<noteq> []" "prefix pat (drop j s)"
    "\<And>k. pos \<le> k \<Longrightarrow> k < j \<Longrightarrow> \<not> prefix pat (drop k s)"
  shows "str_find s pat pos = Some j"
proof -
  have "drop j s \<noteq> []" using assms(2,3) by auto
  then have jl: "j < length s" by simp
  show ?thesis
  proof (cases "str_find s pat pos")
    case None
    from str_find_NoneD [OF this assms(1)] jl assms(3) show ?thesis by simp
  next
    case (Some i)
    note S = str_find_SomeD [OF Some assms(2)]
    have "\<not> j < i" using S(4) [of j] assms(1,3) by blast
    moreover have "\<not> i < j" using assms(4) [of i] S(1,3) by blast
    ultimately show ?thesis using Some by simp
  qed
qed

lemma str_find_Some_iff:
  "pat \<noteq> [] \<Longrightarrow> str_find s pat pos = Some j \<longleftrightarrow>
     pos \<le> j \<and> prefix pat (drop j s) \<and> (\<forall>k. pos \<le> k \<and> k < j \<longrightarrow> \<not> prefix pat (drop k s))"
  by (metis str_find_SomeD(1,3,4) str_find_SomeI)

lemma str_find_NoneI:
  assumes "pat \<noteq> []" "\<And>k. pos \<le> k \<Longrightarrow> \<not> prefix pat (drop k s)"
  shows "str_find s pat pos = None"
proof (cases "str_find s pat pos")
  case (Some j)
  note S = str_find_SomeD [OF Some assms(1)]
  from assms(2) [OF S(1)] S(3) show ?thesis by simp
qed

text \<open>Bytes that arrive later cannot change where a pattern was first found.\<close>

lemma str_find_append:
  assumes "str_find s pat pos = Some j" "pat \<noteq> []"
  shows "str_find (s @ t) pat pos = Some j"
proof (rule str_find_SomeI)
  note S = str_find_SomeD [OF assms]
  show "pos \<le> j" by (rule S(1))
  show "pat \<noteq> []" by (rule assms(2))
  have jl: "j \<le> length s" using S(2) by simp
  then show "prefix pat (drop j (s @ t))" using S(3) by (simp add: prefix_append_right)
  fix k assume k: "pos \<le> k" "k < j"
  then have kl: "length pat \<le> length (drop k s)" using S(2) by simp
  have "drop k (s @ t) = drop k s @ t" using k jl by simp
  with S(4) [OF k] kl show "\<not> prefix pat (drop k (s @ t))"
    by (metis prefix_of_append_long)
qed

text \<open>Bytes before the text that cannot start the pattern only shift the position found.\<close>

lemma str_find_skip:
  assumes "str_find s pat 0 = Some j" "pat \<noteq> []"
    "\<And>k. k < length u \<Longrightarrow> \<not> prefix pat (drop k (u @ s))"
  shows "str_find (u @ s) pat 0 = Some (length u + j)"
proof (rule str_find_SomeI)
  note S = str_find_SomeD [OF assms(1,2)]
  show "prefix pat (drop (length u + j) (u @ s))" using S(3) by simp
  fix k assume k: "k < length u + j"
  show "\<not> prefix pat (drop k (u @ s))"
  proof (cases "k < length u")
    case True
    then show ?thesis by (rule assms(3))
  next
    case False
    with S(4) [of "k - length u"] k show ?thesis by simp
  qed
qed (simp_all add: assms)

lemma first_idx_Some: "first_idx P s = Some i \<Longrightarrow> i < length s \<and> P (s ! i) \<and> (\<forall>k < i. \<not> P (s ! k))"
  by (induction s arbitrary: i) (auto split: if_splits simp: less_Suc_eq_0_disj)

lemma first_idx_None: "first_idx P s = None \<longleftrightarrow> (\<forall>c \<in> set s. \<not> P c)"
  by (induction s) auto

lemma last_idx_Some: "last_idx P s = Some i \<Longrightarrow> i < length s \<and> P (s ! i) \<and> (\<forall>k. i < k \<and> k < length s \<longrightarrow> \<not> P (s ! k))"
proof (induction s arbitrary: i)
  case Nil
  then show ?case by simp
next
  case (Cons c s)
  show ?case
  proof (cases "last_idx P s")
    case None
    then have np: "\<forall>x \<in> set s. \<not> P x" by (induction s) (auto split: option.splits if_splits)
    with None Cons.prems show ?thesis by (auto split: if_splits simp: nth_Cons split: nat.splits)
  next
    case (Some j)
    with Cons.prems have "i = Suc j" by simp
    with Cons.IH [OF Some] show ?thesis by (auto simp: nth_Cons split: nat.splits)
  qed
qed

lemma last_idx_None: "last_idx P s = None \<longleftrightarrow> (\<forall>c \<in> set s. \<not> P c)"
  by (induction s) (auto split: option.splits)

lemma str_rfind_split: "c \<notin> set t \<Longrightarrow> str_rfind (s @ c # t) c = Some (length s)"
proof -
  assume "c \<notin> set t"
  then have "last_idx (\<lambda>x. x = c) t = None" by (auto simp: last_idx_None)
  then have "last_idx (\<lambda>x. x = c) (s @ c # t) = Some (length s)"
    by (induction s) auto
  then show ?thesis by (simp add: str_rfind_def)
qed

lemma str_find_char_split:
  "c \<notin> set s \<Longrightarrow> str_find (s @ c # t) [c] 0 = Some (length s)"
proof (rule str_find_SomeI)
  assume "c \<notin> set s"
  fix k assume "k < length s"
  then have "drop k (s @ c # t) = (s ! k) # drop (Suc k) s @ c # t"
    by (simp add: Cons_nth_drop_Suc [symmetric])
  with \<open>c \<notin> set s\<close> \<open>k < length s\<close> show "\<not> prefix [c] (drop k (s @ c # t))"
    using nth_mem by fastforce
qed auto

lemma str_find_char_none: "c \<notin> set s \<Longrightarrow> str_find s [c] pos = None"
proof (rule str_find_NoneI)
  fix k assume "c \<notin> set s"
  then have "c \<notin> set (drop k s)" by (auto dest: in_set_dropD)
  then show "\<not> prefix [c] (drop k s)" by (auto simp: prefix_def)
qed simp

text \<open>\<open>s.find(pat) != npos\<close>.\<close>

definition str_contains :: "bytes \<Rightarrow> bytes \<Rightarrow> bool" where
  "str_contains s pat = (str_find s pat 0 \<noteq> None)"

lemma str_contains_iff: "pat \<noteq> [] \<Longrightarrow> str_contains s pat \<longleftrightarrow> (\<exists>u v. s = u @ pat @ v)"
proof
  assume "pat \<noteq> []" "str_contains s pat"
  then obtain j where "str_find s pat 0 = Some j" by (auto simp: str_contains_def)
  with \<open>pat \<noteq> []\<close> have "prefix pat (drop j s)" by (auto dest: str_find_SomeD)
  then obtain v where "drop j s = pat @ v" by (auto simp: prefix_def)
  then have "s = take j s @ pat @ v" by (metis append_take_drop_id)
  then show "\<exists>u v. s = u @ pat @ v" by blast
next
  assume ne: "pat \<noteq> []" and "\<exists>u v. s = u @ pat @ v"
  then obtain u v where s: "s = u @ pat @ v" by blast
  show "str_contains s pat"
  proof (rule ccontr)
    assume "\<not> str_contains s pat"
    then have "str_find s pat 0 = None" by (simp add: str_contains_def)
    from str_find_NoneD [OF this, of "length u"] s show False by simp
  qed
qed

section \<open>Case folding and trimming\<close>

definition to_lower :: "bytes \<Rightarrow> bytes" where
  "to_lower s = map tolower_c s"

definition is_ws :: "char \<Rightarrow> bool" where
  "is_ws c = (c = CHR '' '' \<or> c = HT \<or> c = CR \<or> c = LF)"

definition trim :: "bytes \<Rightarrow> bytes" where
  "trim s = (case first_idx (\<lambda>c. \<not> is_ws c) s of None \<Rightarrow> []
     | Some b \<Rightarrow> (case last_idx (\<lambda>c. \<not> is_ws c) s of None \<Rightarrow> []
        | Some e \<Rightarrow> substr s b (e - b + 1)))"

lemma to_lower_idem [simp]: "to_lower (to_lower s) = to_lower s"
  by (simp add: to_lower_def)

lemma length_to_lower [simp]: "length (to_lower s) = length s"
  by (simp add: to_lower_def)

lemma to_lower_append [simp]: "to_lower (s @ t) = to_lower s @ to_lower t"
  by (simp add: to_lower_def)

lemma to_lower_empty_iff [simp]: "to_lower s = [] \<longleftrightarrow> s = []"
  by (simp add: to_lower_def)

lemma to_lower_Nil [simp]: "to_lower [] = []"
  by (simp add: to_lower_def)

text \<open>A string with no white space at its two ends is its own trimming.\<close>

lemma first_idx_Cons_here: "P c \<Longrightarrow> first_idx P (c # cs) = Some 0"
  by simp

lemma last_idx_snoc: "last_idx P (s @ [c]) = (if P c then Some (length s) else last_idx P s)"
  by (induction s) (auto split: option.splits)

lemma trim_id:
  assumes "s \<noteq> []" "\<not> is_ws (hd s)" "\<not> is_ws (last s)"
  shows "trim s = s"
proof -
  from assms(1,2) have f: "first_idx (\<lambda>c. \<not> is_ws c) s = Some 0" by (cases s) auto
  from assms(1) have "s = butlast s @ [last s]" by simp
  then have "last_idx (\<lambda>c. \<not> is_ws c) s = last_idx (\<lambda>c. \<not> is_ws c) (butlast s @ [last s])" by simp
  also have "\<dots> = Some (length s - 1)" using assms by (simp only: last_idx_snoc) simp
  finally show ?thesis using f assms(1) by (simp add: trim_def substr_def)
qed

lemma trim_Nil [simp]: "trim [] = []"
  by (simp add: trim_def)

lemma first_idx_skip: "(\<forall>c \<in> set ws. \<not> P c) \<Longrightarrow> first_idx P (ws @ s) = map_option (\<lambda>i. length ws + i) (first_idx P s)"
  by (induction ws) (cases "first_idx P s"; auto)+

lemma last_idx_skip: "(\<forall>c \<in> set ws. \<not> P c) \<Longrightarrow> last_idx P (ws @ s) = map_option (\<lambda>i. length ws + i) (last_idx P s)"
  by (induction ws) (cases "last_idx P s"; auto)+

lemma trim_skip: "(\<forall>c \<in> set ws. is_ws c) \<Longrightarrow> trim (ws @ s) = trim s"
  by (auto simp: trim_def first_idx_skip last_idx_skip substr_def split: option.splits)

lemma trim_all_ws: "(\<forall>c \<in> set ws. is_ws c) \<Longrightarrow> trim ws = []"
  using trim_skip [of ws "[]"] by simp

text \<open>What trimming leaves has no white space at either end.\<close>

lemma trim_ends:
  assumes "trim s \<noteq> []"
  shows "\<not> is_ws (hd (trim s))" "\<not> is_ws (last (trim s))"
proof -
  from assms obtain b e where b: "first_idx (\<lambda>c. \<not> is_ws c) s = Some b"
    and e: "last_idx (\<lambda>c. \<not> is_ws c) s = Some e"
    by (auto simp: trim_def split: option.splits)
  note B = first_idx_Some [OF b] and E = last_idx_Some [OF e]
  have be: "b \<le> e"
  proof (rule ccontr)
    assume "\<not> b \<le> e" with B E show False by simp
  qed
  have t: "trim s = take (e - b + 1) (drop b s)" by (simp add: trim_def b e substr_def)
  show "\<not> is_ws (hd (trim s))" using B t by (simp add: hd_drop_conv_nth)
  have "length (trim s) = e - b + 1" using t E be by (auto simp: min_def)
  moreover have "trim s ! (e - b) = s ! e" using t E be by simp
  ultimately show "\<not> is_ws (last (trim s))" using E assms by (simp add: last_conv_nth)
qed

lemma trim_trim [simp]: "trim (trim s) = trim s"
  using trim_ends [of s] by (cases "trim s = []") (auto intro: trim_id)

section \<open>Lines and words of a stream\<close>

text \<open>\<open>std::getline(stream, line)\<close> on the unread part of the stream.\<close>

definition getline :: "bytes \<Rightarrow> (bytes \<times> bytes) option" where
  "getline s = (if s = [] then None
     else Some (takeWhile (\<lambda>c. c \<noteq> LF) s, drop 1 (dropWhile (\<lambda>c. c \<noteq> LF) s)))"

lemma getline_shorter: "getline s = Some (l, r) \<Longrightarrow> length r < length s"
proof -
  assume "getline s = Some (l, r)"
  then have "s \<noteq> []" and r: "r = drop 1 (dropWhile (\<lambda>c. c \<noteq> LF) s)"
    by (auto simp: getline_def split: if_splits)
  moreover have "length (dropWhile (\<lambda>c. c \<noteq> LF) s) \<le> length s"
    by (rule length_dropWhile_le)
  ultimately show ?thesis by (cases s) (auto intro: le_less_trans)
qed

text \<open>The lines that a loop \<open>while (std::getline(stream, line))\<close> reads, in order.\<close>

function getlines :: "bytes \<Rightarrow> bytes list" where
  "getlines s = (case getline s of None \<Rightarrow> [] | Some (l, r) \<Rightarrow> l # getlines r)"
  by pat_completeness auto
termination
  by (relation "measure length") (auto simp: getline_shorter)

declare getlines.simps [simp del]

lemma getlines_Nil [simp]: "getlines [] = []"
  by (simp add: getlines.simps getline_def)

lemma getlines_cons: "LF \<notin> set l \<Longrightarrow> getlines (l @ LF # r) = l # getlines r"
proof -
  assume a: "LF \<notin> set l"
  then have "takeWhile (\<lambda>c. c \<noteq> LF) (l @ LF # r) = l"
    by (subst takeWhile_append2) auto
  moreover from a have "dropWhile (\<lambda>c. c \<noteq> LF) (l @ LF # r) = LF # r"
    by (subst dropWhile_append2) auto
  ultimately have "getline (l @ LF # r) = Some (l, r)" by (simp add: getline_def)
  then show ?thesis by (simp add: getlines.simps [of "l @ LF # r"])
qed

lemma getlines_no_LF: "l \<in> set (getlines s) \<Longrightarrow> LF \<notin> set l"
proof (induction s rule: getlines.induct)
  case (1 s)
  show ?case
  proof (cases "getline s")
    case None
    with "1.prems" show ?thesis by (simp add: getlines.simps [of s])
  next
    case (Some p)
    obtain u v where p: "p = (u, v)" by (cases p)
    have "u = takeWhile (\<lambda>c. c \<noteq> LF) s"
      using Some p by (auto simp: getline_def split: if_splits)
    then have "LF \<notin> set u" by (auto dest: set_takeWhileD)
    moreover have "l = u \<or> l \<in> set (getlines v)"
      using "1.prems" Some p by (simp add: getlines.simps [of s])
    ultimately show ?thesis using "1.IH" [OF Some p [symmetric]] p by auto
  qed
qed

text \<open>\<open>stream >> word\<close>: white space is skipped, then a maximal run of other bytes is read;
  the word stays empty when the stream has ended.\<close>

definition extract_word :: "bytes \<Rightarrow> bytes \<times> bytes" where
  "extract_word s = (let t = dropWhile isspace_c s in
     (takeWhile (\<lambda>c. \<not> isspace_c c) t, dropWhile (\<lambda>c. \<not> isspace_c c) t))"

lemma extract_word_token:
  assumes "w \<noteq> []" "\<forall>c \<in> set w. \<not> isspace_c c" "\<forall>c \<in> set sp. isspace_c c"
  shows "extract_word (sp @ w @ CHR '' '' # r) = (w, CHR '' '' # r)"
    and "extract_word (sp @ w) = (w, [])"
proof -
  have sp: "isspace_c (CHR '' '')" by code_simp
  have "dropWhile isspace_c (sp @ w @ CHR '' '' # r) = w @ CHR '' '' # r"
    using assms by (cases w) (auto simp: dropWhile_append)
  then show "extract_word (sp @ w @ CHR '' '' # r) = (w, CHR '' '' # r)"
    using assms(2) sp by (simp add: extract_word_def takeWhile_append dropWhile_append)
  have "dropWhile isspace_c (sp @ w) = w"
    using assms by (cases w) (auto simp: dropWhile_append)
  then show "extract_word (sp @ w) = (w, [])"
    using assms(2) by (simp add: extract_word_def)
qed

end
