(* ===== verification/Cpp_Numbers.thy ===== *)
theory Cpp_Numbers
  imports Cpp_Strings
begin

text \<open>
  Numbers in text: \<open>std::strtol\<close> and \<open>std::atoi\<close> in base ten,
  \<open>operator>>\<close> into an \<open>int\<close>, and \<open>std::to_string\<close>. A \<open>long\<close> has
  64 bits and an \<open>int\<close> 32; \<open>atoi\<close> is the conversion of \<open>strtol\<close>'s result to
  an \<open>int\<close>, which keeps its low 32 bits (glibc).
\<close>

section \<open>Reading\<close>

definition LONG_MAX :: int where "LONG_MAX = 9223372036854775807"
definition LONG_MIN :: int where "LONG_MIN = - 9223372036854775808"
definition INT_MAX :: int where "INT_MAX = 2147483647"
definition INT_MIN :: int where "INT_MIN = - 2147483648"

fun dec_val :: "nat \<Rightarrow> bytes \<Rightarrow> nat" where
  "dec_val acc [] = acc"
| "dec_val acc (c # cs) = dec_val (10 * acc + digit_val c) cs"

text \<open>\<open>s.c_str()\<close> as a C function sees it: up to the first NUL.\<close>

definition c_str :: "bytes \<Rightarrow> bytes" where
  "c_str s = takeWhile (\<lambda>c. c \<noteq> NUL) s"

definition split_sign :: "bytes \<Rightarrow> bool \<times> bytes" where
  "split_sign s = (case s of [] \<Rightarrow> (False, [])
     | c # cs \<Rightarrow> if c = CHR ''-'' then (True, cs) else if c = CHR ''+'' then (False, cs) else (False, s))"

text \<open>\<open>strtol(s, &end, 10)\<close>: the value, what \<open>end\<close> points at, and whether
  \<open>errno\<close> is set to \<open>ERANGE\<close>. With no digits the value is 0 and \<open>end\<close> is the start.\<close>

definition strtol :: "bytes \<Rightarrow> int \<times> bytes \<times> bool" where
  "strtol s = (let (neg, u) = split_sign (dropWhile isspace_c s); ds = takeWhile isdigit_c u in
     if ds = [] then (0, s, False)
     else let v = (if neg then - int (dec_val 0 ds) else int (dec_val 0 ds)); rest = dropWhile isdigit_c u in
       if v > LONG_MAX then (LONG_MAX, rest, True)
       else if v < LONG_MIN then (LONG_MIN, rest, True)
       else (v, rest, False))"

definition atoi :: "bytes \<Rightarrow> int" where
  "atoi s = sint (word_of_int (fst (strtol (c_str s))) :: 32 word)"

text \<open>\<open>stream >> i\<close> for an \<open>int\<close>: 0 if there is no number, the nearest limit if it is
  out of range.\<close>

definition extract_int :: "bytes \<Rightarrow> int \<times> bytes" where
  "extract_int s = (let (neg, u) = split_sign (dropWhile isspace_c s); ds = takeWhile isdigit_c u;
     rest = dropWhile isdigit_c u; v = (if neg then - int (dec_val 0 ds) else int (dec_val 0 ds)) in
     if ds = [] then (0, rest) else (max INT_MIN (min INT_MAX v), rest))"

section \<open>Printing\<close>

fun nat_str :: "nat \<Rightarrow> bytes" where
  "nat_str n = (if n < 10 then [digit_c n] else nat_str (n div 10) @ [digit_c (n mod 10)])"

declare nat_str.simps [simp del]

text \<open>\<open>std::to_string\<close>.\<close>

definition int_str :: "int \<Rightarrow> bytes" where
  "int_str i = (if i < 0 then CHR ''-'' # nat_str (nat (- i)) else nat_str (nat i))"

lemma nat_str_nonempty [simp]: "nat_str n \<noteq> []"
  by (subst nat_str.simps) simp

lemma nat_str_digits: "\<forall>c \<in> set (nat_str n). isdigit_c c"
proof (induction n rule: nat_str.induct)
  case (1 n)
  show ?case
  proof (cases "n < 10")
    case True
    then show ?thesis by (subst nat_str.simps) simp
  next
    case False
    with "1.IH" show ?thesis by (subst nat_str.simps) auto
  qed
qed

lemma dec_val_append: "dec_val a (xs @ ys) = dec_val (dec_val a xs) ys"
  by (induction xs arbitrary: a) auto

lemma dec_val_nat_str: "dec_val 0 (nat_str n) = n"
proof (induction n rule: nat_str.induct)
  case (1 n)
  show ?case
  proof (cases "n < 10")
    case True
    then show ?thesis by (subst nat_str.simps) simp
  next
    case False
    with "1.IH" show ?thesis by (subst nat_str.simps) (simp add: dec_val_append)
  qed
qed

text \<open>The printed form contains none of the bytes the parsers split on.\<close>

lemma nat_str_free:
  assumes "\<not> isdigit_c c" shows "c \<notin> set (nat_str n)"
  using nat_str_digits assms by blast

lemma not_digit_bytes [simp]:
  "\<not> isdigit_c CR" "\<not> isdigit_c LF" "\<not> isdigit_c NUL" "\<not> isdigit_c (CHR '' '')"
  "\<not> isdigit_c (CHR '':'')" "\<not> isdigit_c (CHR ''-'')" "\<not> isdigit_c (CHR ''+'')"
  "\<not> isdigit_c HT"
  by (simp_all add: isdigit_c_def)

lemma takeWhile_digits_append:
  "\<forall>c \<in> set ds. isdigit_c c \<Longrightarrow> r = [] \<or> \<not> isdigit_c (hd r) \<Longrightarrow> takeWhile isdigit_c (ds @ r) = ds"
  by (induction ds) (cases r; auto)+

lemma dropWhile_digits_append:
  "\<forall>c \<in> set ds. isdigit_c c \<Longrightarrow> r = [] \<or> \<not> isdigit_c (hd r) \<Longrightarrow> dropWhile isdigit_c (ds @ r) = r"
  by (induction ds) (cases r; auto)+

lemma digits_start:
  assumes "ds \<noteq> []" "\<forall>c \<in> set ds. isdigit_c c"
  shows "dropWhile isspace_c (ds @ r) = ds @ r" "split_sign (ds @ r) = (False, ds @ r)"
proof -
  from assms obtain c cs where ds: "ds = c # cs" and c: "isdigit_c c" by (cases ds) auto
  from c have "c \<noteq> CHR ''-''" "c \<noteq> CHR ''+''" using not_digit_bytes by metis+
  then show "split_sign (ds @ r) = (False, ds @ r)" by (simp add: split_sign_def ds)
  show "dropWhile isspace_c (ds @ r) = ds @ r" using isdigit_not_space [OF c] by (simp add: ds)
qed

lemma strtol_nat_str:
  assumes "int n \<le> LONG_MAX" "r = [] \<or> \<not> isdigit_c (hd r)"
  shows "strtol (nat_str n @ r) = (int n, r, False)"
proof -
  note D = nat_str_digits [of n]
  note S = digits_start [OF nat_str_nonempty D, of r]
  have "\<not> int n < LONG_MIN" by (simp add: LONG_MIN_def)
  with assms show ?thesis
    by (simp add: strtol_def S takeWhile_digits_append [OF D assms(2)]
        dropWhile_digits_append [OF D assms(2)] dec_val_nat_str Let_def)
qed

lemma c_str_id: "NUL \<notin> set s \<Longrightarrow> c_str s = s"
  unfolding c_str_def by (rule takeWhile_eq_all_conv [THEN iffD2]) auto

lemma c_str_nat_str [simp]: "c_str (nat_str n) = nat_str n"
  by (rule c_str_id) (simp add: nat_str_free)

lemma atoi_nat_str:
  assumes "int n \<le> INT_MAX" shows "atoi (nat_str n) = int n"
proof -
  have "strtol (nat_str n) = (int n, [], False)"
    using strtol_nat_str [of n "[]"] assms by (simp add: INT_MAX_def LONG_MAX_def)
  moreover have "sint (word_of_int (int n) :: 32 word) = int n"
    using assms unfolding sint_sbintrunc' by (simp add: INT_MAX_def signed_take_bit_int_eq_self)
  ultimately show ?thesis by (simp add: atoi_def)
qed

lemma extract_int_nat_str:
  assumes "\<forall>c \<in> set sp. isspace_c c" "int n \<le> INT_MAX"
  shows "extract_int (sp @ nat_str n) = (int n, [])"
proof -
  note D = nat_str_digits [of n]
  note S = digits_start [OF nat_str_nonempty D, of "[]"]
  have "dropWhile isspace_c (sp @ nat_str n) = nat_str n"
    using assms(1) S by (simp add: dropWhile_append)
  moreover have "INT_MIN \<le> int n" by (simp add: INT_MIN_def)
  moreover have "takeWhile isdigit_c (nat_str n) = nat_str n" "dropWhile isdigit_c (nat_str n) = []"
    using D by auto
  ultimately show ?thesis using S assms(2)
    by (simp only: extract_int_def dec_val_nat_str Let_def append_Nil2 prod.case nat_str_nonempty if_False) simp
qed

end
