(* ===== verification/Http_Headers.thy ===== *)
theory Http_Headers
  imports Cpp_Numbers
begin

text \<open>
  What the request and the response parser of \<open>src/http.hpp\<close> share:
  \<open>find_header_end\<close>, the stripping of a carriage return, and the loop over header
  lines. The lemmas evaluate them on any block of CRLF-terminated lines: the terminator is
  found where it is, the lines come back one by one, and the header map is the fold of the
  fields in order.
\<close>

section \<open>The code\<close>

definition find_header_end :: "bytes \<Rightarrow> nat option" where
  "find_header_end buf = (case str_find buf (crlf @ crlf) 0 of Some p \<Rightarrow> Some (p + 4)
     | None \<Rightarrow> (case str_find buf [LF, LF] 0 of Some p \<Rightarrow> Some (p + 2) | None \<Rightarrow> None))"

text \<open>\<open>if (!line.empty() && line.back() == '\r') line.pop_back();\<close>\<close>

definition chomp :: "bytes \<Rightarrow> bytes" where
  "chomp line = (if line \<noteq> [] \<and> last line = CR then butlast line else line)"

text \<open>The loop over header lines, with what it does to the header map as a parameter:
  requests fold repeats, responses keep the last.\<close>

fun header_loop :: "((bytes \<rightharpoonup> bytes) \<Rightarrow> bytes \<Rightarrow> bytes \<Rightarrow> (bytes \<rightharpoonup> bytes)) \<Rightarrow> bytes list \<Rightarrow>
    (bytes \<rightharpoonup> bytes) \<Rightarrow> (bytes \<rightharpoonup> bytes)" where
  "header_loop put [] h = h"
| "header_loop put (l # ls) h =
     (let line = chomp l in
      if line = [] then h
      else case str_find line '':'' 0 of
        None \<Rightarrow> header_loop put ls h
      | Some colon \<Rightarrow>
          let name = to_lower (trim (substr line 0 colon)); value = trim (drop (colon + 1) line) in
          if name = [] then header_loop put ls h else header_loop put ls (put h name value))"

section \<open>Where the header block ends\<close>

lemma find_header_end_bounds:
  "find_header_end buf = Some e \<Longrightarrow> 2 \<le> e \<and> e \<le> length buf"
proof -
  assume f: "find_header_end buf = Some e"
  show ?thesis
  proof (cases "str_find buf (crlf @ crlf) 0")
    case None
    with f obtain p where p: "str_find buf [LF, LF] 0 = Some p" "e = p + 2"
      by (auto simp: find_header_end_def split: option.splits)
    from str_find_SomeD(2) [OF p(1)] p(2) show ?thesis by simp
  next
    case (Some p)
    with f have "e = p + 4" by (simp add: find_header_end_def)
    with str_find_SomeD(2) [OF Some] show ?thesis by simp
  qed
qed

text \<open>Once the CRLF form of the terminator is there, later bytes do not move it.\<close>

lemma find_header_end_append:
  assumes "str_find buf (crlf @ crlf) 0 = Some p"
  shows "find_header_end buf = Some (p + 4)" "find_header_end (buf @ extra) = Some (p + 4)"
  using assms str_find_append [OF assms, of extra] by (simp_all add: find_header_end_def)

lemma getlines_take_header_nonempty:
  "find_header_end raw = Some e \<Longrightarrow> getlines (substr raw 0 e) \<noteq> []"
proof -
  assume "find_header_end raw = Some e"
  then have "2 \<le> e" "e \<le> length raw" by (auto dest: find_header_end_bounds)
  then have "substr raw 0 e \<noteq> []" by (auto simp: substr_def)
  then show ?thesis by (simp add: getlines.simps [of "substr raw 0 e"] getline_def)
qed

section \<open>Searches that delimit a field\<close>

lemma substr_prefix_find: "str_find s [c] 0 = Some i \<Longrightarrow> c \<notin> set (substr s 0 i)"
proof
  assume f: "str_find s [c] 0 = Some i" and "c \<in> set (substr s 0 i)"
  then obtain k where k: "k < i" "k < length s" "s ! k = c"
    by (auto simp: substr_def in_set_conv_nth)
  from str_find_SomeD(4) [OF f, of k] k show False
    by (simp add: Cons_nth_drop_Suc [symmetric])
qed

lemma substr_between_find:
  assumes "str_find s [c] p = Some i" shows "c \<notin> set (substr s p (i - p))"
proof
  assume "c \<in> set (substr s p (i - p))"
  then obtain k where k: "k < i - p" "p + k < length s" "s ! (p + k) = c"
    by (auto simp: substr_def in_set_conv_nth)
  then have "p + k < i" by simp
  with str_find_SomeD(4) [OF assms, of "p + k"] k show False
    by (simp add: Cons_nth_drop_Suc [symmetric])
qed

section \<open>Blocks of CRLF-terminated lines\<close>

definition crlf_lines :: "bytes list \<Rightarrow> bytes" where
  "crlf_lines ls = concat (map (\<lambda>l. l @ crlf) ls)"

definition plain_line :: "bytes \<Rightarrow> bool" where
  "plain_line l \<longleftrightarrow> l \<noteq> [] \<and> CR \<notin> set l \<and> LF \<notin> set l"

lemma crlf_lines_simps [simp]:
  "crlf_lines [] = []" "crlf_lines (l # ls) = l @ CR # LF # crlf_lines ls"
  by (simp_all add: crlf_lines_def)

lemma crlf_lines_append [simp]: "crlf_lines (xs @ ys) = crlf_lines xs @ crlf_lines ys"
  by (simp add: crlf_lines_def)

lemma chomp_CR [simp]: "chomp (l @ [CR]) = l"
  by (simp add: chomp_def)

lemma chomp_only_CR [simp]: "chomp [CR] = []"
  by (simp add: chomp_def)

lemma getlines_crlf_lines:
  "\<forall>l \<in> set ls. LF \<notin> set l \<Longrightarrow> getlines (crlf_lines ls @ r) = map (\<lambda>l. l @ [CR]) ls @ getlines r"
proof (induction ls)
  case (Cons l ls)
  then have "getlines ((l @ [CR]) @ LF # (crlf_lines ls @ r)) = (l @ [CR]) # getlines (crlf_lines ls @ r)"
    by (intro getlines_cons) auto
  with Cons show ?case by simp
qed simp

lemma getlines_crlf [simp]: "getlines [CR, LF] = [[CR]]"
  using getlines_cons [of "[CR]" "[]"] by simp

text \<open>No blank line, in either spelling, before the one that ends the block.\<close>

lemma no_terminator_inside:
  assumes "\<forall>l \<in> set ls. plain_line l" "k + 2 < length (crlf_lines ls)"
  shows "\<not> prefix (crlf @ crlf) (drop k (crlf_lines ls @ crlf @ r)) \<and>
         \<not> prefix [LF, LF] (drop k (crlf_lines ls @ crlf @ r))"
  using assms
proof (induction ls arbitrary: k)
  case Nil
  then show ?case by simp
next
  case (Cons l ls)
  let ?rest = "crlf_lines ls @ crlf @ r"
  have l: "l \<noteq> []" "CR \<notin> set l" "LF \<notin> set l" using Cons.prems(1) by (auto simp: plain_line_def)
  consider (a) "k < length l" | (b) "k = length l" | (c) "k = Suc (length l)" | (d) "length l + 2 \<le> k"
    by linarith
  then show ?case
  proof cases
    case a
    then have "drop k (crlf_lines (l # ls) @ crlf @ r) = l ! k # drop (Suc k) l @ crlf @ ?rest"
      by (simp add: Cons_nth_drop_Suc [symmetric])
    moreover have "l ! k \<noteq> CR" "l ! k \<noteq> LF" using a l nth_mem by metis+
    ultimately show ?thesis by simp
  next
    case b
    then have dr: "drop k (crlf_lines (l # ls) @ crlf @ r) = CR # LF # ?rest" by simp
    from b Cons.prems(2) obtain m ms where "ls = m # ms" by (cases ls) auto
    with Cons.prems(1) have "hd ?rest \<noteq> CR" by (cases m) (auto simp: plain_line_def)
    with dr show ?thesis by (cases ?rest) auto
  next
    case c
    then have dr: "drop k (crlf_lines (l # ls) @ crlf @ r) = LF # ?rest" by simp
    from c Cons.prems(2) obtain m ms where "ls = m # ms" by (cases ls) auto
    with Cons.prems(1) have "hd ?rest \<noteq> LF" by (cases m) (auto simp: plain_line_def)
    with dr show ?thesis by (cases ?rest) auto
  next
    case d
    then have "drop k (crlf_lines (l # ls) @ crlf @ r) = drop (k - length l - 2) ?rest"
      by (simp add: numeral_2_eq_2 drop_Cons') 
    with Cons.IH [of "k - length l - 2"] Cons.prems d show ?thesis by simp
  qed
qed

lemma str_find_terminator:
  assumes "ls \<noteq> []" "\<forall>l \<in> set ls. plain_line l"
  shows "str_find (crlf_lines ls @ crlf @ r) (crlf @ crlf) 0 = Some (length (crlf_lines ls) - 2)"
proof -
  from assms(1) obtain ms m where ls: "ls = ms @ [m]" by (cases ls rule: rev_cases) auto
  define p where "p = length (crlf_lines ms @ m)"
  have len: "length (crlf_lines ls) = p + 2" by (simp add: ls p_def)
  have dr: "drop p (crlf_lines ls @ crlf @ r) = crlf @ crlf @ r" by (simp add: ls p_def)
  have "str_find (crlf_lines ls @ crlf @ r) (crlf @ crlf) 0 = Some p"
  proof (rule str_find_SomeI)
    show "prefix (crlf @ crlf) (drop p (crlf_lines ls @ crlf @ r))" unfolding dr by simp
    fix k assume "k < p"
    with no_terminator_inside [OF assms(2), of k r] len
    show "\<not> prefix (crlf @ crlf) (drop k (crlf_lines ls @ crlf @ r))" by simp
  qed auto
  then show ?thesis using len by simp
qed

lemma length_crlf_lines_ge: "ls \<noteq> [] \<Longrightarrow> 2 \<le> length (crlf_lines ls)"
  by (cases ls) auto

lemma find_header_end_block:
  assumes "ls \<noteq> []" "\<forall>l \<in> set ls. plain_line l"
  shows "find_header_end (crlf_lines ls @ crlf @ r) = Some (length (crlf_lines ls @ crlf))"
  using find_header_end_append(1) [OF str_find_terminator [OF assms]] length_crlf_lines_ge [OF assms(1)]
  by simp

section \<open>Header fields\<close>

text \<open>A printed field, and what makes it print and parse without loss.\<close>

definition header_line :: "bytes \<times> bytes \<Rightarrow> bytes" where
  "header_line nv = fst nv @ '': '' @ snd nv"

definition token :: "bytes \<Rightarrow> bool" where
  "token s \<longleftrightarrow> s \<noteq> [] \<and> (\<forall>c \<in> set s. \<not> is_ws c \<and> c \<noteq> CHR '':'')"

definition field_ok :: "bytes \<times> bytes \<Rightarrow> bool" where
  "field_ok nv \<longleftrightarrow> token (fst nv) \<and> CR \<notin> set (snd nv) \<and> LF \<notin> set (snd nv) \<and> trim (snd nv) = snd nv"

lemma token_trim: "token s \<Longrightarrow> trim s = s"
  by (rule trim_id) (auto simp: token_def)

lemma is_ws_bytes [simp]: "is_ws (CHR '' '')" "is_ws CR" "is_ws LF" "is_ws HT"
  by (simp_all add: is_ws_def)

lemma token_no_eol: "token s \<Longrightarrow> CR \<notin> set s \<and> LF \<notin> set s"
  unfolding token_def using is_ws_bytes(2,3) by blast

lemma field_plain_line: "field_ok nv \<Longrightarrow> plain_line (header_line nv)"
  using token_no_eol [of "fst nv"] by (simp add: field_ok_def plain_line_def header_line_def)

lemma header_loop_line:
  assumes "field_ok nv"
  shows "header_loop put ((header_line nv @ [CR]) # ls) h = header_loop put ls (put h (to_lower (fst nv)) (snd nv))"
proof -
  from assms have t: "token (fst nv)" and v: "trim (snd nv) = snd nv" by (auto simp: field_ok_def)
  have f: "str_find (header_line nv) '':'' 0 = Some (length (fst nv))"
    using t str_find_char_split [of "CHR '':''" "fst nv" "'' '' @ snd nv"]
    by (auto simp: header_line_def token_def)
  have "trim (drop (length (fst nv) + 1) (header_line nv)) = snd nv"
    using trim_skip [of "'' ''" "snd nv"] v by (simp add: header_line_def)
  moreover have "substr (header_line nv) 0 (length (fst nv)) = fst nv"
    by (simp add: substr_def header_line_def)
  moreover have "fst nv \<noteq> []" "header_line nv \<noteq> []" using t by (auto simp: token_def header_line_def)
  ultimately show ?thesis using f by (simp add: token_trim [OF t] Let_def)
qed

lemma header_loop_fields:
  "\<forall>nv \<in> set hs. field_ok nv \<Longrightarrow>
   header_loop put (map (\<lambda>nv. header_line nv @ [CR]) hs @ [CR] # ls) h =
     foldl (\<lambda>h nv. put h (to_lower (fst nv)) (snd nv)) h hs"
proof (induction hs arbitrary: h)
  case Nil
  show ?case by simp
next
  case (Cons nv hs)
  then show ?case by (simp add: header_loop_line del: header_loop.simps(2))
qed

end
