(* ===== verification/Http_Request.thy ===== *)
theory Http_Request
  imports Http_Headers
begin

text \<open>
  The request half of \<open>src/http.hpp\<close>: the \<open>Request\<close> structure,
  \<open>parse_request\<close> and \<open>expected_request_bytes\<close>. The parser
  is cut at its early returns: each stage returns either the request as the code would
  return it at once (\<^const>\<open>Inl\<close>) or the one parsing goes on with (\<^const>\<open>Inr\<close>).
  The lemmas give the shape of every parsed request, the round trip with a printer of
  well-formed requests, and the framing arithmetic.
\<close>

section \<open>The request\<close>

record request =
  req_method :: bytes
  req_target :: bytes
  req_version :: bytes
  req_path :: bytes
  req_host :: bytes
  req_headers :: "bytes \<rightharpoonup> bytes"
  req_raw :: bytes
  req_header_bytes :: nat
  req_content_length :: int
  req_keep_alive :: bool
  req_valid :: bool
  req_parse_error :: bytes

definition new_request :: request where
  "new_request = \<lparr>req_method = [], req_target = [], req_version = [], req_path = [], req_host = [],
     req_headers = Map.empty, req_raw = [], req_header_bytes = 0, req_content_length = -1,
     req_keep_alive = True, req_valid = False, req_parse_error = []\<rparr>"

definition req_header :: "request \<Rightarrow> bytes \<Rightarrow> bytes option" where
  "req_header r lower_name = req_headers r lower_name"

definition fold_header :: "(bytes \<rightharpoonup> bytes) \<Rightarrow> bytes \<Rightarrow> bytes \<Rightarrow> (bytes \<rightharpoonup> bytes)" where
  "fold_header h name value = (case h name of None \<Rightarrow> h(name \<mapsto> value)
     | Some old \<Rightarrow> h(name \<mapsto> old @ '', '' @ value))"

section \<open>parse_request\<close>

definition parse_request_line :: "request \<Rightarrow> bytes \<Rightarrow> request + request" where
  "parse_request_line r line =
     (case str_find line '' '' 0 of
        None \<Rightarrow> Inl (r\<lparr>req_parse_error := ''malformed request line''\<rparr>)
      | Some sp1 \<Rightarrow>
        (case str_find line '' '' (sp1 + 1) of
           None \<Rightarrow> Inl (r\<lparr>req_parse_error := ''malformed request line''\<rparr>)
         | Some sp2 \<Rightarrow>
             let r = r\<lparr>req_method := substr line 0 sp1, req_target := substr line (sp1 + 1) (sp2 - sp1 - 1),
                       req_version := trim (drop (sp2 + 1) line)\<rparr> in
             if req_method r = [] \<or> req_target r = []
             then Inl (r\<lparr>req_parse_error := ''malformed request line''\<rparr>)
             else if take 5 (req_version r) \<noteq> ''HTTP/''
             then Inl (r\<lparr>req_parse_error := ''unsupported version''\<rparr>)
             else Inr r))"

text \<open>Absolute-form targets are split into authority and path (\<open>r.host\<close> is still empty
  here); an empty authority falls back to the \<open>Host\<close> header.\<close>

definition target_parts :: "bytes \<Rightarrow> bytes \<times> bytes" where
  "target_parts t = (if take 7 (to_lower t) = ''http://''
     then (case str_find t ''/'' 7 of
             None \<Rightarrow> (drop 7 t, ''/'')
           | Some slash \<Rightarrow> (substr t 7 (slash - 7), drop slash t))
     else ([], t))"

definition normalise_target :: "request \<Rightarrow> request" where
  "normalise_target r =
     (let (h, p) = target_parts (req_target r);
          h = (if h = [] then (case req_header r ''host'' of Some x \<Rightarrow> x | None \<Rightarrow> h) else h) in
      r\<lparr>req_path := p, req_host := h\<rparr>)"

definition parse_content_length :: "bytes option \<Rightarrow> int" where
  "parse_content_length cl = (case cl of None \<Rightarrow> -1
     | Some s \<Rightarrow> (case strtol (c_str s) of (v, end, erange) \<Rightarrow>
         if \<not> erange \<and> end = [] \<and> v \<ge> 0 then v else -1))"

definition decide_keep_alive :: "bytes \<Rightarrow> bytes option \<Rightarrow> bool" where
  "decide_keep_alive version conn = (let ka = (version = ''HTTP/1.1'') in
     case conn of None \<Rightarrow> ka
     | Some c \<Rightarrow> let v = to_lower c in
         if str_contains v ''close'' then False
         else if str_contains v ''keep-alive'' then True else ka)"

definition parse_fields :: "request \<Rightarrow> bytes list \<Rightarrow> request" where
  "parse_fields r rest =
     (let r = r\<lparr>req_headers := header_loop fold_header rest Map.empty\<rparr>;
          r = normalise_target r;
          r = r\<lparr>req_content_length := parse_content_length (req_header r ''content-length''),
                req_keep_alive := decide_keep_alive (req_version r) (req_header r ''connection'')\<rparr> in
      if req_host r = [] then r\<lparr>req_parse_error := ''missing Host header''\<rparr>
      else r\<lparr>req_valid := True\<rparr>)"

definition parse_request :: "bytes \<Rightarrow> request" where
  "parse_request raw =
     (let r = new_request\<lparr>req_raw := raw\<rparr> in
      case find_header_end raw of
        None \<Rightarrow> r\<lparr>req_parse_error := ''incomplete headers''\<rparr>
      | Some hend \<Rightarrow>
          let r = r\<lparr>req_header_bytes := hend\<rparr> in
          (case getlines (substr raw 0 hend) of
             [] \<Rightarrow> r\<lparr>req_parse_error := ''empty request''\<rparr>
           | line # rest \<Rightarrow>
               (case parse_request_line r (chomp line) of
                  Inl r \<Rightarrow> r
                | Inr r \<Rightarrow> parse_fields r rest)))"

text \<open>\<open>r.header_bytes + (size_t)r.content_length\<close> in 64-bit arithmetic.\<close>

definition expected_request_bytes :: "request \<Rightarrow> u64" where
  "expected_request_bytes r = (if req_content_length r > 0
     then of_nat (req_header_bytes r) + of_int (req_content_length r)
     else of_nat (req_header_bytes r))"

section \<open>Every parsed request is well formed\<close>

lemma parse_content_length_range:
  "-1 \<le> parse_content_length cl \<and> parse_content_length cl \<le> LONG_MAX"
  by (auto simp: parse_content_length_def strtol_def LONG_MAX_def Let_def split: option.splits prod.splits)

lemma parse_request_line_InrD:
  assumes "parse_request_line r line = Inr r'"
  obtains m t v where "r' = r\<lparr>req_method := m, req_target := t, req_version := v\<rparr>"
    "m \<noteq> []" "t \<noteq> []" "CHR '' '' \<notin> set m" "CHR '' '' \<notin> set t" "take 5 v = ''HTTP/''"
proof -
  from assms obtain sp1 sp2 where s1: "str_find line '' '' 0 = Some sp1"
    and s2: "str_find line '' '' (sp1 + 1) = Some sp2"
    by (auto simp: parse_request_line_def split: option.splits)
  have "CHR '' '' \<notin> set (substr line 0 sp1)" by (rule substr_prefix_find [OF s1])
  moreover have "CHR '' '' \<notin> set (substr line (sp1 + 1) (sp2 - (sp1 + 1)))"
    by (rule substr_between_find [OF s2])
  ultimately show thesis using assms s1 s2
    by (intro that [where m = "substr line 0 sp1" and t = "substr line (sp1 + 1) (sp2 - sp1 - 1)"
          and v = "trim (drop (sp2 + 1) line)"]) (auto simp: parse_request_line_def Let_def split: if_splits)
qed

lemma parse_request_line_InlD:
  assumes "parse_request_line r line = Inl r'"
  shows "req_parse_error r' \<in> {''malformed request line'', ''unsupported version''} \<and>
    req_valid r' = req_valid r \<and> req_header_bytes r' = req_header_bytes r \<and> req_raw r' = req_raw r \<and>
    req_content_length r' = req_content_length r"
  using assms by (auto simp: parse_request_line_def Let_def split: option.splits if_splits)

lemma normalise_target_frame [simp]:
  "req_method (normalise_target r) = req_method r" "req_target (normalise_target r) = req_target r"
  "req_version (normalise_target r) = req_version r" "req_headers (normalise_target r) = req_headers r"
  "req_raw (normalise_target r) = req_raw r" "req_header_bytes (normalise_target r) = req_header_bytes r"
  "req_valid (normalise_target r) = req_valid r" "req_parse_error (normalise_target r) = req_parse_error r"
  by (simp_all add: normalise_target_def split: prod.split)

lemma parse_fields_frame [simp]:
  "req_method (parse_fields r ls) = req_method r" "req_target (parse_fields r ls) = req_target r"
  "req_version (parse_fields r ls) = req_version r" "req_raw (parse_fields r ls) = req_raw r"
  "req_header_bytes (parse_fields r ls) = req_header_bytes r"
  "req_headers (parse_fields r ls) = header_loop fold_header ls Map.empty"
  by (simp_all add: parse_fields_def Let_def)

lemma parse_fields_valid:
  "\<not> req_valid r \<Longrightarrow> req_valid (parse_fields r ls) \<longleftrightarrow> req_host (parse_fields r ls) \<noteq> []"
  "\<not> req_valid r \<Longrightarrow> \<not> req_valid (parse_fields r ls) \<Longrightarrow> req_parse_error (parse_fields r ls) = ''missing Host header''"
  "req_parse_error r = [] \<Longrightarrow> req_valid (parse_fields r ls) \<Longrightarrow> \<not> req_valid r \<Longrightarrow> req_parse_error (parse_fields r ls) = []"
  "-1 \<le> req_content_length (parse_fields r ls) \<and> req_content_length (parse_fields r ls) \<le> LONG_MAX"
  using parse_content_length_range by (auto simp: parse_fields_def Let_def)

lemma parse_request_cases:
  obtains (no_header) "find_header_end raw = None"
      "parse_request raw = new_request\<lparr>req_raw := raw, req_parse_error := ''incomplete headers''\<rparr>"
  | (bad_line) e l ls where "find_header_end raw = Some e" "getlines (substr raw 0 e) = l # ls"
      "parse_request_line (new_request\<lparr>req_raw := raw, req_header_bytes := e\<rparr>) (chomp l) = Inl (parse_request raw)"
  | (fields) e l ls r where "find_header_end raw = Some e" "getlines (substr raw 0 e) = l # ls"
      "parse_request_line (new_request\<lparr>req_raw := raw, req_header_bytes := e\<rparr>) (chomp l) = Inr r"
      "parse_request raw = parse_fields r ls"
proof (cases "find_header_end raw")
  case None
  then show thesis by (intro no_header) (simp_all add: parse_request_def)
next
  case (Some e)
  then obtain l ls where ls: "getlines (substr raw 0 e) = l # ls"
    using getlines_take_header_nonempty by (cases "getlines (substr raw 0 e)") auto
  show thesis
  proof (cases "parse_request_line (new_request\<lparr>req_raw := raw, req_header_bytes := e\<rparr>) (chomp l)")
    case (Inl r)
    with Some ls have "parse_request raw = r" by (simp add: parse_request_def)
    with bad_line Some ls Inl show thesis by simp
  next
    case (Inr r)
    with Some ls have "parse_request raw = parse_fields r ls" by (simp add: parse_request_def)
    with fields Some ls Inr show thesis by simp
  qed
qed

definition well_formed_request :: "request \<Rightarrow> bool" where
  "well_formed_request r \<longleftrightarrow> req_method r \<noteq> [] \<and> req_target r \<noteq> [] \<and> CHR '' '' \<notin> set (req_method r) \<and>
     CHR '' '' \<notin> set (req_target r) \<and> take 5 (req_version r) = ''HTTP/'' \<and> req_host r \<noteq> [] \<and>
     2 \<le> req_header_bytes r \<and> req_header_bytes r \<le> length (req_raw r) \<and>
     -1 \<le> req_content_length r \<and> req_content_length r \<le> LONG_MAX \<and> req_parse_error r = []"

lemma parse_request_raw [simp]: "req_raw (parse_request raw) = raw"
proof (cases raw rule: parse_request_cases)
  case (bad_line e l ls)
  then show ?thesis by (auto dest: parse_request_line_InlD)
next
  case (fields e l ls r)
  then show ?thesis by (auto elim: parse_request_line_InrD)
qed simp

lemma parse_request_header_bytes:
  "req_header_bytes (parse_request raw) = (case find_header_end raw of None \<Rightarrow> 0 | Some e \<Rightarrow> e)"
proof (cases raw rule: parse_request_cases)
  case no_header
  then show ?thesis by (simp add: new_request_def)
next
  case (bad_line e l ls)
  then show ?thesis by (auto dest: parse_request_line_InlD)
next
  case (fields e l ls r)
  then show ?thesis by (auto elim: parse_request_line_InrD)
qed

lemma parse_request_header_bytes_le: "req_header_bytes (parse_request raw) \<le> length raw"
  by (auto simp: parse_request_header_bytes dest: find_header_end_bounds split: option.splits)

lemma parse_request_content_length:
  "-1 \<le> req_content_length (parse_request raw) \<and> req_content_length (parse_request raw) \<le> LONG_MAX"
proof (cases raw rule: parse_request_cases)
  case no_header
  then show ?thesis by (simp add: new_request_def LONG_MAX_def)
next
  case (bad_line e l ls)
  from parse_request_line_InlD [OF bad_line(3)] show ?thesis by (simp add: new_request_def LONG_MAX_def)
next
  case (fields e l ls r)
  then show ?thesis using parse_fields_valid(4) [of r ls] by simp
qed

lemma parse_request_facts:
  "if req_valid (parse_request raw)
   then well_formed_request (parse_request raw) \<and>
        find_header_end raw = Some (req_header_bytes (parse_request raw)) \<and>
        req_raw (parse_request raw) = raw
   else req_parse_error (parse_request raw) \<in>
        {''incomplete headers'', ''malformed request line'', ''unsupported version'', ''missing Host header''}"
proof (cases raw rule: parse_request_cases)
  case no_header
  then show ?thesis by (simp add: new_request_def)
next
  case (bad_line e l ls)
  from parse_request_line_InlD [OF bad_line(3)] show ?thesis by (auto simp: new_request_def)
next
  case (fields e l ls r)
  from fields(3) obtain m t v where r: "r = new_request\<lparr>req_raw := raw, req_header_bytes := e,
      req_method := m, req_target := t, req_version := v\<rparr>"
    and mtv: "m \<noteq> []" "t \<noteq> []" "CHR '' '' \<notin> set m" "CHR '' '' \<notin> set t" "take 5 v = ''HTTP/''"
    by (rule parse_request_line_InrD)
  have nv: "\<not> req_valid r" and ne: "req_parse_error r = []" by (simp_all add: r new_request_def)
  show ?thesis
  proof (cases "req_valid (parse_request raw)")
    case True
    with parse_fields_valid(1) [OF nv, of ls] parse_fields_valid(3) [OF ne _ nv, of ls] fields
    have "req_host (parse_request raw) \<noteq> []" "req_parse_error (parse_request raw) = []" by auto
    with True fields(1,4) mtv r find_header_end_bounds [OF fields(1)] parse_request_content_length [of raw]
    show ?thesis by (simp add: well_formed_request_def)
  next
    case False
    with parse_fields_valid(2) [OF nv, of ls] fields(4) show ?thesis by simp
  qed
qed

text \<open>C36: Whatever bytes arrive, \<open>parse_request\<close> either accepts them as a well-formed
  request (non-empty method, target and host, no blanks inside method or target, an HTTP
  version, a header block that lies inside the buffer, a Content-Length that is unknown or
  non-negative, no error text) whose header block ends where \<open>find_header_end\<close> says, or
  rejects them with one of its four error messages.\<close>

theorem parse_request_well_formed:
  "if req_valid (parse_request raw)
   then well_formed_request (parse_request raw) \<and>
        find_header_end raw = Some (req_header_bytes (parse_request raw)) \<and>
        req_raw (parse_request raw) = raw
   else req_parse_error (parse_request raw) \<in>
        {''incomplete headers'', ''malformed request line'', ''unsupported version'', ''missing Host header''}"
  by (rule parse_request_facts)

section \<open>Printing a request and parsing it back\<close>

definition request_lines :: "bytes \<Rightarrow> bytes \<Rightarrow> bytes \<Rightarrow> (bytes \<times> bytes) list \<Rightarrow> bytes list" where
  "request_lines m t v hs = (m @ '' '' @ t @ '' '' @ v) # map header_line hs"

definition print_request :: "bytes \<Rightarrow> bytes \<Rightarrow> bytes \<Rightarrow> (bytes \<times> bytes) list \<Rightarrow> bytes" where
  "print_request m t v hs = crlf_lines (request_lines m t v hs) @ crlf"

definition word_ok :: "bytes \<Rightarrow> bool" where
  "word_ok s \<longleftrightarrow> s \<noteq> [] \<and> CHR '' '' \<notin> set s \<and> CR \<notin> set s \<and> LF \<notin> set s"

definition version_ok :: "bytes \<Rightarrow> bool" where
  "version_ok v \<longleftrightarrow> take 5 v = ''HTTP/'' \<and> CR \<notin> set v \<and> LF \<notin> set v \<and> trim v = v"

definition printable :: "bytes \<Rightarrow> bytes \<Rightarrow> bytes \<Rightarrow> (bytes \<times> bytes) list \<Rightarrow> bool" where
  "printable m t v hs \<longleftrightarrow> word_ok m \<and> word_ok t \<and> version_ok v \<and> (\<forall>nv \<in> set hs. field_ok nv)"

text \<open>All values given for a name, in order, and the folding of RFC 9110.\<close>

definition field_values :: "(bytes \<times> bytes) list \<Rightarrow> bytes \<Rightarrow> bytes list" where
  "field_values hs n = map snd (filter (\<lambda>nv. to_lower (fst nv) = n) hs)"

fun join_values :: "bytes list \<Rightarrow> bytes option" where
  "join_values [] = None"
| "join_values (v # vs) = Some (v @ concat (map (\<lambda>w. '', '' @ w) vs))"

lemma foldl_fold_header:
  "foldl (\<lambda>h nv. fold_header h (to_lower (fst nv)) (snd nv)) h hs n =
     (case h n of None \<Rightarrow> join_values (field_values hs n)
      | Some old \<Rightarrow> Some (old @ concat (map (\<lambda>w. '', '' @ w) (field_values hs n))))"
  by (induction hs arbitrary: h) (auto simp: field_values_def fold_header_def split: option.splits)

lemma two_words:
  assumes "word_ok m" "word_ok t"
  shows "str_find (m @ '' '' @ t @ '' '' @ v) '' '' 0 = Some (length m)"
    "str_find (m @ '' '' @ t @ '' '' @ v) '' '' (length m + 1) = Some (length m + 1 + length t)"
proof -
  let ?l = "m @ '' '' @ t @ '' '' @ v"
  show "str_find ?l '' '' 0 = Some (length m)"
    using str_find_char_split [of "CHR '' ''" m "t @ '' '' @ v"] assms(1) by (simp add: word_ok_def)
  show "str_find ?l '' '' (length m + 1) = Some (length m + 1 + length t)"
  proof (rule str_find_SomeI)
    fix k assume k: "length m + 1 \<le> k" "k < length m + 1 + length t"
    then obtain j where j: "k = length m + 1 + j" by (metis le_iff_add)
    with k have kl: "j < length t" by simp
    have "drop k ?l = t ! j # drop (Suc j) t @ '' '' @ v"
      using j kl by (simp add: Cons_nth_drop_Suc [symmetric])
    then show "\<not> prefix '' '' (drop k ?l)"
      using nth_mem [OF kl] assms(2) by (auto simp: word_ok_def)
  qed simp_all
qed

lemma parse_request_line_print:
  assumes "word_ok m" "word_ok t" "version_ok v"
  shows "parse_request_line r (m @ '' '' @ t @ '' '' @ v) =
    Inr (r\<lparr>req_method := m, req_target := t, req_version := v\<rparr>)"
proof -
  have "m \<noteq> []" "t \<noteq> []" "take 5 v = ''HTTP/''" "trim v = v"
    using assms by (auto simp: word_ok_def version_ok_def)
  with two_words [OF assms(1,2), of v] show ?thesis
    by (simp add: parse_request_line_def substr_def)
qed

lemma printable_lines: "printable m t v hs \<Longrightarrow> \<forall>l \<in> set (request_lines m t v hs). plain_line l"
  using field_plain_line
  by (auto simp: printable_def request_lines_def word_ok_def version_ok_def plain_line_def)

lemma find_header_end_print:
  "printable m t v hs \<Longrightarrow> find_header_end (print_request m t v hs @ body) = Some (length (print_request m t v hs))"
  using find_header_end_block [OF _ printable_lines, of m t v hs body]
  by (simp add: print_request_def request_lines_def)

lemma parse_request_print:
  assumes "printable m t v hs"
  shows "parse_request (print_request m t v hs @ body) =
    parse_fields (new_request\<lparr>req_raw := print_request m t v hs @ body,
        req_header_bytes := length (print_request m t v hs),
        req_method := m, req_target := t, req_version := v\<rparr>)
      (map (\<lambda>nv. header_line nv @ [CR]) hs @ [[CR]])"
proof -
  let ?raw = "print_request m t v hs @ body"
  have "\<forall>l \<in> set (request_lines m t v hs). LF \<notin> set l"
    using printable_lines [OF assms] by (auto simp: plain_line_def)
  then have "getlines (print_request m t v hs) =
      (m @ '' '' @ t @ '' '' @ v @ [CR]) # map (\<lambda>nv. header_line nv @ [CR]) hs @ [[CR]]"
    using getlines_crlf_lines [of "request_lines m t v hs" crlf]
    by (simp add: print_request_def request_lines_def)
  moreover have "chomp (m @ '' '' @ t @ '' '' @ v @ [CR]) = m @ '' '' @ t @ '' '' @ v"
    using chomp_CR [of "m @ '' '' @ t @ '' '' @ v"] by simp
  moreover note parse_request_line_print [of m t v] 
  ultimately show ?thesis using assms find_header_end_print [OF assms, of body]
    by (simp add: parse_request_def printable_def substr_def)
qed

lemma header_loop_print:
  assumes "printable m t v hs"
  shows "header_loop fold_header (map (\<lambda>nv. header_line nv @ [CR]) hs @ [[CR]]) Map.empty n =
    join_values (field_values hs n)"
proof -
  have "\<forall>nv \<in> set hs. field_ok nv" using assms by (simp add: printable_def)
  then show ?thesis using header_loop_fields [of hs fold_header "[]"] by (simp add: foldl_fold_header)
qed

lemma print_request_facts:
  assumes "printable m t v hs"
  shows "req_method (parse_request (print_request m t v hs @ body)) = m \<and>
    req_target (parse_request (print_request m t v hs @ body)) = t \<and>
    req_version (parse_request (print_request m t v hs @ body)) = v \<and>
    req_header_bytes (parse_request (print_request m t v hs @ body)) = length (print_request m t v hs) \<and>
    req_header (parse_request (print_request m t v hs @ body)) n = join_values (field_values hs n) \<and>
    req_valid (parse_request (print_request m t v hs @ body)) =
      (req_host (parse_request (print_request m t v hs @ body)) \<noteq> [])"
  using header_loop_print [OF assms]
  by (simp add: parse_request_print [OF assms] parse_fields_valid new_request_def req_header_def)

text \<open>C15: Parsing inverts printing: for every request line and header list free of the
  delimiters, and whatever bytes follow (a body, pipelined requests), \<open>parse_request\<close>
  recovers method, target and version, finds the exact end of the header block, and maps each
  lower-cased name to all its values in order, folded with a comma; the request is valid
  exactly when it names a host.\<close>

theorem parse_print_roundtrip:
  assumes "printable m t v hs"
  shows "req_method (parse_request (print_request m t v hs @ body)) = m \<and>
    req_target (parse_request (print_request m t v hs @ body)) = t \<and>
    req_version (parse_request (print_request m t v hs @ body)) = v \<and>
    req_header_bytes (parse_request (print_request m t v hs @ body)) = length (print_request m t v hs) \<and>
    req_header (parse_request (print_request m t v hs @ body)) n = join_values (field_values hs n) \<and>
    req_valid (parse_request (print_request m t v hs @ body)) =
      (req_host (parse_request (print_request m t v hs @ body)) \<noteq> [])"
  by (rule print_request_facts [OF assms])

theorem parse_print_roundtrip_witness:
  "req_header (parse_request (print_request ''GET'' ''/a?b=1'' ''HTTP/1.1''
      [(''Host'', ''e.com''), (''X-F'', ''1''), (''x-f'', ''2'')] @ ''rest'')) ''x-f'' = Some ''1, 2''"
proof -
  have "printable ''GET'' ''/a?b=1'' ''HTTP/1.1'' [(''Host'', ''e.com''), (''X-F'', ''1''), (''x-f'', ''2'')]"
    by code_simp
  from parse_print_roundtrip [OF this, of "''rest''" "''x-f''"]
  have "req_header (parse_request (print_request ''GET'' ''/a?b=1'' ''HTTP/1.1''
      [(''Host'', ''e.com''), (''X-F'', ''1''), (''x-f'', ''2'')] @ ''rest'')) ''x-f'' =
    join_values (field_values [(''Host'', ''e.com''), (''X-F'', ''1''), (''x-f'', ''2'')] ''x-f'')"
    by blast
  also have "\<dots> = Some ''1, 2''" by code_simp
  finally show ?thesis .
qed

end
