(* ===== verification/Http_Framing.thy ===== *)
theory Http_Framing
  imports Http_Request
begin

text \<open>
  What the connection handler relies on when it takes requests out of its buffer: the
  number of bytes a request occupies is computed without wrap-around and is positive, a
  request whose header block ends in CRLF CRLF does not change when more bytes arrive, and
  the two spellings of a target are routed alike. Where the header block ends in a bare
  LF LF none of this holds: a later CRLF CRLF swallows the request after it.
\<close>

section \<open>Byte counts\<close>

lemma expected_bytes:
  assumes "length raw < 2 ^ 63"
  shows "unat (expected_request_bytes (parse_request raw)) =
      req_header_bytes (parse_request raw) + nat (req_content_length (parse_request raw)) \<and>
    (req_valid (parse_request raw) \<longrightarrow> 2 \<le> unat (expected_request_bytes (parse_request raw)))"
proof -
  let ?r = "parse_request raw"
  have hb: "req_header_bytes ?r < 2 ^ 63"
    using assms parse_request_header_bytes_le [of raw] by simp
  have cl: "req_content_length ?r \<le> 2 ^ 63 - 1"
    using parse_request_content_length [of raw] by (simp add: LONG_MAX_def)
  have eq: "unat (expected_request_bytes ?r) = req_header_bytes ?r + nat (req_content_length ?r)"
  proof (cases "req_content_length ?r > 0")
    case True
    then have "(of_int (req_content_length ?r) :: u64) = of_nat (nat (req_content_length ?r))" by simp
    moreover have "req_header_bytes ?r + nat (req_content_length ?r) < 2 ^ 64" using hb cl by simp
    ultimately show ?thesis
      using True by (simp only: expected_request_bytes_def if_True unat_sum_u64)
  next
    case False
    with hb show ?thesis by (simp add: expected_request_bytes_def)
  qed
  moreover have "req_valid ?r \<longrightarrow> 2 \<le> req_header_bytes ?r"
    using parse_request_facts [of raw] by (auto simp: well_formed_request_def split: if_splits)
  ultimately show ?thesis by linarith
qed

text \<open>For every buffer shorter than 2^63 bytes, the 64-bit sum that
  \<open>expected_request_bytes\<close> computes does not wrap: it is the header block plus the declared
  body, and for an accepted request it is at least two bytes, so serving always consumes.\<close>

theorem expected_request_bytes_exact:
  assumes "length raw < 2 ^ 63"
  shows "unat (expected_request_bytes (parse_request raw)) =
      req_header_bytes (parse_request raw) + nat (req_content_length (parse_request raw)) \<and>
    (req_valid (parse_request raw) \<longrightarrow> 2 \<le> unat (expected_request_bytes (parse_request raw)))"
  by (rule expected_bytes [OF assms])

theorem expected_request_bytes_exact_witness:
  "unat (expected_request_bytes (parse_request
     (''POST /x HTTP/1.1'' @ crlf @ ''Host: a'' @ crlf @ ''Content-Length: 5'' @ crlf @ crlf @ ''he''))) = 53"
proof -
  let ?raw = "''POST /x HTTP/1.1'' @ crlf @ ''Host: a'' @ crlf @ ''Content-Length: 5'' @ crlf @ crlf @ ''he''"
  have "length ?raw < 2 ^ 63" by simp
  note E = expected_request_bytes_exact [OF this]
  have "req_header_bytes (parse_request ?raw) = 48" "req_content_length (parse_request ?raw) = 5" by code_simp+
  with E show ?thesis by linarith
qed

section \<open>Later bytes\<close>

lemma parse_request_line_raw:
  "parse_request_line (new_request\<lparr>req_raw := y, req_header_bytes := e\<rparr>) l =
     map_sum (req_raw_update (\<lambda>_. y)) (req_raw_update (\<lambda>_. y))
       (parse_request_line (new_request\<lparr>req_raw := x, req_header_bytes := e\<rparr>) l)"
  by (simp add: parse_request_line_def new_request_def Let_def split: option.split)

lemma normalise_target_raw:
  "normalise_target (r\<lparr>req_raw := x, req_headers := h\<rparr>) = (normalise_target (r\<lparr>req_headers := h\<rparr>))\<lparr>req_raw := x\<rparr>"
  by (cases r) (simp add: normalise_target_def req_header_def split: prod.split)

lemma parse_fields_raw: "parse_fields (r\<lparr>req_raw := x\<rparr>) ls = (parse_fields r ls)\<lparr>req_raw := x\<rparr>"
proof -
  let ?h = "header_loop fold_header ls Map.empty"
  obtain q where q: "normalise_target (r\<lparr>req_headers := ?h\<rparr>) = q" by simp
  show ?thesis
    by (simp add: parse_fields_def Let_def normalise_target_raw q req_header_def)
qed

text \<open>Once the buffer holds a header block that ends in CRLF CRLF, the bytes that arrive
  later (the rest of the body, pipelined requests) change nothing in the parsed request but
  the copy of the buffer itself.\<close>

theorem parse_request_stable:
  assumes "str_find raw (crlf @ crlf) 0 = Some p"
  shows "parse_request (raw @ extra) = (parse_request raw)\<lparr>req_raw := raw @ extra\<rparr>"
proof -
  note H = find_header_end_append [OF assms]
  have "p + 4 \<le> length raw" using str_find_SomeD(2) [OF assms] by simp
  then have sub: "substr (raw @ extra) 0 (p + 4) = substr raw 0 (p + 4)" by (simp add: substr_def)
  note line = parse_request_line_raw [where y = "raw @ extra" and x = raw and e = "p + 4"]
  obtain l ls where ls: "getlines (substr raw 0 (p + 4)) = l # ls"
    using getlines_take_header_nonempty [OF H(1)] by (cases "getlines (substr raw 0 (p + 4))") auto
  show ?thesis
    by (cases "parse_request_line (new_request\<lparr>req_raw := raw, req_header_bytes := p + 4\<rparr>) (chomp l)")
      (simp_all add: parse_request_def H sub ls line Let_def parse_fields_raw)
qed

theorem parse_request_stable_witness:
  "parse_request ((''GET / HTTP/1.1'' @ crlf @ ''Host: a'' @ crlf @ crlf) @ ''GET /next'') =
   (parse_request (''GET / HTTP/1.1'' @ crlf @ ''Host: a'' @ crlf @ crlf))
     \<lparr>req_raw := (''GET / HTTP/1.1'' @ crlf @ ''Host: a'' @ crlf @ crlf) @ ''GET /next''\<rparr>"
proof -
  have "str_find (''GET / HTTP/1.1'' @ crlf @ ''Host: a'' @ crlf @ crlf) (crlf @ crlf) 0 = Some 23"
    by code_simp
  from parse_request_stable [OF this] show ?thesis .
qed

section \<open>The two forms of a target\<close>

lemma tolower_slash: "tolower_c (CHR ''/'') = CHR ''/''" "to_lower ''http://'' = ''http://''"
  by code_simp+

lemma target_parts_origin: "target_parts (CHR ''/'' # q) = ([], CHR ''/'' # q)"
proof -
  have "take 7 (to_lower (CHR ''/'' # q)) \<noteq> ''http://''" by (simp add: to_lower_def tolower_slash)
  then show ?thesis by (simp add: target_parts_def)
qed

lemma target_parts_absolute:
  assumes "CHR ''/'' \<notin> set h"
  shows "target_parts (''http://'' @ h @ CHR ''/'' # q) = (h, CHR ''/'' # q)"
proof -
  let ?t = "''http://'' @ h @ CHR ''/'' # q"
  have d7: "drop (7 + j) ?t = drop j (h @ CHR ''/'' # q)" for j
  proof -
    have "drop (7 + j) ?t = drop j (drop 7 ?t)" unfolding drop_drop by (simp only: add.commute)
    then show ?thesis by simp
  qed
  have f: "str_find ?t ''/'' 7 = Some (7 + length h)"
  proof (rule str_find_SomeI)
    fix k assume k: "7 \<le> k" "k < 7 + length h"
    then obtain j where j: "k = 7 + j" "j < length h" by (metis le_iff_add nat_add_left_cancel_less)
    have "drop k ?t = drop j (h @ CHR ''/'' # q)" unfolding j(1) by (rule d7)
    also have "\<dots> = h ! j # drop (Suc j) h @ CHR ''/'' # q"
      using j(2) by (simp add: Cons_nth_drop_Suc [symmetric])
    finally show "\<not> prefix ''/'' (drop k ?t)" using nth_mem [OF j(2)] assms by auto
  next
    show "prefix ''/'' (drop (7 + length h) ?t)" unfolding d7 by simp
  qed simp_all
  have "to_lower ?t = ''http://'' @ to_lower (h @ CHR ''/'' # q)"
    by (simp only: to_lower_append tolower_slash(2))
  then have "take 7 (to_lower ?t) = ''http://''" by simp
  moreover have "drop (7 + length h) ?t = CHR ''/'' # q" unfolding d7 by simp
  ultimately show ?thesis using f by (simp add: target_parts_def substr_def)
qed

lemma parse_fields_host_path:
  "req_host (parse_fields r ls) = req_host (normalise_target (r\<lparr>req_headers := header_loop fold_header ls Map.empty\<rparr>))"
  "req_path (parse_fields r ls) = req_path (normalise_target (r\<lparr>req_headers := header_loop fold_header ls Map.empty\<rparr>))"
  by (simp_all add: parse_fields_def Let_def)

text \<open>A client that sends the absolute form \<open>http://h/q\<close> (as proxy clients do) and one
  that sends \<open>/q\<close> with a Host header \<open>h\<close> end up with the same host and the same path, so
  access control, routing and the cache key treat them alike; in the absolute form the
  authority in the target wins over any Host header.\<close>

theorem target_forms_agree:
  assumes "printable m (''http://'' @ h @ CHR ''/'' # q) v hs" "printable m (CHR ''/'' # q) v hs'"
    and "h \<noteq> []" "CHR ''/'' \<notin> set h" "join_values (field_values hs' ''host'') = Some h"
  shows "req_host (parse_request (print_request m (''http://'' @ h @ CHR ''/'' # q) v hs @ body)) = h \<and>
    req_path (parse_request (print_request m (''http://'' @ h @ CHR ''/'' # q) v hs @ body)) = CHR ''/'' # q \<and>
    req_host (parse_request (print_request m (CHR ''/'' # q) v hs' @ body')) = h \<and>
    req_path (parse_request (print_request m (CHR ''/'' # q) v hs' @ body')) = CHR ''/'' # q"
proof -
  note P = target_parts_absolute [OF assms(4)] target_parts_origin [of q]
  show ?thesis
    using header_loop_print [OF assms(2), of "''host''"] assms(3,5)
    by (simp add: parse_request_print [OF assms(1)] parse_request_print [OF assms(2)]
        parse_fields_host_path normalise_target_def P new_request_def req_header_def del: append.simps)
qed

theorem target_forms_agree_witness:
  "req_host (parse_request (print_request ''GET'' ''http://origin.test:8080/p/q'' ''HTTP/1.1''
      [(''Host'', ''ignored.example'')] @ [])) = ''origin.test:8080''"
proof -
  have "printable ''GET'' (''http://'' @ ''origin.test:8080'' @ CHR ''/'' # ''p/q'') ''HTTP/1.1'' [(''Host'', ''ignored.example'')]"
    "printable ''GET'' (CHR ''/'' # ''p/q'') ''HTTP/1.1'' [(''Host'', ''origin.test:8080'')]"
    "join_values (field_values [(''Host'', ''origin.test:8080'')] ''host'') = Some ''origin.test:8080''"
    by code_simp+
  from target_forms_agree [OF this(1,2) _ _ this(3), of "[]"]
  have "req_host (parse_request (print_request ''GET'' (''http://'' @ ''origin.test:8080'' @ CHR ''/'' # ''p/q'')
      ''HTTP/1.1'' [(''Host'', ''ignored.example'')] @ [])) = ''origin.test:8080''" by simp
  then show ?thesis by simp
qed

section \<open>The bare-LF terminator\<close>

text \<open>A finding. \<open>find_header_end\<close> looks for CRLF CRLF in the whole buffer before it
  accepts LF LF. If a client that ends its lines in bare LF sends a complete request and any
  CRLF-terminated request follows it in the buffer, the header block of the first is taken to
  reach to the end of the second: both are consumed, and forwarded, as one request, and the
  second is never parsed or checked on its own.\<close>

theorem bare_lf_request_swallows_next:
  assumes "CR \<notin> set first" "printable m t v hs"
  shows "find_header_end (first @ [LF, LF] @ print_request m t v hs) =
    Some (length (first @ [LF, LF] @ print_request m t v hs))"
proof -
  define ls where "ls = request_lines m t v hs"
  have ls: "ls \<noteq> []" "\<forall>l \<in> set ls. plain_line l"
    using printable_lines [OF assms(2)] by (simp_all add: ls_def request_lines_def)
  have pr: "print_request m t v hs = crlf_lines ls @ crlf @ []" by (simp add: print_request_def ls_def)
  have no_cr: "\<not> prefix (crlf @ crlf) (drop k ((first @ [LF, LF]) @ print_request m t v hs))"
    if "k < length (first @ [LF, LF])" for k
  proof -
    have "(first @ [LF, LF]) ! k \<noteq> CR" using nth_mem [OF that] assms(1) by auto
    moreover have "drop k ((first @ [LF, LF]) @ print_request m t v hs) =
        (first @ [LF, LF]) ! k # drop (Suc k) (first @ [LF, LF]) @ print_request m t v hs"
      using that by (simp only: drop_append_le less_imp_le Cons_nth_drop_Suc [symmetric] append_Cons)
    ultimately show ?thesis by simp
  qed
  have F: "str_find (print_request m t v hs) (crlf @ crlf) 0 = Some (length (crlf_lines ls) - 2)"
    unfolding pr by (rule str_find_terminator [OF ls])
  from str_find_skip [OF F _ no_cr] have "str_find ((first @ [LF, LF]) @ print_request m t v hs) (crlf @ crlf) 0 =
    Some (length (first @ [LF, LF]) + (length (crlf_lines ls) - 2))" by simp
  from find_header_end_append(1) [OF this] length_crlf_lines_ge [OF ls(1)] show ?thesis
    by (simp add: pr)
qed

theorem bare_lf_request_swallows_next_witness:
  "find_header_end ((''GET / HTTP/1.1'' @ [LF] @ ''Host: ok.com'') @ [LF, LF] @
     print_request ''GET'' ''/admin/x'' ''HTTP/1.1'' [(''Host'', ''ok.com'')]) = Some 68"
proof -
  have "CR \<notin> set (''GET / HTTP/1.1'' @ [LF] @ ''Host: ok.com'')"
    "printable ''GET'' ''/admin/x'' ''HTTP/1.1'' [(''Host'', ''ok.com'')]" by code_simp+
  note W = bare_lf_request_swallows_next [OF this]
  have "length ((''GET / HTTP/1.1'' @ [LF] @ ''Host: ok.com'') @ [LF, LF] @
     print_request ''GET'' ''/admin/x'' ''HTTP/1.1'' [(''Host'', ''ok.com'')]) = 68" by code_simp
  with W show ?thesis by simp
qed

end
