(* ===== verification/Http_Response.thy ===== *)
theory Http_Response
  imports Http_Framing
begin

text \<open>
  The response half of \<open>src/http.hpp\<close>: \<open>parse_response_headers\<close>, the walk over a
  chunked body, \<open>response_complete\<close> and \<open>is_cacheable\<close>. The walk is stated on
  offsets into the buffer, as in the code; the size of a chunk is a 64-bit word and every
  step of its computation is the code's. The lemmas read the walk on the bytes that are
  still unread.
\<close>

section \<open>The response\<close>

record response =
  resp_status :: int
  resp_headers :: "bytes \<rightharpoonup> bytes"
  resp_header_bytes :: nat
  resp_content_length :: int
  resp_chunked :: bool
  resp_close_delimited :: bool
  resp_valid :: bool

definition new_response :: response where
  "new_response = \<lparr>resp_status = 0, resp_headers = Map.empty, resp_header_bytes = 0,
     resp_content_length = -1, resp_chunked = False, resp_close_delimited = False, resp_valid = False\<rparr>"

definition resp_header :: "response \<Rightarrow> bytes \<Rightarrow> bytes option" where
  "resp_header r lower_name = resp_headers r lower_name"

text \<open>\<open>resp.headers[name] = value\<close>: the last value of a repeated name stays.\<close>

definition set_header :: "(bytes \<rightharpoonup> bytes) \<Rightarrow> bytes \<Rightarrow> bytes \<Rightarrow> (bytes \<rightharpoonup> bytes)" where
  "set_header h name value = h(name \<mapsto> value)"

text \<open>Between the two blanks of the status line, or after the only one.\<close>

definition status_code :: "bytes \<Rightarrow> int option" where
  "status_code line = (case str_find line '' '' 0 of None \<Rightarrow> None
     | Some sp1 \<Rightarrow> (case str_find line '' '' (sp1 + 1) of
          None \<Rightarrow> Some (atoi (drop (sp1 + 1) line))
        | Some sp2 \<Rightarrow> Some (atoi (substr line (sp1 + 1) (sp2 - sp1 - 1)))))"

definition response_length :: "bytes option \<Rightarrow> int" where
  "response_length cl = (case cl of None \<Rightarrow> -1
     | Some s \<Rightarrow> (case strtol (c_str s) of (v, end, erange) \<Rightarrow> if end = [] \<and> v \<ge> 0 then v else -1))"

definition parse_response_headers :: "bytes \<Rightarrow> response" where
  "parse_response_headers raw =
     (case find_header_end raw of None \<Rightarrow> new_response
      | Some hend \<Rightarrow>
        let resp = new_response\<lparr>resp_header_bytes := hend\<rparr> in
        (case getlines (substr raw 0 hend) of
           [] \<Rightarrow> resp
         | line # rest \<Rightarrow>
           (case status_code (chomp line) of None \<Rightarrow> resp
            | Some st \<Rightarrow>
              let resp = resp\<lparr>resp_status := st\<rparr> in
              if st < 100 \<or> st > 599 then resp
              else
                let resp = resp\<lparr>resp_headers := header_loop set_header rest Map.empty\<rparr>;
                    chunked = (case resp_header resp ''transfer-encoding'' of None \<Rightarrow> False
                       | Some te \<Rightarrow> str_contains (to_lower te) ''chunked'');
                    cl = (if chunked then -1 else response_length (resp_header resp ''content-length'')) in
                resp\<lparr>resp_chunked := chunked, resp_content_length := cl,
                     resp_close_delimited := (\<not> chunked \<and> cl < 0), resp_valid := True\<rparr>)))"

section \<open>The chunked body\<close>

definition hex_digit :: "char \<Rightarrow> nat option" where
  "hex_digit c = (let n = (of_char c :: nat) in
     if 48 \<le> n \<and> n \<le> 57 then Some (n - 48)
     else if 97 \<le> n \<and> n \<le> 102 then Some (n - 97 + 10)
     else if 65 \<le> n \<and> n \<le> 70 then Some (n - 65 + 10)
     else None)"

text \<open>The loop over the bytes of a size line: \<^const>\<open>None\<close> is \<open>return false\<close>;
  otherwise \<open>chunk_size\<close> and \<open>any_digit\<close> after the loop.\<close>

fun size_loop :: "bytes \<Rightarrow> u64 \<Rightarrow> bool \<Rightarrow> (u64 \<times> bool) option" where
  "size_loop [] chunk_size any_digit = Some (chunk_size, any_digit)"
| "size_loop (c # cs) chunk_size any_digit =
     (case hex_digit c of
        Some v \<Rightarrow> (let chunk_size = chunk_size * 16 + of_nat v in
                   if chunk_size > push_bit 40 1 then None else size_loop cs chunk_size True)
      | None \<Rightarrow> if c = CHR '' '' \<or> c = HT then size_loop cs chunk_size any_digit else None)"

text \<open>The size line that starts at \<open>pos\<close> and ends at \<open>line_end\<close>, without its extension.\<close>

definition size_line :: "bytes \<Rightarrow> nat \<Rightarrow> nat \<Rightarrow> bytes" where
  "size_line raw pos line_end =
     (let size_end = (case str_find raw '';'' pos of None \<Rightarrow> line_end
        | Some e \<Rightarrow> if e > line_end then line_end else e) in
      substr raw pos (size_end - pos))"

function trailers_complete :: "bytes \<Rightarrow> nat \<Rightarrow> bool" where
  "trailers_complete raw p =
     (case str_find raw crlf p of None \<Rightarrow> False
      | Some e \<Rightarrow> if e = p then True else trailers_complete raw (e + 2))"
  by pat_completeness auto
termination
proof (relation "measure (\<lambda>(raw, p). length raw - p)", simp)
  fix raw :: bytes and p e
  assume "str_find raw crlf p = Some e" "e \<noteq> p"
  from str_find_SomeD(1,2) [OF this(1)]
  show "((raw, e + 2), raw, p) \<in> measure (\<lambda>(raw, p). length raw - p)" by auto
qed

function chunked_body_complete :: "bytes \<Rightarrow> nat \<Rightarrow> bool" where
  "chunked_body_complete raw pos =
     (case str_find raw crlf pos of None \<Rightarrow> False
      | Some line_end \<Rightarrow>
        (case size_loop (size_line raw pos line_end) 0 False of None \<Rightarrow> False
         | Some (chunk_size, any_digit) \<Rightarrow>
             if \<not> any_digit then False
             else if chunk_size = 0 then trailers_complete raw (line_end + 2)
             else
               let pos' = line_end + 2 + unat chunk_size + 2 in
               if pos' > length raw then False else chunked_body_complete raw pos'))"
  by pat_completeness auto
termination
proof (relation "measure (\<lambda>(raw, p). length raw - p)", simp)
  fix raw :: bytes and pos e x n d p'
  assume "str_find raw crlf pos = Some e" "p' = e + 2 + unat (n::u64) + 2" "\<not> length raw < p'"
  with str_find_SomeD(1) [of raw crlf pos e]
  show "((raw, p'), raw, pos) \<in> measure (\<lambda>(raw, p). length raw - p)" by auto
qed

declare trailers_complete.simps [simp del] chunked_body_complete.simps [simp del]

section \<open>Completeness and cacheability\<close>

definition response_complete :: "bytes \<Rightarrow> response \<Rightarrow> bool" where
  "response_complete raw resp =
     (if \<not> resp_valid resp then False
      else if resp_chunked resp then chunked_body_complete raw (resp_header_bytes resp)
      else if resp_content_length resp \<ge> 0
      then length raw \<ge> unat (of_nat (resp_header_bytes resp) + of_int (resp_content_length resp) :: u64)
      else False)"

definition is_cacheable :: "request \<Rightarrow> response \<Rightarrow> bool" where
  "is_cacheable req resp =
     (if req_method req \<noteq> ''GET'' \<and> req_method req \<noteq> ''HEAD'' then False
      else if resp_status resp \<noteq> 200 then False
      else if req_header req ''authorization'' \<noteq> None then False
      else if (case resp_header resp ''cache-control'' of None \<Rightarrow> False
                | Some cc \<Rightarrow> let v = to_lower cc in
                    str_contains v ''no-store'' \<or> str_contains v ''no-cache'' \<or> str_contains v ''private'')
      then False
      else if resp_header resp ''set-cookie'' \<noteq> None then False
      else True)"

end
