(* ===== verification/Http_Chunked.thy ===== *)
theory Http_Chunked
  imports Http_Response
begin

text \<open>
  The walk over a chunked body against the grammar of chunked coding. The size computed by
  the loop is the number the digits denote (it never wraps); on any received prefix of a
  coded message the walk answers ``complete'' exactly when the whole message has arrived,
  whatever bytes the chunks carry; and more bytes never turn complete into incomplete.
\<close>

section \<open>Chunk sizes\<close>

fun hex_val :: "nat \<Rightarrow> bytes \<Rightarrow> nat" where
  "hex_val acc [] = acc"
| "hex_val acc (c # cs) = (case hex_digit c of Some v \<Rightarrow> hex_val (acc * 16 + v) cs | None \<Rightarrow> hex_val acc cs)"

lemma hex_digit_less: "hex_digit c = Some v \<Longrightarrow> v < 16"
  by (auto simp: hex_digit_def Let_def split: if_splits)

lemma chunk_limit: "(push_bit 40 1 :: u64) = of_nat (2 ^ 40)"
  by simp

lemma word_limit_less: "n < 2 ^ 64 \<Longrightarrow> ((of_nat n :: u64) > push_bit 40 1) \<longleftrightarrow> n > 2 ^ 40"
  unfolding chunk_limit word_less_nat_alt by (subst (1 2) unat_of_nat_u64) auto

lemma size_loop_step:
  assumes "a \<le> 2 ^ 40" "hex_digit c = Some v"
  shows "size_loop (c # cs) (of_nat a) d =
    (if a * 16 + v > 2 ^ 40 then None else size_loop cs (of_nat (a * 16 + v)) True)"
proof -
  have "a * 16 + v < 2 ^ 64" using assms(1) hex_digit_less [OF assms(2)] by simp
  moreover have "(of_nat a :: u64) * 16 + of_nat v = of_nat (a * 16 + v)" by simp
  ultimately show ?thesis using assms(2) by (simp only: size_loop.simps option.case Let_def word_limit_less)
qed

text \<open>The chunk size the loop returns is the number its hexadecimal digits denote, at
  most 2^40: the 64-bit accumulator never wraps around, however long the line.\<close>

theorem size_loop_value:
  assumes "size_loop line (of_nat a) d = Some (n, d')" "a \<le> 2 ^ 40"
  shows "unat n = hex_val a line \<and> hex_val a line \<le> 2 ^ 40"
  using assms
proof (induction line arbitrary: a d)
  case Nil
  then show ?case by auto
next
  case (Cons c cs)
  show ?case
  proof (cases "hex_digit c")
    case None
    with Cons show ?thesis by (auto split: if_splits)
  next
    case (Some v)
    note step = size_loop_step [OF Cons.prems(2) Some, of cs d]
    with Cons.prems(1) have "\<not> a * 16 + v > 2 ^ 40" by (metis option.distinct(1))
    with Cons.IH [of "a * 16 + v" True] step Cons.prems(1) Some show ?thesis by simp
  qed
qed

theorem size_loop_value_witness: "unat (16 :: u64) = hex_val 0 ''10''"
proof -
  have "size_loop ''10'' (of_nat 0) False = Some (16, True)" by code_simp
  from size_loop_value [OF this] show ?thesis by simp
qed

definition hexdig :: "nat \<Rightarrow> char" where
  "hexdig d = (if d < 10 then char_of (48 + d) else char_of (87 + d))"

fun hex_str :: "nat \<Rightarrow> bytes" where
  "hex_str n = (if n < 16 then [hexdig n] else hex_str (n div 16) @ [hexdig (n mod 16)])"

declare hex_str.simps [simp del]

lemma hex_digit_hexdig: "d < 16 \<Longrightarrow> hex_digit (hexdig d) = Some d"
  by (auto simp: hex_digit_def hexdig_def Let_def)

lemma hex_val_append: "hex_val a (xs @ ys) = hex_val (hex_val a xs) ys"
  by (induction xs arbitrary: a) (auto split: option.split)

lemma hex_str_facts: "hex_val 0 (hex_str n) = n \<and> hex_str n \<noteq> [] \<and> (\<forall>c \<in> set (hex_str n). hex_digit c \<noteq> None)"
proof (induction n rule: hex_str.induct)
  case (1 n)
  show ?case
  proof (cases "n < 16")
    case True
    then show ?thesis by (subst (1 2 3) hex_str.simps) (simp add: hex_digit_hexdig)
  next
    case False
    with "1.IH" show ?thesis
      by (subst (1 2 3) hex_str.simps) (simp add: hex_val_append hex_digit_hexdig ball_Un)
  qed
qed

lemma hex_digit_bytes: "hex_digit (CHR '';'') = None" "hex_digit CR = None" "hex_digit LF = None"
  by code_simp+

lemma hex_val_ge: "a \<le> hex_val a cs"
proof (induction cs arbitrary: a)
  case (Cons c cs)
  show ?case
  proof (cases "hex_digit c")
    case (Some v)
    with Cons.IH [of "a * 16 + v"] show ?thesis by simp
  qed (use Cons.IH in simp)
qed simp

lemma size_loop_digits:
  assumes "\<forall>c \<in> set cs. hex_digit c \<noteq> None" "hex_val a cs \<le> 2 ^ 40"
  shows "size_loop cs (of_nat a) d = Some (of_nat (hex_val a cs), d \<or> cs \<noteq> [])"
  using assms
proof (induction cs arbitrary: a d)
  case (Cons c cs)
  then obtain v where v: "hex_digit c = Some v" by auto
  have "a \<le> 2 ^ 40" using hex_val_ge [of a "c # cs"] Cons.prems(2) by linarith
  note step = size_loop_step [OF this v, of cs d]
  have "\<not> a * 16 + v > 2 ^ 40" using hex_val_ge [of "a * 16 + v" cs] Cons.prems(2) v by simp
  with step Cons.IH [of "a * 16 + v" True] Cons.prems v show ?case by simp
qed simp

lemma size_loop_hex_str: "n \<le> 2 ^ 40 \<Longrightarrow> size_loop (hex_str n) 0 False = Some (of_nat n, True)"
  using size_loop_digits [of "hex_str n" 0 False] hex_str_facts [of n] by simp

section \<open>Reading at an offset\<close>

lemma find_at_shift: "find_at pat s (n + i) = map_option (\<lambda>j. n + j) (find_at pat s i)"
  by (induction pat s i rule: find_at.induct) auto

lemma str_find_shift: "str_find (u @ s) pat (length u + p) = map_option (\<lambda>j. length u + j) (str_find s pat p)"
  by (simp add: str_find_def find_at_shift)

lemma substr_shift: "substr (u @ s) (length u + p) n = substr s p n"
  by (simp add: substr_def)

lemma size_line_shift: "size_line (u @ s) (length u + p) (length u + e) = size_line s p e"
  by (auto simp: size_line_def str_find_shift substr_shift Let_def split: option.split)

lemma trailers_complete_shift: "trailers_complete (u @ s) (length u + p) = trailers_complete s p"
proof (induction s p rule: trailers_complete.induct)
  case (1 s p)
  show ?case
  proof (cases "str_find s crlf p")
    case None
    then show ?thesis
      by (simp add: trailers_complete.simps [of "u @ s"] trailers_complete.simps [of s] str_find_shift)
  next
    case (Some e)
    with "1.IH" [of e] show ?thesis
      by (simp add: trailers_complete.simps [of "u @ s" "length u + p"] trailers_complete.simps [of s p]
          str_find_shift add.assoc)
  qed
qed

lemma chunked_shift: "chunked_body_complete (u @ s) (length u + p) = chunked_body_complete s p"
proof (induction s p rule: chunked_body_complete.induct)
  case (1 s p)
  show ?case
  proof (cases "str_find s crlf p")
    case None
    then show ?thesis
      by (simp add: chunked_body_complete.simps [of "u @ s"] chunked_body_complete.simps [of s] str_find_shift)
  next
    case (Some e)
    show ?thesis
    proof (cases "size_loop (size_line s p e) 0 False")
      case None
      with Some show ?thesis
        by (simp add: chunked_body_complete.simps [of "u @ s" "length u + p"]
            chunked_body_complete.simps [of s p] str_find_shift size_line_shift)
    next
      case (Some nd)
      obtain n d where nd: "nd = (n, d)" by (cases nd)
      have tr: "trailers_complete (u @ s) (length u + e + 2) = trailers_complete s (e + 2)"
        using trailers_complete_shift [of u s "e + 2"] by (simp add: add.assoc)
      have "d \<Longrightarrow> n \<noteq> 0 \<Longrightarrow> \<not> length s < e + 2 + unat n + 2 \<Longrightarrow>
          chunked_body_complete (u @ s) (length u + (e + 2 + unat n + 2)) = chunked_body_complete s (e + 2 + unat n + 2)"
        using "1.IH" [OF \<open>str_find s crlf p = Some e\<close> Some nd [symmetric]] by simp
      then show ?thesis
        using \<open>str_find s crlf p = Some e\<close> Some nd tr
        by (simp add: chunked_body_complete.simps [of "u @ s" "length u + p"]
            chunked_body_complete.simps [of s p] str_find_shift size_line_shift Let_def add.assoc)
    qed
  qed
qed

section \<open>More bytes\<close>

lemma trailers_complete_append: "trailers_complete s p \<Longrightarrow> trailers_complete (s @ t) p"
proof (induction s p rule: trailers_complete.induct)
  case (1 s p)
  then obtain e where e: "str_find s crlf p = Some e"
    by (cases "str_find s crlf p") (auto simp: trailers_complete.simps [of s])
  have "str_find (s @ t) crlf p = Some e" by (rule str_find_append [OF e]) simp
  with e "1.IH" [OF e] "1.prems" show ?case
    by (auto simp: trailers_complete.simps [of s p] trailers_complete.simps [of "s @ t" p])
qed

lemma size_line_append:
  assumes "str_find s crlf p = Some e"
  shows "size_line (s @ t) p e = size_line s p e"
proof -
  have e: "e + 2 \<le> length s" using str_find_SomeD(2) [OF assms] by simp
  then have sub: "substr (s @ t) p (k - p) = substr s p (k - p)" if "k \<le> e" for k
    using that by (simp add: substr_def)
  show ?thesis
  proof (cases "str_find s '';'' p")
    case (Some k)
    then have "str_find (s @ t) '';'' p = Some k" by (rule str_find_append) simp
    with Some show ?thesis by (simp add: size_line_def sub Let_def)
  next
    case None
    have "k > e" if "str_find (s @ t) '';'' p = Some k" for k
    proof (rule ccontr)
      assume "\<not> k > e"
      with e have k: "k < length s" by simp
      from str_find_SomeD(1,3) [OF that] k have "p \<le> k" "prefix '';'' (drop k s)"
        by (auto simp: Cons_nth_drop_Suc [symmetric])
      with str_find_NoneD [OF None] k show False by simp
    qed
    then show ?thesis using None by (auto simp: size_line_def sub Let_def split: option.split)
  qed
qed

lemma chunked_append: "chunked_body_complete s p \<Longrightarrow> chunked_body_complete (s @ t) p"
proof (induction s p rule: chunked_body_complete.induct)
  case (1 s p)
  then obtain e where e: "str_find s crlf p = Some e"
    by (cases "str_find s crlf p") (auto simp: chunked_body_complete.simps [of s])
  with "1.prems" obtain n d where nd: "size_loop (size_line s p e) 0 False = Some (n, d)"
    by (cases "size_loop (size_line s p e) 0 False") (auto simp: chunked_body_complete.simps [of s])
  have e': "str_find (s @ t) crlf p = Some e" by (rule str_find_append [OF e]) simp
  from "1.prems" e nd have d: "d" by (simp add: chunked_body_complete.simps [of s p] split: if_splits)
  show ?case
  proof (cases "n = 0")
    case True
    with "1.prems" e e' nd d size_line_append [OF e] trailers_complete_append show ?thesis
      by (simp add: chunked_body_complete.simps [of s p] chunked_body_complete.simps [of "s @ t" p])
  next
    case False
    with "1.prems" e nd d have le: "\<not> length s < e + 2 + unat n + 2"
      and c: "chunked_body_complete s (e + 2 + unat n + 2)"
      by (auto simp: chunked_body_complete.simps [of s p] Let_def split: if_splits)
    from "1.IH" [OF e nd refl _ False refl le c] d have "chunked_body_complete (s @ t) (e + 2 + unat n + 2)"
      by simp
    with False e' nd d le size_line_append [OF e] show ?thesis
      by (simp add: chunked_body_complete.simps [of "s @ t" p] Let_def)
  qed
qed

text \<open>Reading upstream can stop as soon as \<open>response_complete\<close> says so: once a buffer
  is complete for a parsed response, no bytes that arrive later make it incomplete again.\<close>

theorem response_complete_stable:
  assumes "response_complete raw resp"
  shows "response_complete (raw @ extra) resp"
  using assms chunked_append by (auto simp: response_complete_def split: if_splits)

theorem response_complete_stable_witness:
  "response_complete ((''HTTP/1.1 200 OK'' @ crlf @ ''Content-Length: 3'' @ crlf @ crlf @ ''abc'') @ ''HTTP'')
     (parse_response_headers (''HTTP/1.1 200 OK'' @ crlf @ ''Content-Length: 3'' @ crlf @ crlf @ ''abc''))"
proof -
  have "response_complete (''HTTP/1.1 200 OK'' @ crlf @ ''Content-Length: 3'' @ crlf @ crlf @ ''abc'')
     (parse_response_headers (''HTTP/1.1 200 OK'' @ crlf @ ''Content-Length: 3'' @ crlf @ crlf @ ''abc''))"
    by code_simp
  then show ?thesis by (rule response_complete_stable)
qed

section \<open>Coded messages\<close>

text \<open>A chunk is its data and an optional extension; a message is a list of chunks, the
  extension of the last chunk, and trailer lines.\<close>

definition ext_ok :: "bytes \<Rightarrow> bool" where
  "ext_ok x \<longleftrightarrow> (x = [] \<or> hd x = CHR '';'') \<and> CR \<notin> set x"

definition size_text :: "nat \<Rightarrow> bytes \<Rightarrow> bytes" where
  "size_text n x = hex_str n @ x"

definition chunk_text :: "bytes \<times> bytes \<Rightarrow> bytes" where
  "chunk_text dx = size_text (length (fst dx)) (snd dx) @ crlf @ fst dx @ crlf"

definition chunked_text :: "(bytes \<times> bytes) list \<Rightarrow> bytes \<Rightarrow> bytes list \<Rightarrow> bytes" where
  "chunked_text cs x ts = concat (map chunk_text cs) @ size_text 0 x @ crlf @ crlf_lines ts @ crlf"

definition chunk_ok :: "bytes \<times> bytes \<Rightarrow> bool" where
  "chunk_ok dx \<longleftrightarrow> fst dx \<noteq> [] \<and> length (fst dx) \<le> 2 ^ 40 \<and> ext_ok (snd dx)"

definition trailer_ok :: "bytes \<Rightarrow> bool" where
  "trailer_ok t \<longleftrightarrow> t \<noteq> [] \<and> CR \<notin> set t"

lemma hex_str_no_CR: "CR \<notin> set (hex_str n)" and hex_str_no_semi: "CHR '';'' \<notin> set (hex_str n)"
  using hex_str_facts [of n] hex_digit_bytes by metis+

lemma size_text_no_CR: "ext_ok x \<Longrightarrow> CR \<notin> set (size_text n x)"
  using hex_str_no_CR by (simp add: size_text_def ext_ok_def)

text \<open>The first CRLF after a CR-free text, and none before it is all there.\<close>

lemma find_crlf_after: "CR \<notin> set u \<Longrightarrow> str_find (u @ crlf @ r) crlf 0 = Some (length u)"
proof (rule str_find_SomeI)
  fix k assume u: "CR \<notin> set u" and k: "k < length u"
  then have "drop k (u @ crlf @ r) = u ! k # drop (Suc k) u @ crlf @ r"
    by (simp add: Cons_nth_drop_Suc [symmetric])
  with nth_mem [OF k] u show "\<not> prefix crlf (drop k (u @ crlf @ r))" by auto
qed auto

lemma find_crlf_incomplete:
  assumes "CR \<notin> set u" "prefix p (u @ [CR])"
  shows "str_find p crlf 0 = None"
proof (rule str_find_NoneI)
  fix k
  show "\<not> prefix crlf (drop k p)"
  proof
    assume "prefix crlf (drop k p)"
    then obtain w where w: "drop k p = CR # LF # w" by (auto simp: prefix_def)
    define v where "v = take k p"
    have "p = v @ CR # LF # w" unfolding v_def by (metis append_take_drop_id w)
    with assms(2) obtain z where z: "(v @ [CR]) @ LF # w @ z = u @ [CR]"
      by (auto simp: prefix_def)
    have "CR \<in> set u"
    proof (cases "w @ z" rule: rev_cases)
      case Nil
      with z have "last (u @ [CR]) = LF" by (metis append_Nil2 last_snoc)
      then show ?thesis by simp
    next
      case (snoc ys y)
      with z have "((v @ [CR]) @ LF # ys) @ [y] = u @ [CR]" by simp
      then have "u = (v @ [CR]) @ LF # ys" by (metis butlast_snoc)
      then show ?thesis by simp
    qed
    with assms(1) show False by simp
  qed
qed simp

lemma prefix_text_cases:
  assumes "prefix p (u @ crlf @ r)"
  obtains (short) "prefix p (u @ [CR])" "length p < length u + 2"
  | (long) q where "p = u @ crlf @ q" "prefix q r"
proof -
  have "prefix p ((u @ [CR]) @ [LF] @ r)" using assms by simp
  then consider "prefix p (u @ [CR])" | us where "p = (u @ [CR]) @ us" "prefix us ([LF] @ r)"
    unfolding prefix_append by blast
  then show thesis
  proof cases
    case 1
    with prefix_length_le [OF 1] short show thesis by simp
  next
    case (2 us)
    show thesis
    proof (cases us)
      case Nil
      with 2 short show thesis by simp
    next
      case (Cons c cs)
      with 2 long [of cs] show thesis by simp
    qed
  qed
qed

lemma trailers_exact:
  assumes "\<forall>t \<in> set ts. trailer_ok t" "prefix p (crlf_lines ts @ crlf @ extra)"
  shows "trailers_complete p 0 \<longleftrightarrow> length (crlf_lines ts @ crlf) \<le> length p"
  using assms
proof (induction ts arbitrary: p)
  case Nil
  then have "prefix p ([] @ crlf @ extra)" by simp
  then show ?case
  proof (cases rule: prefix_text_cases)
    case short
    with find_crlf_incomplete [of "[]" p] show ?thesis by (simp add: trailers_complete.simps [of p])
  next
    case (long q)
    with find_crlf_after [of "[]" q] show ?thesis
      by (simp add: trailers_complete.simps [of "CR # LF # q"])
  qed
next
  case (Cons t ts)
  then have t: "t \<noteq> []" "CR \<notin> set t" and "prefix p (t @ crlf @ crlf_lines ts @ crlf @ extra)"
    by (auto simp: trailer_ok_def)
  from this(3) show ?case
  proof (cases rule: prefix_text_cases)
    case short
    with find_crlf_incomplete [OF t(2), of p] show ?thesis by (simp add: trailers_complete.simps [of p])
  next
    case (long q)
    have "trailers_complete p 0 = trailers_complete p (length t + 2)"
      unfolding long(1) using find_crlf_after [OF t(2), of q] t(1)
      by (simp add: trailers_complete.simps [of "t @ CR # LF # q" 0])
    also have "\<dots> = trailers_complete q 0"
      using trailers_complete_shift [of "t @ crlf" q 0] long(1) by simp
    also have "\<dots> \<longleftrightarrow> length (crlf_lines ts @ crlf) \<le> length q"
      using Cons long(2) by simp
    finally show ?thesis using long(1) by simp
  qed
qed

lemma size_line_text:
  assumes "ext_ok x"
  shows "size_line (size_text n x @ crlf @ q) 0 (length (size_text n x)) = hex_str n"
proof (cases x)
  case Nil
  have "k \<ge> length (hex_str n)" if "str_find (hex_str n @ crlf @ q) '';'' 0 = Some k" for k
  proof (rule ccontr)
    assume "\<not> k \<ge> length (hex_str n)"
    with str_find_SomeD(3) [OF that] have "hex_str n ! k = CHR '';''"
      by (simp add: Cons_nth_drop_Suc [symmetric])
    with \<open>\<not> k \<ge> length (hex_str n)\<close> hex_str_no_semi [of n] show False by (metis not_le nth_mem)
  qed
  then show ?thesis using Nil
    by (force simp: size_line_def size_text_def substr_def Let_def split: option.split)
next
  case (Cons c y)
  with assms have "size_text n x @ crlf @ q = hex_str n @ CHR '';'' # y @ crlf @ q"
    by (simp add: size_text_def ext_ok_def)
  with str_find_char_split [OF hex_str_no_semi, of n "y @ crlf @ q"] Cons show ?thesis
    by (simp add: size_line_def substr_def size_text_def Let_def)
qed

text \<open>One chunk: the walk on what is received so far is the walk on what follows it.\<close>

lemma chunk_step:
  assumes "chunk_ok (d, x)" "prefix p (chunk_text (d, x) @ r)"
  shows "chunked_body_complete p 0 \<longleftrightarrow> length (chunk_text (d, x)) \<le> length p \<and>
    chunked_body_complete (drop (length (chunk_text (d, x))) p) 0"
proof -
  let ?u = "size_text (length d) x"
  have ok: "d \<noteq> []" "length d \<le> 2 ^ 40" "ext_ok x" using assms(1) by (auto simp: chunk_ok_def)
  have n: "unat (of_nat (length d) :: u64) = length d" using ok(2) by simp
  have "prefix p (?u @ crlf @ d @ crlf @ r)" using assms(2) by (simp add: chunk_text_def)
  then show ?thesis
  proof (cases rule: prefix_text_cases)
    case short
    with find_crlf_incomplete [OF size_text_no_CR [OF ok(3)], of p "length d"] show ?thesis
      by (simp add: chunked_body_complete.simps [of p] chunk_text_def)
  next
    case (long q)
    have f: "str_find p crlf 0 = Some (length ?u)"
      using find_crlf_after [OF size_text_no_CR [OF ok(3)], of "length d" q] long(1) by simp
    have sz: "size_loop (size_line p 0 (length ?u)) 0 False = Some (of_nat (length d), True)"
      using size_line_text [OF ok(3), of "length d" q] long(1) size_loop_hex_str [OF ok(2)] by simp
    have nz: "(of_nat (length d) :: u64) \<noteq> 0"
      using n ok(1) by (metis length_0_conv unat_0)
    have step: "chunked_body_complete p 0 \<longleftrightarrow> \<not> length p < length (chunk_text (d, x)) \<and>
        chunked_body_complete p (length (chunk_text (d, x)))"
      using nz by (simp add: chunked_body_complete.simps [of p 0] f sz n chunk_text_def Let_def)
    show ?thesis
    proof (cases "length p < length (chunk_text (d, x))")
      case True
      with step show ?thesis by simp
    next
      case False
      let ?k = "length (chunk_text (d, x))"
      have "p = take ?k p @ drop ?k p" "length (take ?k p) = ?k" using False by auto
      with chunked_shift [of "take ?k p" "drop ?k p" 0]
      have "chunked_body_complete p ?k = chunked_body_complete (drop ?k p) 0" by simp
      with step False show ?thesis by simp
    qed
  qed
qed

lemma chunked_exact:
  assumes "\<forall>c \<in> set cs. chunk_ok c" "ext_ok x" "\<forall>t \<in> set ts. trailer_ok t"
    and "prefix p (chunked_text cs x ts @ extra)"
  shows "chunked_body_complete p 0 \<longleftrightarrow> length (chunked_text cs x ts) \<le> length p"
  using assms(1,4)
proof (induction cs arbitrary: p)
  case Nil
  let ?u = "size_text 0 x"
  have "prefix p (?u @ crlf @ crlf_lines ts @ crlf @ extra)"
    using Nil.prems by (simp add: chunked_text_def)
  then show ?case
  proof (cases rule: prefix_text_cases)
    case short
    with find_crlf_incomplete [OF size_text_no_CR [OF assms(2)], of p 0] show ?thesis
      by (simp add: chunked_body_complete.simps [of p] chunked_text_def)
  next
    case (long q)
    have f: "str_find p crlf 0 = Some (length ?u)"
      using find_crlf_after [OF size_text_no_CR [OF assms(2)], of 0 q] long(1) by simp
    have sz: "size_loop (size_line p 0 (length ?u)) 0 False = Some (0, True)"
      using size_line_text [OF assms(2), of 0 q] long(1) size_loop_hex_str [of 0] by simp
    have "chunked_body_complete p 0 = trailers_complete p (length ?u + 2)"
      by (simp add: chunked_body_complete.simps [of p 0] f sz)
    also have "\<dots> = trailers_complete q 0"
      using trailers_complete_shift [of "?u @ crlf" q 0] long(1) by simp
    also have "\<dots> \<longleftrightarrow> length (crlf_lines ts @ crlf) \<le> length q"
      by (rule trailers_exact [OF assms(3) long(2)])
    finally show ?thesis using long(1) by (simp add: chunked_text_def)
  qed
next
  case (Cons c cs)
  obtain d y where c: "c = (d, y)" by (cases c)
  have pre: "prefix p (chunk_text (d, y) @ chunked_text cs x ts @ extra)"
    using Cons.prems(2) by (simp add: chunked_text_def c)
  let ?k = "length (chunk_text (d, y))"
  have "prefix (drop ?k p) (chunked_text cs x ts @ extra)"
    by (rule prefix_drop_length [OF pre])
  with Cons.IH [of "drop ?k p"] Cons.prems(1)
  have "chunked_body_complete (drop ?k p) 0 \<longleftrightarrow> length (chunked_text cs x ts) \<le> length (drop ?k p)" by simp
  with chunk_step [OF _ pre] Cons.prems(1) c show ?case by (auto simp: chunked_text_def)
qed

text \<open>C16: On every part of a chunked message received so far (any data in the chunks, the
  terminator bytes included, any extensions and trailers, followed by any further bytes), the
  walk answers complete exactly when the whole message has arrived: it neither truncates a
  body nor waits for bytes that will not come.\<close>

theorem chunked_body_complete_exact:
  assumes "\<forall>c \<in> set cs. chunk_ok c" "ext_ok x" "\<forall>t \<in> set ts. trailer_ok t"
    and "prefix received (chunked_text cs x ts @ extra)"
  shows "chunked_body_complete (head @ received) (length head) \<longleftrightarrow>
    length (chunked_text cs x ts) \<le> length received"
  using chunked_exact [OF assms] chunked_shift [of head received 0] by simp

theorem chunked_body_complete_exact_witness:
  "\<not> chunked_body_complete (''HEAD'' @ ''7'' @ crlf @ (crlf @ ''0'' @ crlf @ crlf) @ crlf) 4"
proof -
  let ?cs = "[(crlf @ ''0'' @ crlf @ crlf, [])]"
  let ?rcv = "''7'' @ crlf @ (crlf @ ''0'' @ crlf @ crlf) @ crlf"
  have "\<forall>c \<in> set ?cs. chunk_ok c" "ext_ok []" "\<forall>t \<in> set []. trailer_ok t"
    by (simp_all add: chunk_ok_def ext_ok_def)
  moreover have "prefix ?rcv (chunked_text ?cs [] [] @ [])" "\<not> length (chunked_text ?cs [] []) \<le> length ?rcv"
    by code_simp+
  ultimately show ?thesis using chunked_body_complete_exact [of ?cs "[]" "[]" ?rcv "[]" "''HEAD''"]
    by (simp add: eval_nat_numeral)
qed

end
