(* ===== verification/Http_Replies.thy ===== *)
theory Http_Replies
  imports Http_Chunked
begin

text \<open>
  The response parser against a printer of response heads: what status, headers and framing
  it reads, when a length-delimited response is complete, and which parsed exchanges
  \<open>is_cacheable\<close> admits, in terms of the fields that were sent.
\<close>

section \<open>Printing a response head\<close>

definition response_lines :: "bytes \<Rightarrow> nat \<Rightarrow> bytes \<Rightarrow> (bytes \<times> bytes) list \<Rightarrow> bytes list" where
  "response_lines v st reason hs = (v @ '' '' @ nat_str st @ '' '' @ reason) # map header_line hs"

definition print_response :: "bytes \<Rightarrow> nat \<Rightarrow> bytes \<Rightarrow> (bytes \<times> bytes) list \<Rightarrow> bytes" where
  "print_response v st reason hs = crlf_lines (response_lines v st reason hs) @ crlf"

definition response_printable :: "bytes \<Rightarrow> nat \<Rightarrow> bytes \<Rightarrow> (bytes \<times> bytes) list \<Rightarrow> bool" where
  "response_printable v st reason hs \<longleftrightarrow> word_ok v \<and> 100 \<le> st \<and> st \<le> 599 \<and>
     CR \<notin> set reason \<and> LF \<notin> set reason \<and> (\<forall>nv \<in> set hs. field_ok nv)"

text \<open>Of a repeated field the response parser keeps the last.\<close>

definition last_value :: "(bytes \<times> bytes) list \<Rightarrow> bytes \<Rightarrow> bytes option" where
  "last_value hs n = (case field_values hs n of [] \<Rightarrow> None | vs \<Rightarrow> Some (last vs))"

lemma foldl_set_header:
  "foldl (\<lambda>h nv. set_header h (to_lower (fst nv)) (snd nv)) h hs n =
     (case field_values hs n of [] \<Rightarrow> h n | vs \<Rightarrow> Some (last vs))"
  by (induction hs arbitrary: h) (auto simp: field_values_def set_header_def split: list.split)

lemma status_code_print:
  assumes "word_ok v" "st \<le> 599"
  shows "status_code (v @ '' '' @ nat_str st @ '' '' @ reason) = Some (int st)"
proof -
  let ?l = "v @ '' '' @ nat_str st @ '' '' @ reason"
  have s1: "str_find ?l '' '' 0 = Some (length v)"
    using str_find_char_split [of "CHR '' ''" v "nat_str st @ '' '' @ reason"] assms(1) by (simp add: word_ok_def)
  have "str_find (nat_str st @ CHR '' '' # reason) '' '' 0 = Some (length (nat_str st))"
    by (rule str_find_char_split) (simp add: nat_str_free)
  then have s2: "str_find ?l '' '' (length v + 1) = Some (length v + 1 + length (nat_str st))"
    using str_find_shift [of "v @ '' ''" "nat_str st @ CHR '' '' # reason" "'' ''" 0] by simp
  have "atoi (nat_str st) = int st" using assms(2) by (intro atoi_nat_str) (simp add: INT_MAX_def)
  with s1 s2 show ?thesis by (simp add: status_code_def substr_def)
qed

lemma response_lines_plain: "response_printable v st reason hs \<Longrightarrow> \<forall>l \<in> set (response_lines v st reason hs). plain_line l"
  using field_plain_line nat_str_free [of CR st] nat_str_free [of LF st]
  by (auto simp: response_printable_def response_lines_def word_ok_def plain_line_def)

lemma find_header_end_response:
  "response_printable v st reason hs \<Longrightarrow>
   find_header_end (print_response v st reason hs @ body) = Some (length (print_response v st reason hs))"
  using find_header_end_block [OF _ response_lines_plain, of v st reason hs body]
  by (simp add: print_response_def response_lines_def)

lemma getlines_response:
  assumes "response_printable v st reason hs"
  shows "getlines (print_response v st reason hs) =
    ((v @ '' '' @ nat_str st @ '' '' @ reason) @ [CR]) # map (\<lambda>nv. header_line nv @ [CR]) hs @ [[CR]]"
proof -
  have "\<forall>l \<in> set (response_lines v st reason hs). LF \<notin> set l"
    using response_lines_plain [OF assms] by (auto simp: plain_line_def)
  from getlines_crlf_lines [OF this, of crlf] show ?thesis
    by (simp add: print_response_def response_lines_def)
qed

definition says_chunked :: "(bytes \<times> bytes) list \<Rightarrow> bool" where
  "says_chunked hs = (case last_value hs ''transfer-encoding'' of None \<Rightarrow> False
     | Some te \<Rightarrow> str_contains (to_lower te) ''chunked'')"

lemma response_head_facts:
  assumes "response_printable v st reason hs"
  shows "resp_valid (parse_response_headers (print_response v st reason hs @ body)) \<and>
    resp_status (parse_response_headers (print_response v st reason hs @ body)) = int st \<and>
    resp_header_bytes (parse_response_headers (print_response v st reason hs @ body)) =
      length (print_response v st reason hs) \<and>
    resp_header (parse_response_headers (print_response v st reason hs @ body)) n = last_value hs n \<and>
    resp_chunked (parse_response_headers (print_response v st reason hs @ body)) = says_chunked hs \<and>
    resp_content_length (parse_response_headers (print_response v st reason hs @ body)) =
      (if says_chunked hs then -1 else response_length (last_value hs ''content-length'')) \<and>
    resp_close_delimited (parse_response_headers (print_response v st reason hs @ body)) =
      (\<not> says_chunked hs \<and> response_length (last_value hs ''content-length'') < 0)"
proof -
  have ok: "word_ok v" "100 \<le> st" "st \<le> 599" "\<forall>nv \<in> set hs. field_ok nv"
    using assms by (auto simp: response_printable_def)
  have loop: "header_loop set_header (map (\<lambda>nv. header_line nv @ [CR]) hs @ [[CR]]) Map.empty = last_value hs"
    using header_loop_fields [OF ok(4), of set_header "[]" Map.empty]
    by (intro ext) (simp add: foldl_set_header last_value_def)
  have st: "status_code (v @ CHR '' '' # nat_str st @ CHR '' '' # reason) = Some (int st)"
    using status_code_print [OF ok(1,3), of reason] by simp
  have chomp: "chomp (v @ CHR '' '' # nat_str st @ CHR '' '' # reason @ [CR]) = v @ CHR '' '' # nat_str st @ CHR '' '' # reason"
    using chomp_CR [of "v @ CHR '' '' # nat_str st @ CHR '' '' # reason"] by simp
  show ?thesis
    using ok(2,3)
    by (simp add: parse_response_headers_def find_header_end_response [OF assms] substr_def
        getlines_response [OF assms] chomp st loop resp_header_def new_response_def says_chunked_def Let_def)
qed

text \<open>C37: Parsing inverts printing for response heads: whatever body bytes follow, the
  parser recovers the status and the exact end of the head, maps each lower-cased name to the
  last value sent for it, and picks exactly one framing: chunked if the transfer coding says
  so (the Content-Length is then ignored), else the Content-Length if it is a number, else
  delimited by the close of the connection.\<close>

theorem parse_print_response:
  assumes "response_printable v st reason hs"
  shows "resp_valid (parse_response_headers (print_response v st reason hs @ body)) \<and>
    resp_status (parse_response_headers (print_response v st reason hs @ body)) = int st \<and>
    resp_header_bytes (parse_response_headers (print_response v st reason hs @ body)) =
      length (print_response v st reason hs) \<and>
    resp_header (parse_response_headers (print_response v st reason hs @ body)) n = last_value hs n \<and>
    resp_chunked (parse_response_headers (print_response v st reason hs @ body)) = says_chunked hs \<and>
    resp_content_length (parse_response_headers (print_response v st reason hs @ body)) =
      (if says_chunked hs then -1 else response_length (last_value hs ''content-length'')) \<and>
    resp_close_delimited (parse_response_headers (print_response v st reason hs @ body)) =
      (\<not> says_chunked hs \<and> response_length (last_value hs ''content-length'') < 0)"
  by (rule response_head_facts [OF assms])

theorem parse_print_response_witness:
  "resp_content_length (parse_response_headers (print_response ''HTTP/1.1'' 200 ''OK''
     [(''Content-Length'', ''9''), (''content-length'', ''3'')] @ ''abc'')) = 3"
proof -
  let ?hs = "[(''Content-Length'', ''9''), (''content-length'', ''3'')]"
  have "response_printable ''HTTP/1.1'' 200 ''OK'' ?hs" by code_simp
  note P = parse_print_response [OF this, of "''abc''"]
  have "\<not> says_chunked ?hs" "response_length (last_value ?hs ''content-length'') = 3" by code_simp+
  with P show ?thesis by simp
qed

section \<open>Length-delimited responses\<close>

lemma length_framing:
  assumes "response_printable v st reason hs" "\<not> says_chunked hs"
    and "last_value hs ''content-length'' = Some (nat_str n)" "int n \<le> LONG_MAX"
    and "length (print_response v st reason hs) < 2 ^ 63"
  shows "response_complete (print_response v st reason hs @ body)
      (parse_response_headers (print_response v st reason hs @ first_part)) \<longleftrightarrow> n \<le> length body"
proof -
  have len: "response_length (last_value hs ''content-length'') = int n"
    using assms(3,4) strtol_nat_str [of n "[]"] by (simp add: response_length_def)
  have "length (print_response v st reason hs) + n < 2 ^ 64" using assms(4,5) by (simp add: LONG_MAX_def)
  note sum = unat_sum_u64 [OF this]
  show ?thesis
    using response_head_facts [OF assms(1), of first_part] assms(2) len sum
    by (simp add: response_complete_def)
qed

text \<open>A response sent with a numeric Content-Length \<open>n\<close> and no chunked coding is
  complete as soon as \<open>n\<close> body bytes have arrived and not before; the 64-bit sum the
  code compares with does not wrap.\<close>

theorem length_framing_exact:
  assumes "response_printable v st reason hs" "\<not> says_chunked hs"
    and "last_value hs ''content-length'' = Some (nat_str n)" "int n \<le> LONG_MAX"
    and "length (print_response v st reason hs) < 2 ^ 63"
  shows "response_complete (print_response v st reason hs @ body)
      (parse_response_headers (print_response v st reason hs @ first_part)) \<longleftrightarrow> n \<le> length body"
  by (rule length_framing [OF assms])

theorem length_framing_exact_witness:
  "\<not> response_complete (print_response ''HTTP/1.1'' 200 ''OK'' [(''Content-Length'', nat_str 3)] @ ''ab'')
     (parse_response_headers (print_response ''HTTP/1.1'' 200 ''OK'' [(''Content-Length'', nat_str 3)] @ ''a''))"
proof -
  let ?hs = "[(''Content-Length'', nat_str 3)]"
  have "response_printable ''HTTP/1.1'' 200 ''OK'' ?hs" "\<not> says_chunked ?hs"
    "last_value ?hs ''content-length'' = Some (nat_str 3)" by code_simp+
  moreover have "int 3 \<le> LONG_MAX" by (simp add: LONG_MAX_def)
  moreover have "length (print_response ''HTTP/1.1'' 200 ''OK'' ?hs) = 38" by code_simp
  ultimately show ?thesis using length_framing_exact [of "''HTTP/1.1''" 200 "''OK''" ?hs 3 "''ab''" "''a''"] by simp
qed

section \<open>What may be cached\<close>

definition forbids_caching :: "bytes \<Rightarrow> bool" where
  "forbids_caching cc = (str_contains (to_lower cc) ''no-store'' \<or> str_contains (to_lower cc) ''no-cache'' \<or>
     str_contains (to_lower cc) ''private'')"

lemma is_cacheable_conj:
  "is_cacheable req resp \<longleftrightarrow> (req_method req = ''GET'' \<or> req_method req = ''HEAD'') \<and> resp_status resp = 200 \<and>
     req_header req ''authorization'' = None \<and> resp_header resp ''set-cookie'' = None \<and>
     (case resp_header resp ''cache-control'' of None \<Rightarrow> True | Some cc \<Rightarrow> \<not> forbids_caching cc)"
  by (cases "resp_header resp ''cache-control''") (auto simp: is_cacheable_def forbids_caching_def Let_def)

lemma cacheable_print:
  assumes "printable m t v hs" "response_printable w st reason rs"
  shows "is_cacheable (parse_request (print_request m t v hs @ body))
      (parse_response_headers (print_response w st reason rs @ rbody)) \<longleftrightarrow>
    (m = ''GET'' \<or> m = ''HEAD'') \<and> st = 200 \<and> field_values hs ''authorization'' = [] \<and>
    field_values rs ''set-cookie'' = [] \<and>
    (case last_value rs ''cache-control'' of None \<Rightarrow> True | Some cc \<Rightarrow> \<not> forbids_caching cc)"
proof -
  have j: "join_values vs = None \<longleftrightarrow> vs = []" for vs by (cases vs) auto
  have l: "last_value rs n = None \<longleftrightarrow> field_values rs n = []" for n
    by (simp add: last_value_def split: list.split)
  let ?q = "parse_request (print_request m t v hs @ body)"
  let ?r = "parse_response_headers (print_response w st reason rs @ rbody)"
  have q: "req_method ?q = m" "req_header ?q n = join_values (field_values hs n)" for n
    using print_request_facts [OF assms(1), of body] by simp_all
  have r: "resp_status ?r = int st" "resp_header ?r n = last_value rs n" for n
    using response_head_facts [OF assms(2), of rbody] by simp_all
  show ?thesis unfolding is_cacheable_conj q r j l by simp
qed

text \<open>For every printed exchange, \<open>is_cacheable\<close> says yes exactly when the method is
  GET or HEAD, the status is 200, no Authorization field was sent with the request in any
  spelling of its name, no Set-Cookie field came with the response, and the last
  Cache-Control value contains none of no-store, no-cache and private in any case.\<close>

theorem is_cacheable_iff:
  assumes "printable m t v hs" "response_printable w st reason rs"
  shows "is_cacheable (parse_request (print_request m t v hs @ body))
      (parse_response_headers (print_response w st reason rs @ rbody)) \<longleftrightarrow>
    (m = ''GET'' \<or> m = ''HEAD'') \<and> st = 200 \<and> field_values hs ''authorization'' = [] \<and>
    field_values rs ''set-cookie'' = [] \<and>
    (case last_value rs ''cache-control'' of None \<Rightarrow> True | Some cc \<Rightarrow> \<not> forbids_caching cc)"
  by (rule cacheable_print [OF assms])

theorem is_cacheable_iff_witness:
  "\<not> is_cacheable (parse_request (print_request ''GET'' ''/'' ''HTTP/1.1'' [(''Host'', ''a'')] @ []))
     (parse_response_headers (print_response ''HTTP/1.1'' 200 ''OK'' [(''SET-Cookie'', ''s=1'')] @ []))"
proof -
  have "printable ''GET'' ''/'' ''HTTP/1.1'' [(''Host'', ''a'')]"
    "response_printable ''HTTP/1.1'' 200 ''OK'' [(''SET-Cookie'', ''s=1'')]"
    "field_values [(''SET-Cookie'', ''s=1'')] ''set-cookie'' = [''s=1'']" by code_simp+
  with is_cacheable_iff [OF this(1,2), of "[]" "[]"] show ?thesis by simp
qed

text \<open>A finding. Because the response parser keeps only the last of repeated fields
  (the request parser folds them), a \<open>Cache-Control\<close> of any content, \<open>no-store\<close>
  and \<open>private\<close> included, is disregarded when another Cache-Control field follows it: the
  response is cached and replayed to other clients.\<close>

theorem repeated_cache_control_ignored:
  assumes "printable ''GET'' t v hs" "field_values hs ''authorization'' = []"
    and "field_ok (''Cache-Control'', cc)"
  shows "is_cacheable (parse_request (print_request ''GET'' t v hs))
    (parse_response_headers (print_response ''HTTP/1.1'' 200 ''OK''
       [(''Cache-Control'', cc), (''Cache-Control'', ''max-age=60'')] @ body))"
proof -
  let ?rs = "[(''Cache-Control'', cc), (''Cache-Control'', ''max-age=60'')]"
  have "word_ok ''HTTP/1.1''" "field_ok (''Cache-Control'', ''max-age=60'')" by code_simp+
  with assms(3) have rp: "response_printable ''HTTP/1.1'' 200 ''OK'' ?rs"
    by (simp add: response_printable_def)
  have names: "to_lower ''Cache-Control'' = ''cache-control''" "\<not> forbids_caching ''max-age=60''" by code_simp+
  then have "field_values ?rs ''set-cookie'' = []" "last_value ?rs ''cache-control'' = Some ''max-age=60''"
    by (simp_all add: field_values_def last_value_def)
  with cacheable_print [OF assms(1) rp, of "[]" body] assms(2) names(2) show ?thesis by simp
qed

theorem repeated_cache_control_ignored_witness:
  "is_cacheable (parse_request (print_request ''GET'' ''/'' ''HTTP/1.1'' [(''Host'', ''a'')]))
    (parse_response_headers (print_response ''HTTP/1.1'' 200 ''OK''
       [(''Cache-Control'', ''no-store''), (''Cache-Control'', ''max-age=60'')] @ ''secret''))"
  by (rule repeated_cache_control_ignored) code_simp+

end
