(* ===== verification/Access_Control.thy ===== *)
theory Access_Control
  imports Http_Request
begin

text \<open>
  Routing and access control of \<open>src/http.hpp\<close>: \<open>wildcard_match\<close>,
  \<open>split_authority\<close>, \<open>RouteTable\<close> and \<open>AccessControl::check\<close>. Both the
  route table and the rule list are searched first match first; the locale
  \<open>first_match\<close> states what that promises, and is interpreted on the two loops.
\<close>

section \<open>First match wins\<close>

locale first_match =
  fixes matches :: "'r \<Rightarrow> 'q \<Rightarrow> bool"
    and result :: "'r \<Rightarrow> 'a"
    and select :: "'r list \<Rightarrow> 'q \<Rightarrow> 'a option"
  assumes select_Nil: "select [] q = None"
    and select_Cons: "select (r # rs) q = (if matches r q then Some (result r) else select rs q)"
begin

lemma select_append: "select (rs @ ss) q = (case select rs q of None \<Rightarrow> select ss q | Some a \<Rightarrow> Some a)"
  by (induction rs) (simp_all add: select_Nil select_Cons)

lemma select_None_iff: "select rs q = None \<longleftrightarrow> (\<forall>r \<in> set rs. \<not> matches r q)"
  by (induction rs) (simp_all add: select_Nil select_Cons)

lemma select_Some_iff:
  "select rs q = Some a \<longleftrightarrow>
     (\<exists>pre r post. rs = pre @ r # post \<and> matches r q \<and> result r = a \<and> (\<forall>p \<in> set pre. \<not> matches p q))"
proof
  assume "select rs q = Some a"
  then show "\<exists>pre r post. rs = pre @ r # post \<and> matches r q \<and> result r = a \<and> (\<forall>p \<in> set pre. \<not> matches p q)"
  proof (induction rs)
    case Nil
    then show ?case by (simp add: select_Nil)
  next
    case (Cons r rs)
    show ?case
    proof (cases "matches r q")
      case True
      with Cons.prems show ?thesis by (intro exI [of _ "[]"]) (simp add: select_Cons)
    next
      case False
      with Cons obtain pre s post where "rs = pre @ s # post" "matches s q" "result s = a"
        "\<forall>p \<in> set pre. \<not> matches p q" by (auto simp: select_Cons)
      with False show ?thesis by (intro exI [of _ "r # pre"]) auto
    qed
  qed
next
  assume "\<exists>pre r post. rs = pre @ r # post \<and> matches r q \<and> result r = a \<and> (\<forall>p \<in> set pre. \<not> matches p q)"
  then obtain pre r post where rs: "rs = pre @ r # post" and r: "matches r q" "result r = a"
    and pre: "\<forall>p \<in> set pre. \<not> matches p q" by blast
  from pre have "select pre q = None" by (simp add: select_None_iff)
  with rs r show "select rs q = Some a" by (simp add: select_append select_Cons)
qed

lemma select_range: "select rs q = Some a \<Longrightarrow> \<exists>r \<in> set rs. result r = a"
  by (auto simp: select_Some_iff)

lemma select_cong:
  assumes "\<And>r. r \<in> set rs \<Longrightarrow> matches r q = matches r q'"
  shows "select rs q = select rs q'"
  using assms by (induction rs) (simp_all add: select_Nil select_Cons)

end

section \<open>Wildcards\<close>

definition wildcard_match :: "bytes \<Rightarrow> bytes \<Rightarrow> bool" where
  "wildcard_match pattern val =
     (if pattern = ''*'' then True
      else if length pattern > 2 \<and> take 2 pattern = ''*.'' then
        (let suff = drop 1 pattern in
         if length val < length suff then False
         else drop (length val - length suff) val = suff)
      else if pattern \<noteq> [] \<and> last pattern = CHR ''*'' then
        (let pre = substr pattern 0 (length pattern - 1) in
         if length val < length pre then False else take (length pre) val = pre)
      else pattern = val)"

text \<open>The three shapes of a pattern: a domain suffix, a prefix, a literal. A lone star is
  the empty prefix, so it needs no case of its own.\<close>

lemma wildcard_suffix: "s \<noteq> [] \<Longrightarrow> wildcard_match (''*.'' @ s) val \<longleftrightarrow> suffix (CHR ''.'' # s) val"
proof -
  assume "s \<noteq> []"
  then have "wildcard_match (''*.'' @ s) val \<longleftrightarrow>
      length val \<ge> length (CHR ''.'' # s) \<and> drop (length val - length (CHR ''.'' # s)) val = CHR ''.'' # s"
    by (auto simp: wildcard_match_def)
  also have "\<dots> \<longleftrightarrow> suffix (CHR ''.'' # s) val" (is "?l \<longleftrightarrow> _")
  proof
    assume ?l
    then show "suffix (CHR ''.'' # s) val" using suffix_drop by metis
  qed (auto simp: suffix_def)
  finally show ?thesis .
qed

lemma wildcard_prefix: "\<not> prefix ''*.'' pre \<Longrightarrow> wildcard_match (pre @ ''*'') val \<longleftrightarrow> prefix pre val"
proof (cases "pre = []")
  case True
  then show ?thesis by (simp add: wildcard_match_def)
next
  case False
  assume np: "\<not> prefix ''*.'' pre"
  from False have "pre @ ''*'' \<noteq> ''*''" by simp
  moreover have "take 2 (pre @ ''*'') \<noteq> ''*.''"
  proof
    assume a: "take 2 (pre @ ''*'') = ''*.''"
    then have "length pre \<ge> 2 \<or> length pre = 1" using False by (cases pre; cases "tl pre") auto
    then show False
    proof
      assume "length pre \<ge> 2"
      with a np show False by (metis append_take_drop_id prefixI diff_is_0_eq take0 take_append append_Nil2)
    next
      assume "length pre = 1"
      with a show False by (cases pre) (auto simp: numeral_2_eq_2)
    qed
  qed
  moreover have "(length val < length pre \<longrightarrow> \<not> prefix pre val) \<and> (prefix pre val \<longleftrightarrow> take (length pre) val = pre)"
    by (auto simp: prefix_def dest: sym) (metis append_take_drop_id)
  ultimately show ?thesis by (auto simp: wildcard_match_def substr_def)
qed

lemma wildcard_literal: "CHR ''*'' \<notin> set p \<Longrightarrow> wildcard_match p val \<longleftrightarrow> p = val"
proof -
  assume a: "CHR ''*'' \<notin> set p"
  then have "p \<noteq> ''*''" "take 2 p \<noteq> ''*.''" "\<not> (p \<noteq> [] \<and> last p = CHR ''*'')"
    by (auto dest: in_set_takeD last_in_set) (metis in_set_takeD list.set_intros(1))
  then show ?thesis unfolding wildcard_match_def by (simp only: if_False simp_thms)
qed

section \<open>Upstreams and routes\<close>

record upstream =
  up_host :: bytes
  up_port :: int

definition split_authority :: "bytes \<Rightarrow> upstream" where
  "split_authority authority =
     (let u = \<lparr>up_host = authority, up_port = 80\<rparr> in
      case str_rfind authority (CHR '':'') of
        None \<Rightarrow> u
      | Some colon \<Rightarrow>
          if colon + 1 < length authority \<and> list_all isdigit_c (drop (colon + 1) authority) then
            (let u = u\<lparr>up_host := substr authority 0 colon\<rparr>;
                 p = atoi (drop (colon + 1) authority) in
             if p > 0 \<and> p < 65536 then u\<lparr>up_port := p\<rparr> else u)
          else u)"

type_synonym route_table = "(bytes \<times> upstream) list"

definition route_add :: "route_table \<Rightarrow> bytes \<Rightarrow> upstream \<Rightarrow> route_table" where
  "route_add routes host_pattern up = routes @ [(to_lower host_pattern, up)]"

fun find_route :: "route_table \<Rightarrow> bytes \<Rightarrow> upstream option" where
  "find_route [] h = None"
| "find_route (r # rs) h = (if wildcard_match (fst r) h then Some (snd r) else find_route rs h)"

definition resolve :: "route_table \<Rightarrow> bytes \<Rightarrow> upstream" where
  "resolve routes host_header =
     (case find_route routes (to_lower host_header) of
        Some up \<Rightarrow> up
      | None \<Rightarrow> split_authority host_header)"

interpretation routes: first_match "\<lambda>r h. wildcard_match (fst r) h" snd find_route
  by unfold_locales simp_all

lemma split_authority_port_range: "1 \<le> up_port (split_authority a) \<and> up_port (split_authority a) \<le> 65535"
  by (simp add: split_authority_def Let_def split: option.split)

lemma split_authority_colon:
  assumes "CHR '':'' \<notin> set ds" "ds \<noteq> []" "\<forall>c \<in> set ds. isdigit_c c"
  shows "split_authority (h @ CHR '':'' # ds) =
    (if 0 < atoi ds \<and> atoi ds < 65536 then \<lparr>up_host = h, up_port = atoi ds\<rparr> else \<lparr>up_host = h, up_port = 80\<rparr>)"
  using assms by (simp add: split_authority_def str_rfind_split Let_def substr_def list_all_iff)

lemma split_authority_plain: "CHR '':'' \<notin> set h \<Longrightarrow> split_authority h = \<lparr>up_host = h, up_port = 80\<rparr>"
proof -
  assume "CHR '':'' \<notin> set h"
  then have "str_rfind h (CHR '':'') = None" by (auto simp: str_rfind_def last_idx_None)
  then show ?thesis by (simp add: split_authority_def)
qed

section \<open>Decisions\<close>

datatype decision = Allow | Deny

text \<open>Decisions are ordered by what they let through: \<^const>\<open>Deny\<close> is below
  \<^const>\<open>Allow\<close>.\<close>

instantiation decision :: linorder
begin

definition less_eq_decision :: "decision \<Rightarrow> decision \<Rightarrow> bool" where
  "less_eq_decision a b = (a = Deny \<or> b = Allow)"

definition less_decision :: "decision \<Rightarrow> decision \<Rightarrow> bool" where
  "less_decision a b = (a = Deny \<and> b = Allow)"

instance
  by standard (auto simp: less_eq_decision_def less_decision_def intro: decision.exhaust)

end

lemma decision_bounds [simp]: "Deny \<le> d" "d \<le> Allow"
  by (simp_all add: less_eq_decision_def)

section \<open>Rules and the policy check\<close>

record acl_rule =
  rule_decision :: decision
  rule_field :: bytes
  rule_pattern :: bytes
  rule_source :: bytes

record acl_result =
  acl_decision :: decision
  acl_matched_rule :: bytes

record access_control =
  ac_rules :: "acl_rule list"
  ac_default :: decision
  ac_routes :: route_table

definition new_access_control :: access_control where
  "new_access_control = \<lparr>ac_rules = [], ac_default = Allow, ac_routes = []\<rparr>"

definition set_default_policy :: "decision \<Rightarrow> access_control \<Rightarrow> access_control" where
  "set_default_policy d ac = ac\<lparr>ac_default := d\<rparr>"

definition add_rule :: "access_control \<Rightarrow> decision \<Rightarrow> bytes \<Rightarrow> bytes \<Rightarrow> bytes \<Rightarrow> access_control" where
  "add_rule ac d field pattern source =
     ac\<lparr>ac_rules := ac_rules ac @ [\<lparr>rule_decision = d, rule_field = to_lower field, rule_pattern = pattern,
          rule_source = (if source = [] then field @ '' '' @ pattern else source)\<rparr>]\<rparr>"

definition add_route :: "access_control \<Rightarrow> bytes \<Rightarrow> bytes \<Rightarrow> int \<Rightarrow> access_control" where
  "add_route ac host_pattern host port =
     ac\<lparr>ac_routes := route_add (ac_routes ac) host_pattern \<lparr>up_host = host, up_port = port\<rparr>\<rparr>"

definition rule_matches :: "acl_rule \<Rightarrow> request \<Rightarrow> bool" where
  "rule_matches r req =
     (if rule_field r = ''host'' then wildcard_match (to_lower (rule_pattern r)) (to_lower (req_host req))
      else if rule_field r = ''path'' then wildcard_match (rule_pattern r) (req_path req)
      else if rule_field r = ''method''
      then wildcard_match (to_lower (rule_pattern r)) (to_lower (req_method req))
      else False)"

fun first_rule :: "acl_rule list \<Rightarrow> request \<Rightarrow> acl_result option" where
  "first_rule [] req = None"
| "first_rule (r # rs) req =
     (if rule_matches r req then Some \<lparr>acl_decision = rule_decision r, acl_matched_rule = rule_source r\<rparr>
      else first_rule rs req)"

definition check :: "access_control \<Rightarrow> request \<Rightarrow> acl_result" where
  "check ac req = (case first_rule (ac_rules ac) req of
     Some res \<Rightarrow> res
   | None \<Rightarrow> \<lparr>acl_decision = ac_default ac, acl_matched_rule = ''default''\<rparr>)"

interpretation acl: first_match rule_matches
    "\<lambda>r. \<lparr>acl_decision = rule_decision r, acl_matched_rule = rule_source r\<rparr>" first_rule
  by unfold_locales simp_all

text \<open>A closed form of rule matching: what the subject of the rule is, and how a pattern
  covers it.\<close>

definition rule_subject :: "acl_rule \<Rightarrow> request \<Rightarrow> bytes option" where
  "rule_subject r req = map_of [(''host'', to_lower (req_host req)), (''path'', req_path req),
     (''method'', to_lower (req_method req))] (rule_field r)"

definition covers :: "bytes \<Rightarrow> bytes \<Rightarrow> bool" where
  "covers p v \<longleftrightarrow> (if prefix ''*.'' p \<and> p \<noteq> ''*.'' then suffix (tl p) v
     else if suffix ''*'' p then prefix (butlast p) v else p = v)"

lemma wildcard_match_covers: "wildcard_match p v = covers p v"
proof (cases "prefix ''*.'' p \<and> p \<noteq> ''*.''")
  case True
  then obtain s where "p = ''*.'' @ s" "s \<noteq> []" by (auto simp: prefix_def)
  with wildcard_suffix [of s v] show ?thesis by (simp add: covers_def)
next
  case False
  show ?thesis
  proof (cases "suffix ''*'' p")
    case True
    then obtain pre where p: "p = pre @ ''*''" by (auto simp: suffix_def)
    with False have "\<not> prefix ''*.'' pre" by (auto simp: prefix_append)
    with wildcard_prefix [of pre v] p False True show ?thesis by (auto simp: covers_def)
  next
    case nosuf: False
    then have star: "p \<noteq> ''*''" and last: "\<not> (p \<noteq> [] \<and> last p = CHR ''*'')"
      by (auto simp: suffix_def) (metis append_butlast_last_id)
    have "\<not> (length p > 2 \<and> take 2 p = ''*.'')"
      using False by (metis length_greater_0_conv less_numeral_extra(3) list.size(3) order_less_irrefl
          length_Cons take_all append_take_drop_id prefixI One_nat_def Suc_1)
    with star last nosuf False show ?thesis
      unfolding wildcard_match_def covers_def by (simp only: if_False simp_thms)
  qed
qed

lemma rule_matches_covers:
  "rule_matches r req = (case rule_subject r req of None \<Rightarrow> False
     | Some v \<Rightarrow> covers (if rule_field r = ''path'' then rule_pattern r else to_lower (rule_pattern r)) v)"
  by (simp add: rule_matches_def rule_subject_def wildcard_match_covers)

text \<open>C18: The policy check is first match wins: the answer is the decision and source of a
  rule of the list that covers the request's host, path or method (host and method without
  regard to case, wildcards as domain suffix or prefix) with no covering rule before it, and
  when no rule covers the request it is the default policy.\<close>

theorem check_first_match:
  "check ac req = res \<longleftrightarrow>
     (\<exists>pre r post. ac_rules ac = pre @ r # post \<and>
        (\<exists>v. rule_subject r req = Some v \<and>
          covers (if rule_field r = ''path'' then rule_pattern r else to_lower (rule_pattern r)) v) \<and>
        res = \<lparr>acl_decision = rule_decision r, acl_matched_rule = rule_source r\<rparr> \<and>
        (\<forall>p \<in> set pre. \<not> rule_matches p req)) \<or>
     ((\<forall>r \<in> set (ac_rules ac). \<not> rule_matches r req) \<and>
        res = \<lparr>acl_decision = ac_default ac, acl_matched_rule = ''default''\<rparr>)"
proof -
  have m: "(\<exists>v. rule_subject r req = Some v \<and>
      covers (if rule_field r = ''path'' then rule_pattern r else to_lower (rule_pattern r)) v) =
    rule_matches r req" for r
    by (simp add: rule_matches_covers split: option.split)
  show ?thesis
  proof (cases "first_rule (ac_rules ac) req")
    case None
    then have "\<forall>r \<in> set (ac_rules ac). \<not> rule_matches r req" by (simp add: acl.select_None_iff)
    with None show ?thesis unfolding m by (auto simp: check_def)
  next
    case (Some a)
    then have "\<exists>r \<in> set (ac_rules ac). rule_matches r req"
      by (auto simp: acl.select_Some_iff)
    moreover have "(\<exists>pre r post. ac_rules ac = pre @ r # post \<and> rule_matches r req \<and>
        res = \<lparr>acl_decision = rule_decision r, acl_matched_rule = rule_source r\<rparr> \<and>
        (\<forall>p \<in> set pre. \<not> rule_matches p req)) \<longleftrightarrow> Some a = Some res"
      unfolding Some [symmetric] acl.select_Some_iff by (simp only: eq_commute [of res])
    ultimately show ?thesis using Some unfolding m check_def by auto
  qed
qed

theorem check_first_match_witness:
  "check (add_rule (add_rule new_access_control Allow ''host'' ''safe.ads.com'' []) Deny ''host'' ''*.ads.com'' [])
     (new_request\<lparr>req_host := ''X.ads.COM''\<rparr>) =
   \<lparr>acl_decision = Deny, acl_matched_rule = ''host *.ads.com''\<rparr>"
proof -
  let ?ac = "add_rule (add_rule new_access_control Allow ''host'' ''safe.ads.com'' []) Deny ''host'' ''*.ads.com'' []"
  let ?req = "new_request\<lparr>req_host := ''X.ads.COM''\<rparr>"
  let ?a = "\<lparr>rule_decision = Allow, rule_field = ''host'', rule_pattern = ''safe.ads.com'', rule_source = ''host safe.ads.com''\<rparr>"
  let ?d = "\<lparr>rule_decision = Deny, rule_field = ''host'', rule_pattern = ''*.ads.com'', rule_source = ''host *.ads.com''\<rparr>"
  have rules: "ac_rules ?ac = [?a] @ ?d # []" by code_simp
  have d: "rule_subject ?d ?req = Some ''x.ads.com'' \<and>
      covers (if rule_field ?d = ''path'' then rule_pattern ?d else to_lower (rule_pattern ?d)) ''x.ads.com''"
    by code_simp
  have a: "\<forall>p \<in> set [?a]. \<not> rule_matches p ?req" by code_simp
  have r: "\<lparr>acl_decision = Deny, acl_matched_rule = ''host *.ads.com''\<rparr> =
      \<lparr>acl_decision = rule_decision ?d, acl_matched_rule = rule_source ?d\<rparr>" by simp
  show ?thesis
    by (rule check_first_match [THEN iffD2], rule disjI1, intro exI conjI,
        rule rules, rule d [THEN conjunct1], rule d [THEN conjunct2], rule r, rule a)
qed

text \<open>Rules act in one direction only: inserting a deny rule at any place of the list
  never lets more through (the decision can only fall), and inserting an allow rule never
  lets less through; the same holds for switching the default policy.\<close>

theorem check_monotone:
  "if rule_decision r = Deny
   then acl_decision (check (ac\<lparr>ac_rules := pre @ r # post\<rparr>) req) \<le>
        acl_decision (check (ac\<lparr>ac_rules := pre @ post\<rparr>) req) \<and>
        acl_decision (check (ac\<lparr>ac_default := Deny\<rparr>) req) \<le> acl_decision (check ac req)
   else acl_decision (check (ac\<lparr>ac_rules := pre @ post\<rparr>) req) \<le>
        acl_decision (check (ac\<lparr>ac_rules := pre @ r # post\<rparr>) req) \<and>
        acl_decision (check ac req) \<le> acl_decision (check (ac\<lparr>ac_default := Allow\<rparr>) req)"
proof (cases "rule_decision r")
  case Allow
  then show ?thesis by (simp add: check_def acl.select_append split: option.split)
next
  case Deny
  then show ?thesis by (simp add: check_def acl.select_append split: option.split)
qed

text \<open>The policy and the routing are blind to the letter case of the host and the method,
  so \<open>Host: BLOCKED.EXAMPLE.COM\<close> gets the answer of \<open>blocked.example.com\<close>; where a route
  exists for the host it is the same route.\<close>

theorem check_case_insensitive:
  assumes "to_lower (req_host r1) = to_lower (req_host r2)" "to_lower (req_method r1) = to_lower (req_method r2)"
    "req_path r1 = req_path r2"
  shows "check ac r1 = check ac r2 \<and>
    (find_route (ac_routes ac) (to_lower (req_host r1)) \<noteq> None \<longrightarrow>
      resolve (ac_routes ac) (req_host r1) = resolve (ac_routes ac) (req_host r2))"
proof -
  have "rule_matches r r1 = rule_matches r r2" for r using assms by (simp add: rule_matches_def)
  then have "first_rule (ac_rules ac) r1 = first_rule (ac_rules ac) r2" by (intro acl.select_cong)
  then show ?thesis using assms(1) by (auto simp: check_def resolve_def)
qed

theorem check_case_insensitive_witness:
  "acl_decision (check (add_rule new_access_control Deny ''host'' ''*.ads.net'' [])
     (parse_request (''GET / HTTP/1.1'' @ crlf @ ''Host: X.ADS.Net'' @ crlf @ crlf))) = Deny"
proof -
  let ?ac = "add_rule new_access_control Deny ''host'' ''*.ads.net'' []"
  let ?r1 = "parse_request (''GET / HTTP/1.1'' @ crlf @ ''Host: X.ADS.Net'' @ crlf @ crlf)"
  let ?r2 = "parse_request (''get / HTTP/1.1'' @ crlf @ ''Host: x.ads.net'' @ crlf @ crlf)"
  have "to_lower (req_host ?r1) = to_lower (req_host ?r2)" "to_lower (req_method ?r1) = to_lower (req_method ?r2)"
    "req_path ?r1 = req_path ?r2" by code_simp+
  from check_case_insensitive [OF this, of ?ac] have "check ?ac ?r1 = check ?ac ?r2" by blast
  moreover have "acl_decision (check ?ac ?r2) = Deny" by code_simp
  ultimately show ?thesis by metis
qed

section \<open>Splitting an authority\<close>

text \<open>\<open>split_authority\<close> inverts printing \<open>host:port\<close> for every port a TCP
  connection can have, whatever the host (also one with colons in it), and an out-of-range
  port is dropped for port 80; a host without a colon gets port 80, and no input whatever
  yields a port outside 1 to 65535.\<close>

theorem split_authority_inverts:
  assumes "int p \<le> INT_MAX"
  shows "split_authority (h @ '':'' @ nat_str p) =
      \<lparr>up_host = h, up_port = (if 1 \<le> p \<and> p \<le> 65535 then int p else 80)\<rparr> \<and>
    (CHR '':'' \<in> set h \<or> split_authority h = \<lparr>up_host = h, up_port = 80\<rparr>) \<and>
    1 \<le> up_port (split_authority a) \<and> up_port (split_authority a) \<le> 65535"
proof (intro conjI)
  show "split_authority (h @ '':'' @ nat_str p) =
      \<lparr>up_host = h, up_port = (if 1 \<le> p \<and> p \<le> 65535 then int p else 80)\<rparr>"
    by (simp add: split_authority_colon nat_str_free nat_str_digits atoi_nat_str [OF assms])
  show "CHR '':'' \<in> set h \<or> split_authority h = \<lparr>up_host = h, up_port = 80\<rparr>"
    using split_authority_plain [of h] by blast
  show "1 \<le> up_port (split_authority a)" "up_port (split_authority a) \<le> 65535"
    using split_authority_port_range [of a] by blast+
qed

theorem split_authority_inverts_witness:
  "split_authority ''h.com:443'' = \<lparr>up_host = ''h.com'', up_port = 443\<rparr>"
proof -
  have i: "int 443 \<le> INT_MAX" by (simp add: INT_MAX_def)
  have n: "''h.com'' @ '':'' @ nat_str 443 = ''h.com:443''" by code_simp
  from split_authority_inverts [OF i, of "''h.com''", THEN conjunct1, unfolded n]
  show ?thesis by simp
qed

section \<open>A port in the Host header and the host rules\<close>

text \<open>A host rule is matched against the whole \<open>Host\<close> value, port included, while
  the upstream is chosen after the port is cut off. So for a literal host pattern, a client
  that writes the default port itself (\<open>Host: h:80\<close>) is not covered by the deny rule for
  \<open>h\<close>, passes the policy, and is sent to the same upstream the rule was to protect.\<close>

theorem host_rule_bypassed_by_port:
  assumes "CHR ''*'' \<notin> set h" "CHR '':'' \<notin> set h" "to_lower h = h"
    "req_host denied = h" "req_host sneaky = h @ '':80''"
  shows "acl_decision (check (add_rule new_access_control Deny ''host'' h []) denied) = Deny \<and>
    acl_decision (check (add_rule new_access_control Deny ''host'' h []) sneaky) = Allow \<and>
    resolve [] (req_host sneaky) = resolve [] (req_host denied)"
proof -
  have "atoi (nat_str 80) = 80" using atoi_nat_str [of 80] by (simp add: INT_MAX_def)
  moreover have n: "nat_str 80 = ''80''" by code_simp
  ultimately have "split_authority (h @ '':80'') = \<lparr>up_host = h, up_port = 80\<rparr>"
    using split_authority_colon [of "''80''" h] nat_str_digits [of 80] by (simp add: list_all_iff)
  moreover have "to_lower ''host'' = ''host''" by code_simp
  moreover have "to_lower (h @ '':80'') = h @ '':80''" using assms(3) by (simp add: to_lower_def tolower_c_def)
  ultimately show ?thesis using assms wildcard_literal [OF assms(1)] split_authority_plain [OF assms(2)]
    by (simp add: add_rule_def new_access_control_def check_def rule_matches_def resolve_def)
qed

theorem host_rule_bypassed_by_port_witness:
  "acl_decision (check (add_rule new_access_control Deny ''host'' ''blocked.example.com'' [])
     (parse_request (''GET / HTTP/1.1'' @ crlf @ ''Host: blocked.example.com:80'' @ crlf @ crlf))) = Allow"
proof -
  let ?h = "''blocked.example.com''"
  have "CHR ''*'' \<notin> set ?h" "CHR '':'' \<notin> set ?h" "to_lower ?h = ?h"
    "req_host (parse_request (''GET / HTTP/1.1'' @ crlf @ ''Host: blocked.example.com'' @ crlf @ crlf)) = ?h"
    "req_host (parse_request (''GET / HTTP/1.1'' @ crlf @ ''Host: blocked.example.com:80'' @ crlf @ crlf)) = ?h @ '':80''"
    by code_simp+
  from host_rule_bypassed_by_port [OF this] show ?thesis by blast
qed

end
