(* ===== verification/Sockets.thy ===== *)
theory Sockets
  imports Prelude
begin

text \<open>
  The sockets the server works on, as the server sees them. What the kernel and the peer will
  do is a script of answers: bytes that arrive, in any segments, an end of stream, an error;
  how many bytes a \<open>send\<close> accepts; whether a \<open>poll\<close> reports the socket writable in
  time. Every theorem is about every script. Past its end a script answers like a peer that
  does nothing more: \<open>recv\<close> and \<open>send\<close> report \<open>EAGAIN\<close> (on a socket with a timeout
  that is the timeout) and \<open>poll\<close> times out. On these, \<open>send_all\<close> of
  \<open>src/server_phase5.cpp\<close>.
\<close>

section \<open>The kernel's answers\<close>

datatype errno = EAGAIN | EINTR | Errno int

datatype recv_answer = Recv bytes | Recv_fail errno
datatype send_answer = Sent nat | Send_fail errno
datatype poll_answer = Ready | Poll_timeout | Poll_fail errno

text \<open>\<open>Recv []\<close> is the end of the stream, and stays. \<open>sk_wire\<close> is what the peer has been
  sent; \<open>sk_errno\<close> the error of the last failed call.\<close>

record sock =
  sk_rx :: "recv_answer list"
  sk_tx :: "send_answer list"
  sk_poll :: "poll_answer list"
  sk_wire :: bytes
  sk_errno :: errno

text \<open>\<open>recv\<close> into a buffer of 16384 bytes; \<^const>\<open>Inl\<close> is the result -1.\<close>

definition recv_max :: nat where
  "recv_max = 16384"

definition sys_recv :: "sock \<Rightarrow> (errno + bytes) \<times> sock" where
  "sys_recv s = (case sk_rx s of
     [] \<Rightarrow> (Inl EAGAIN, s\<lparr>sk_errno := EAGAIN\<rparr>)
   | Recv_fail e # r \<Rightarrow> (Inl e, s\<lparr>sk_rx := r, sk_errno := e\<rparr>)
   | Recv bs # r \<Rightarrow>
       if bs = [] then (Inr [], s)
       else if length bs \<le> recv_max then (Inr bs, s\<lparr>sk_rx := r\<rparr>)
       else (Inr (take recv_max bs), s\<lparr>sk_rx := Recv (drop recv_max bs) # r\<rparr>))"

definition sys_send :: "bytes \<Rightarrow> sock \<Rightarrow> (errno + nat) \<times> sock" where
  "sys_send data s = (case sk_tx s of
     [] \<Rightarrow> (Inl EAGAIN, s\<lparr>sk_errno := EAGAIN\<rparr>)
   | Send_fail e # r \<Rightarrow> (Inl e, s\<lparr>sk_tx := r, sk_errno := e\<rparr>)
   | Sent n # r \<Rightarrow> let n = min n (length data) in (Inr n, s\<lparr>sk_tx := r, sk_wire := sk_wire s @ take n data\<rparr>))"

text \<open>\<open>poll(&p, 1, 5000) > 0\<close>.\<close>

definition sys_poll :: "sock \<Rightarrow> bool \<times> sock" where
  "sys_poll s = (case sk_poll s of
     [] \<Rightarrow> (False, s)
   | Ready # r \<Rightarrow> (True, s\<lparr>sk_poll := r\<rparr>)
   | Poll_timeout # r \<Rightarrow> (False, s\<lparr>sk_poll := r\<rparr>)
   | Poll_fail e # r \<Rightarrow> (False, s\<lparr>sk_poll := r, sk_errno := e\<rparr>))"

section \<open>send_all\<close>

definition tx_left :: "sock \<Rightarrow> nat" where
  "tx_left s = length (sk_tx s) + length (sk_poll s)"

lemma sys_send_left:
  "sys_send data s = (Inr n, s') \<Longrightarrow> tx_left s' < tx_left s"
  "sys_send data s = (Inl e, s') \<Longrightarrow> tx_left s' \<le> tx_left s"
  "sys_send data s = (Inl EINTR, s') \<Longrightarrow> tx_left s' < tx_left s"
  by (auto simp: sys_send_def tx_left_def Let_def split: list.splits send_answer.splits)

lemma sys_poll_left: "sys_poll s = (True, s') \<Longrightarrow> tx_left s' < tx_left s"
  by (auto simp: sys_poll_def tx_left_def split: list.splits poll_answer.splits)

text \<open>The loop of \<open>send_all\<close> with its two counters.\<close>

function send_loop :: "bytes \<Rightarrow> nat \<Rightarrow> nat \<Rightarrow> sock \<Rightarrow> bool \<times> sock" where
  "send_loop data sent spins s =
     (if sent < length data then
        (case sys_send (drop sent data) s of
           (Inr n, s') \<Rightarrow> if n > 0 then send_loop data (sent + n) 0 s' else (False, s')
         | (Inl e, s') \<Rightarrow>
             if e = EAGAIN then
               (if spins + 1 > 1000 then (False, s')
                else case sys_poll s' of
                  (True, s'') \<Rightarrow> send_loop data sent (spins + 1) s''
                | (False, s'') \<Rightarrow> (False, s''))
             else if e = EINTR then send_loop data sent spins s'
             else (False, s'))
      else (True, s))"
  by pat_completeness auto
termination
proof (relation "measure (\<lambda>(data, sent, spins, s). tx_left s)", goal_cases)
  case 2
  then show ?case by (auto dest!: sys_send_left(2) [OF sym] sys_poll_left [OF sym])
next
  case 3
  then show ?case by (auto dest!: sys_send_left(3) [OF sym])
next
  case 4
  then show ?case by (auto dest!: sys_send_left(1) [OF sym])
qed simp

declare send_loop.simps [simp del]

definition send_all :: "bytes \<Rightarrow> sock \<Rightarrow> bool \<times> sock" where
  "send_all data s = send_loop data 0 0 s"

lemma sys_send_effect:
  "sys_send data s = (r, s') \<Longrightarrow> sk_rx s' = sk_rx s \<and>
     (case r of Inl e \<Rightarrow> sk_wire s' = sk_wire s | Inr n \<Rightarrow> n \<le> length data \<and> sk_wire s' = sk_wire s @ take n data)"
  by (auto simp: sys_send_def Let_def split: list.splits send_answer.splits)

lemma sys_poll_effect: "sys_poll s = (r, s') \<Longrightarrow> sk_rx s' = sk_rx s \<and> sk_wire s' = sk_wire s"
  by (auto simp: sys_poll_def split: list.splits poll_answer.splits)

lemma send_loop_effect:
  assumes "send_loop data sent spins s = (ok, s')" "sent \<le> length data"
  shows "\<exists>m. sent \<le> m \<and> m \<le> length data \<and> sk_wire s' = sk_wire s @ take (m - sent) (drop sent data) \<and>
    ok = (m = length data) \<and> sk_rx s' = sk_rx s"
  using assms
proof (induction data sent spins s rule: send_loop.induct)
  case (1 data sent spins s)
  show ?case
  proof (cases "sent < length data")
    case False
    with 1 show ?thesis by (auto simp: send_loop.simps [of data sent] intro!: exI [of _ sent])
  next
    case less: True
    obtain r s1 where r: "sys_send (drop sent data) s = (r, s1)" by fastforce
    note E = sys_send_effect [OF r]
    show ?thesis
    proof (cases r)
      case (Inr n)
      show ?thesis
      proof (cases "n > 0")
        case True
        have "send_loop data (sent + n) 0 s1 = (ok, s')" "sent + n \<le> length data"
          using 1(4) less r Inr True E by (auto simp: send_loop.simps [of data sent])
        from "1.IH"(3) [OF less r [symmetric] Inr True this] obtain m where m: "sent + n \<le> m" "m \<le> length data"
          "sk_wire s' = sk_wire s1 @ take (m - (sent + n)) (drop (sent + n) data)" "ok = (m = length data)" "sk_rx s' = sk_rx s1"
          by blast
        have "m - sent = n + (m - (sent + n))" using m(1) by simp
        then have "take (m - sent) (drop sent data) = take n (drop sent data) @ take (m - (sent + n)) (drop (sent + n) data)"
          by (simp only: take_add drop_drop add.commute [of n sent])
        with m E Inr show ?thesis by (intro exI [of _ m]) simp
      next
        case False
        with 1(4) less r Inr E show ?thesis
          by (intro exI [of _ sent]) (auto simp: send_loop.simps [of data sent])
      qed
    next
      case (Inl e)
      have step: "(if e = EAGAIN then (if spins + 1 > 1000 then (False, s1)
          else case sys_poll s1 of (True, s2) \<Rightarrow> send_loop data sent (spins + 1) s2 | (False, s2) \<Rightarrow> (False, s2))
        else if e = EINTR then send_loop data sent spins s1 else (False, s1)) = (ok, s')"
        using 1(4) less r Inl by (subst (asm) send_loop.simps) simp
      obtain w s2 where p: "sys_poll s1 = (w, s2)" by fastforce
      note P = sys_poll_effect [OF p]
      consider (wait) "e = EAGAIN" "\<not> spins + 1 > 1000" "w"
        | (intr) "e \<noteq> EAGAIN" "e = EINTR" | (stop) "\<not> ok" "sk_wire s' = sk_wire s1" "sk_rx s' = sk_rx s1"
        using step p P by (cases w) (auto split: if_splits)
      then show ?thesis
      proof cases
        case wait
        have "send_loop data sent (spins + 1) s2 = (ok, s')"
          using step p wait by simp
        from "1.IH"(1) [OF less r [symmetric] Inl wait(1,2) p [symmetric] wait(3) [THEN eqTrueI] this "1.prems"(2)] P E Inl
        show ?thesis by simp
      next
        case intr
        have "send_loop data sent spins s1 = (ok, s')"
          using step intr by simp
        from "1.IH"(2) [OF less r [symmetric] Inl intr this "1.prems"(2)] E Inl show ?thesis by simp
      next
        case stop
        with less E Inl show ?thesis by (intro exI [of _ sent]) auto
      qed
    qed
  qed
qed

lemma send_all_effect:
  obtains m where "m \<le> length data" "sk_wire (snd (send_all data s)) = sk_wire s @ take m data"
    "fst (send_all data s) = (m = length data)" "sk_rx (snd (send_all data s)) = sk_rx s"
proof -
  obtain ok s' where "send_loop data 0 0 s = (ok, s')" by fastforce
  with send_loop_effect [OF this] that show thesis by (auto simp: send_all_def)
qed

lemma send_all_rx [simp]: "sk_rx (snd (send_all data s)) = sk_rx s"
  by (rule send_all_effect [of data s])

text \<open>C30: \<open>send_all\<close> never truncates silently. Whatever the kernel and the peer do (short
  sends, full buffers, interrupts, stalls, errors), what reaches the wire is an initial part of
  the data in order, and the function returns true exactly when that part is all of it.\<close>

theorem send_all_exact:
  "\<exists>m. m \<le> length data \<and> sk_wire (snd (send_all data s)) = sk_wire s @ take m data \<and>
     (fst (send_all data s) = (m = length data)) \<and> sk_rx (snd (send_all data s)) = sk_rx s"
  by (rule send_all_effect [of data s]) blast

section \<open>A peer that keeps reading gets everything\<close>

fun obliging :: "send_answer \<Rightarrow> bool" where
  "obliging (Sent n) = (n > 0)"
| "obliging (Send_fail e) = (e = EINTR \<or> e = EAGAIN)"

fun offered :: "send_answer list \<Rightarrow> nat" where
  "offered [] = 0"
| "offered (Sent n # r) = n + offered r"
| "offered (Send_fail e # r) = offered r"

definition stalls :: "send_answer list \<Rightarrow> nat" where
  "stalls tx = length (filter (\<lambda>a. a = Send_fail EAGAIN) tx)"

lemma send_loop_completes:
  "(\<forall>a \<in> set (sk_tx s). obliging a) \<Longrightarrow> length data \<le> sent + offered (sk_tx s) \<Longrightarrow>
     spins + stalls (sk_tx s) \<le> 1000 \<Longrightarrow> sk_poll s = replicate k Ready \<Longrightarrow> stalls (sk_tx s) \<le> k \<Longrightarrow>
     fst (send_loop data sent spins s)"
proof (induction data sent spins s arbitrary: k rule: send_loop.induct)
  case (1 data sent spins s)
  show ?case
  proof (cases "sent < length data")
    case False
    then show ?thesis by (simp add: send_loop.simps)
  next
    case less: True
    with 1(5) obtain a r where tx: "sk_tx s = a # r" by (cases "sk_tx s") auto
    consider n where "a = Sent n" "n > 0" | "a = Send_fail EINTR" | "a = Send_fail EAGAIN"
      using 1(4) tx by (cases a) auto
    then show ?thesis
    proof cases
      case (1 n)
      let ?n = "min n (length data - sent)"
      let ?s = "s\<lparr>sk_tx := r, sk_wire := sk_wire s @ take ?n (drop sent data)\<rparr>"
      have r: "sys_send (drop sent data) s = (Inr ?n, ?s)" using tx 1 by (simp add: sys_send_def Let_def)
      have n: "?n > 0" using 1 less by simp
      have "fst (send_loop data (sent + ?n) 0 ?s)"
        using "1.IH"(3) [OF less r [symmetric] refl n, of k] "1.prems" tx 1 by (auto simp: stalls_def)
      with less r n show ?thesis by (subst send_loop.simps) simp
    next
      case 2
      let ?s = "s\<lparr>sk_tx := r, sk_errno := EINTR\<rparr>"
      have r: "sys_send (drop sent data) s = (Inl EINTR, ?s)" using tx 2 by (simp add: sys_send_def)
      have "fst (send_loop data sent spins ?s)"
        using "1.IH"(2) [OF less r [symmetric] refl _ refl, of k] "1.prems" tx 2 by (simp add: stalls_def)
      with less r show ?thesis by (subst send_loop.simps) simp
    next
      case 3
      let ?s = "s\<lparr>sk_tx := r, sk_errno := EAGAIN\<rparr>"
      have r: "sys_send (drop sent data) s = (Inl EAGAIN, ?s)" using tx 3 by (simp add: sys_send_def)
      have st: "stalls (sk_tx s) = Suc (stalls r)" using tx 3 by (simp add: stalls_def)
      then obtain j where k: "k = Suc j" using "1.prems"(5) by (cases k) auto
      have p: "sys_poll ?s = (True, ?s\<lparr>sk_poll := replicate j Ready\<rparr>)" using "1.prems"(4) k by (simp add: sys_poll_def)
      have sp: "\<not> spins + 1 > 1000" using "1.prems"(3) st by simp
      have "fst (send_loop data sent (spins + 1) (?s\<lparr>sk_poll := replicate j Ready\<rparr>))"
        using "1.IH"(1) [OF less r [symmetric] refl refl sp p [symmetric] refl, of j] "1.prems" tx 3 st k by simp
      with less r p sp show ?thesis by (subst send_loop.simps) simp
    qed
  qed
qed

text \<open>A peer that keeps reading gets everything: if the kernel accepts at least one
  byte whenever it accepts, is only ever interrupted or full, the stalls number at most 1000 and
  each ends within the poll, and it takes enough bytes in all, then \<open>send_all\<close> returns
  true and the whole data is on the wire.\<close>

theorem send_all_completes:
  assumes "\<forall>a \<in> set (sk_tx s). obliging a" "length data \<le> offered (sk_tx s)"
    and "stalls (sk_tx s) \<le> 1000" "sk_poll s = replicate k Ready" "stalls (sk_tx s) \<le> k"
  shows "fst (send_all data s) \<and> sk_wire (snd (send_all data s)) = sk_wire s @ data"
proof -
  have "fst (send_all data s)" unfolding send_all_def using assms by (intro send_loop_completes [where k = k]) auto
  then show ?thesis by (rule_tac send_all_effect [of data s]) auto
qed

theorem send_all_completes_witness:
  "sk_wire (snd (send_all ''hello'' \<lparr>sk_rx = [], sk_tx = [Sent 2, Send_fail EAGAIN, Send_fail EINTR, Sent 9],
     sk_poll = [Ready], sk_wire = [], sk_errno = EINTR\<rparr>)) = ''hello''"
proof -
  let ?s = "\<lparr>sk_rx = [], sk_tx = [Sent 2, Send_fail EAGAIN, Send_fail EINTR, Sent 9],
     sk_poll = [Ready], sk_wire = [], sk_errno = EINTR\<rparr>"
  have "fst (send_all ''hello'' ?s) \<and> sk_wire (snd (send_all ''hello'' ?s)) = sk_wire ?s @ ''hello''"
    by (rule send_all_completes [where k = 1]) (simp_all add: stalls_def)
  then show ?thesis by simp
qed

end
