(* ===== verification/Options.thy ===== *)
theory Options
  imports Prelude
begin

text \<open>The command-line options of \<open>src/server_phase5.cpp\<close> and their defaults.\<close>

record options =
  opt_port :: int
  opt_cache_capacity :: u64
  opt_cache_shards :: u64
  opt_workers :: int
  opt_acl_path :: bytes
  opt_log_path :: bytes
  opt_log_stdout :: bool
  opt_log_immediate :: bool
  opt_quiet_stats :: bool
  opt_upstream_timeout_sec :: int
  opt_max_header_bytes :: nat
  opt_max_body_bytes :: nat

definition new_options :: options where
  "new_options = \<lparr>opt_port = 8080, opt_cache_capacity = 2000, opt_cache_shards = 16, opt_workers = 0,
     opt_acl_path = [], opt_log_path = [], opt_log_stdout = False, opt_log_immediate = False,
     opt_quiet_stats = False, opt_upstream_timeout_sec = 5, opt_max_header_bytes = 64 * 1024,
     opt_max_body_bytes = 8 * 1024 * 1024\<rparr>"

end
