(* ===== verification/Upstream_Fetch.thy ===== *)
theory Upstream_Fetch
  imports Http_Replies Access_Control Sockets Options
begin

text \<open>
  \<open>fetch_upstream\<close> of \<open>src/server_phase5.cpp\<close>. What the resolver, the kernel and the
  origin answer to one fetch is an \<open>upstream_env\<close>; the texts of \<open>strerror\<close> and
  \<open>gai_strerror\<close> are parameters. Besides the result the model returns the resources
  taken and given back, in order. The lemmas show that every path gives everything back, what
  a successful fetch returns, and that a framed message is read to its last byte and no
  further, however it was cut into segments.
\<close>

section \<open>The code\<close>

record upstream_result =
  ur_raw :: bytes
  ur_status :: int
  ur_ok :: bool
  ur_error :: bytes

definition new_upstream_result :: upstream_result where
  "new_upstream_result = \<lparr>ur_raw = [], ur_status = 0, ur_ok = False, ur_error = []\<rparr>"

text \<open>The return code of \<open>getaddrinfo\<close> (with an address list exactly when it is 0), the
  error of \<open>socket\<close> and \<open>connect\<close> if they fail, and the connected socket.\<close>

record upstream_env =
  ue_dns :: int
  ue_socket :: "errno option"
  ue_connect :: "errno option"
  ue_sock :: sock

record messages =
  msg_errno :: "errno \<Rightarrow> bytes"
  msg_gai :: "int \<Rightarrow> bytes"

datatype resource = Addr_alloc | Addr_free | Sock_open | Sock_close

datatype fetch_step = Fail bytes | Finish response bool | Continue response bool

text \<open>What the loop does with the buffer after bytes have arrived.\<close>

definition check_framing :: "options \<Rightarrow> bytes \<Rightarrow> response \<Rightarrow> bool \<Rightarrow> fetch_step" where
  "check_framing opt buf parsed have_headers =
     (if \<not> have_headers then Continue parsed have_headers
      else if length buf > opt_max_body_bytes opt then Fail ''upstream body too large''
      else if \<not> resp_close_delimited parsed \<and> response_complete buf parsed then Finish parsed have_headers
      else Continue parsed have_headers)"

definition on_bytes :: "options \<Rightarrow> bytes \<Rightarrow> response \<Rightarrow> bool \<Rightarrow> fetch_step" where
  "on_bytes opt buf parsed have_headers =
     (if have_headers then check_framing opt buf parsed have_headers
      else if find_header_end buf \<noteq> None then
        (let parsed = parse_response_headers buf in
         if \<not> resp_valid parsed then Fail ''malformed upstream response''
         else check_framing opt buf parsed True)
      else if length buf > opt_max_header_bytes opt then Fail ''upstream headers too large''
      else check_framing opt buf parsed False)"

fun answer_size :: "recv_answer \<Rightarrow> nat" where
  "answer_size (Recv bs) = length bs + 1"
| "answer_size (Recv_fail e) = 1"

definition rx_left :: "sock \<Rightarrow> nat" where
  "rx_left s = sum_list (map answer_size (sk_rx s))"

lemma sys_recv_left:
  "sys_recv s = (Inr bs, s') \<Longrightarrow> bs \<noteq> [] \<Longrightarrow> rx_left s' + length bs \<le> rx_left s"
  "sys_recv s = (Inl EINTR, s') \<Longrightarrow> rx_left s' < rx_left s"
  by (auto simp: sys_recv_def rx_left_def recv_max_def split: list.splits recv_answer.splits if_splits)

text \<open>The reading loop: \<^const>\<open>Inl\<close> is an error text, \<^const>\<open>Inr\<close> the variables after
  the \<open>break\<close>.\<close>

function fetch_loop :: "options \<Rightarrow> messages \<Rightarrow> bytes \<Rightarrow> response \<Rightarrow> bool \<Rightarrow> sock \<Rightarrow>
    (bytes + bytes \<times> response \<times> bool) \<times> sock" where
  "fetch_loop opt msg buf parsed have_headers s =
     (case sys_recv s of
        (Inr bs, s') \<Rightarrow>
          if bs = [] then (Inr (buf, parsed, have_headers), s')
          else (case on_bytes opt (buf @ bs) parsed have_headers of
            Fail e \<Rightarrow> (Inl e, s')
          | Finish p h \<Rightarrow> (Inr (buf @ bs, p, h), s')
          | Continue p h \<Rightarrow> fetch_loop opt msg (buf @ bs) p h s')
      | (Inl e, s') \<Rightarrow>
          if e = EINTR then fetch_loop opt msg buf parsed have_headers s'
          else if e = EAGAIN then (Inl ''upstream timeout'', s')
          else (Inl (''recv: '' @ msg_errno msg e), s'))"
  by pat_completeness auto
termination
proof (relation "measure (\<lambda>(opt, msg, buf, parsed, h, s). rx_left s)", goal_cases)
  case (2 opt msg buf parsed h s x s' e)
  then show ?case by (auto dest!: sys_recv_left(2) [OF sym])
next
  case (3 opt msg buf parsed h s x s' bs p q)
  then obtain "sys_recv s = (Inr bs, s')" "bs \<noteq> []" by auto
  from sys_recv_left(1) [OF this] this(2) show ?case by (cases bs) auto
qed simp

declare fetch_loop.simps [simp del]

definition fetch_result :: "bytes \<Rightarrow> response \<Rightarrow> bool \<Rightarrow> upstream_result" where
  "fetch_result buf parsed have_headers =
     (let res = new_upstream_result in
      if buf = [] then res\<lparr>ur_error := ''empty upstream response''\<rparr>
      else
        let parsed = (if have_headers then parsed else parse_response_headers buf) in
        if \<not> have_headers \<and> \<not> resp_valid parsed then res\<lparr>ur_error := ''malformed upstream response''\<rparr>
        else res\<lparr>ur_raw := buf, ur_status := resp_status parsed, ur_ok := True\<rparr>)"

definition fetch_upstream :: "options \<Rightarrow> messages \<Rightarrow> upstream_env \<Rightarrow> bytes \<Rightarrow>
    upstream_result \<times> resource list \<times> sock" where
  "fetch_upstream opt msg env request_bytes =
     (let res = new_upstream_result; s = ue_sock env in
      if ue_dns env \<noteq> 0 then (res\<lparr>ur_error := ''dns: '' @ msg_gai msg (ue_dns env)\<rparr>, [], s)
      else case ue_socket env of
        Some e \<Rightarrow> (res\<lparr>ur_error := ''socket: '' @ msg_errno msg e\<rparr>, [Addr_alloc, Addr_free], s)
      | None \<Rightarrow>
        (case ue_connect env of
           Some e \<Rightarrow> (res\<lparr>ur_error := ''connect: '' @ msg_errno msg e\<rparr>,
             [Addr_alloc, Sock_open, Addr_free, Sock_close], s)
         | None \<Rightarrow>
           (let (sent, s) = send_all request_bytes s in
            if \<not> sent then (res\<lparr>ur_error := ''send: '' @ msg_errno msg (sk_errno s)\<rparr>,
              [Addr_alloc, Sock_open, Addr_free, Sock_close], s)
            else
              (case fetch_loop opt msg [] new_response False s of
                 (Inl e, s) \<Rightarrow> (res\<lparr>ur_error := e\<rparr>, [Addr_alloc, Sock_open, Addr_free, Sock_close], s)
               | (Inr (buf, parsed, have_headers), s) \<Rightarrow>
                   (fetch_result buf parsed have_headers, [Addr_alloc, Sock_open, Addr_free, Sock_close], s)))))"

section \<open>Resources\<close>

text \<open>Every path through \<open>fetch_upstream\<close>, errors included, frees the address list
  it was given and closes the socket it opened, each exactly once and after it was taken; on
  failure of the resolver there is nothing to give back.\<close>

theorem fetch_releases_resources:
  "fst (snd (fetch_upstream opt msg env request_bytes)) \<in>
     {[], [Addr_alloc, Addr_free], [Addr_alloc, Sock_open, Addr_free, Sock_close]} \<and>
   count_list (fst (snd (fetch_upstream opt msg env request_bytes))) Addr_alloc =
     count_list (fst (snd (fetch_upstream opt msg env request_bytes))) Addr_free \<and>
   count_list (fst (snd (fetch_upstream opt msg env request_bytes))) Sock_open =
     count_list (fst (snd (fetch_upstream opt msg env request_bytes))) Sock_close \<and>
   (ue_dns env = 0) = (fst (snd (fetch_upstream opt msg env request_bytes)) \<noteq> [])"
proof -
  have "fst (snd (fetch_upstream opt msg env request_bytes)) =
      (if ue_dns env \<noteq> 0 then [] else if ue_socket env \<noteq> None then [Addr_alloc, Addr_free]
       else [Addr_alloc, Sock_open, Addr_free, Sock_close])"
    by (auto simp: fetch_upstream_def Let_def split: option.splits prod.splits sum.splits)
  then show ?thesis by simp
qed

section \<open>What a successful fetch returns\<close>

text \<open>The bytes a script still has to deliver, and whether it has come to the end of the
  stream.\<close>

fun answer_bytes :: "recv_answer \<Rightarrow> bytes" where
  "answer_bytes (Recv bs) = bs"
| "answer_bytes (Recv_fail e) = []"

definition rx_bytes :: "sock \<Rightarrow> bytes" where
  "rx_bytes s = concat (map answer_bytes (sk_rx s))"

definition at_eof :: "sock \<Rightarrow> bool" where
  "at_eof s \<longleftrightarrow> (case sk_rx s of Recv bs # _ \<Rightarrow> bs = [] | _ \<Rightarrow> False)"

lemma sys_recv_bytes:
  "sys_recv s = (Inr bs, s') \<Longrightarrow> rx_bytes s = bs @ rx_bytes s' \<and> (bs = [] \<longrightarrow> at_eof s')"
  "sys_recv s = (Inl e, s') \<Longrightarrow> rx_bytes s = rx_bytes s'"
  by (auto simp: sys_recv_def recv_max_def rx_bytes_def at_eof_def split: list.splits recv_answer.splits if_splits)

lemma find_header_end_more: "find_header_end buf \<noteq> None \<Longrightarrow> find_header_end (buf @ x) \<noteq> None"
proof -
  assume "find_header_end buf \<noteq> None"
  then consider j where "str_find buf (crlf @ crlf) 0 = Some j" | j where "str_find buf [LF, LF] 0 = Some j"
    by (auto simp: find_header_end_def split: option.splits)
  then show ?thesis by cases (auto dest: str_find_append [where t = x] simp: find_header_end_def split: option.split)
qed

lemma parse_response_valid:
  "resp_valid (parse_response_headers buf) \<Longrightarrow> find_header_end buf \<noteq> None \<and>
     100 \<le> resp_status (parse_response_headers buf) \<and> resp_status (parse_response_headers buf) \<le> 599"
  by (auto simp: parse_response_headers_def new_response_def Let_def split: option.splits list.splits if_splits)

definition head_read :: "options \<Rightarrow> bytes \<Rightarrow> response \<Rightarrow> bool \<Rightarrow> bool" where
  "head_read opt buf p h \<longleftrightarrow> (h \<longrightarrow> resp_valid p \<and> 100 \<le> resp_status p \<and> resp_status p \<le> 599 \<and>
     find_header_end buf \<noteq> None \<and> length buf \<le> opt_max_body_bytes opt) \<and>
     (\<not> h \<longrightarrow> find_header_end buf = None)"

lemma check_framing_cases:
  "check_framing opt buf p h = Finish q h' \<Longrightarrow> q = p \<and> h' = h \<and> h \<and> length buf \<le> opt_max_body_bytes opt \<and>
     \<not> resp_close_delimited p \<and> response_complete buf p"
  "check_framing opt buf p h = Continue q h' \<Longrightarrow> q = p \<and> h' = h \<and> (h \<longrightarrow> length buf \<le> opt_max_body_bytes opt)"
  by (auto simp: check_framing_def split: if_splits)

lemma on_bytes_step:
  assumes "head_read opt buf p h"
  shows "on_bytes opt (buf @ bs) p h = Finish q h' \<Longrightarrow> h' \<and> head_read opt (buf @ bs) q h' \<and>
      \<not> resp_close_delimited q \<and> response_complete (buf @ bs) q"
    "on_bytes opt (buf @ bs) p h = Continue q h' \<Longrightarrow> head_read opt (buf @ bs) q h'"
  using assms find_header_end_more [of buf bs] parse_response_valid [of "buf @ bs"]
  by (auto simp: on_bytes_def head_read_def Let_def dest: check_framing_cases split: if_splits)

lemma fetch_loop_inv:
  assumes "fetch_loop opt msg buf p h s = (Inr (buf', p', h'), s')" "head_read opt buf p h"
  shows "buf' @ rx_bytes s' = buf @ rx_bytes s \<and> head_read opt buf' p' h' \<and>
    (at_eof s' \<or> h' \<and> \<not> resp_close_delimited p' \<and> response_complete buf' p')"
  using assms
proof (induction opt msg buf p h s rule: fetch_loop.induct)
  case (1 opt msg buf p h s)
  obtain r s1 where r: "sys_recv s = (r, s1)" by fastforce
  show ?case
  proof (cases r)
    case (Inl e)
    with 1(3) r have e: "e = EINTR" "fetch_loop opt msg buf p h s1 = (Inr (buf', p', h'), s')"
      by (auto simp: fetch_loop.simps [of opt msg buf p h s] split: if_splits)
    from "1.IH"(1) [OF r [symmetric] Inl e "1.prems"(2)] sys_recv_bytes(2) [OF r [unfolded Inl]]
    show ?thesis by simp
  next
    case (Inr bs)
    note B = sys_recv_bytes(1) [OF r [unfolded Inr]]
    show ?thesis
    proof (cases "bs = []")
      case True
      with 1(3) r Inr have "buf' = buf" "p' = p" "h' = h" "s' = s1"
        by (auto simp: fetch_loop.simps [of opt msg buf p h s])
      with B True "1.prems"(2) show ?thesis by simp
    next
      case ne: False
      note step = on_bytes_step [OF "1.prems"(2), of bs]
      show ?thesis
      proof (cases "on_bytes opt (buf @ bs) p h")
        case (Fail e)
        with 1(3) r Inr ne show ?thesis by (simp add: fetch_loop.simps [of opt msg buf p h s])
      next
        case (Finish q k)
        with 1(3) r Inr ne have "buf' = buf @ bs" "p' = q" "h' = k" "s' = s1"
          by (auto simp: fetch_loop.simps [of opt msg buf p h s])
        with step(1) [OF Finish] B show ?thesis by (cases k) auto
      next
        case (Continue q k)
        with 1(3) r Inr ne have "fetch_loop opt msg (buf @ bs) q k s1 = (Inr (buf', p', h'), s')"
          by (simp add: fetch_loop.simps [of opt msg buf p h s])
        from "1.IH"(2) [OF r [symmetric] Inr ne Continue this step(2) [OF Continue]] B show ?thesis by simp
      qed
    qed
  qed
qed

lemma send_all_bytes [simp]: "rx_bytes (snd (send_all data s)) = rx_bytes s"
  by (simp add: rx_bytes_def)

lemma fetch_upstream_cases:
  obtains (failed) "\<not> ur_ok (fst (fetch_upstream opt msg env rq))" "ur_raw (fst (fetch_upstream opt msg env rq)) = []"
  | (read) buf p h s where "fetch_loop opt msg [] new_response False (snd (send_all rq (ue_sock env))) = (Inr (buf, p, h), s)"
      "fst (send_all rq (ue_sock env))"
      "fst (fetch_upstream opt msg env rq) = fetch_result buf p h" "snd (snd (fetch_upstream opt msg env rq)) = s"
      "ur_ok (fetch_result buf p h)"
proof -
  obtain sent s where sa: "send_all rq (ue_sock env) = (sent, s)" by fastforce
  obtain r s1 where fl: "fetch_loop opt msg [] new_response False s = (r, s1)" by fastforce
  show thesis
  proof (cases "ue_dns env = 0 \<and> ue_socket env = None \<and> ue_connect env = None \<and> sent")
    case False
    then show thesis
      by (intro failed) (auto simp: fetch_upstream_def sa new_upstream_result_def Let_def split: option.splits prod.splits sum.splits)
  next
    case ok: True
    show thesis
    proof (cases r)
      case (Inl e)
      with ok sa fl show thesis
        by (intro failed) (auto simp: fetch_upstream_def new_upstream_result_def Let_def)
    next
      case (Inr x)
      obtain buf p h where x: "x = (buf, p, h)" by (cases x)
      have f: "fst (fetch_upstream opt msg env rq) = fetch_result buf p h" "snd (snd (fetch_upstream opt msg env rq)) = s1"
        using ok sa fl Inr x by (simp_all add: fetch_upstream_def Let_def)
      show thesis
      proof (cases "ur_ok (fetch_result buf p h)")
        case True
        with f ok sa fl Inr x show thesis by (intro read [of buf p h s1]) auto
      next
        case False
        with f show thesis by (intro failed) (auto simp: fetch_result_def new_upstream_result_def Let_def split: if_splits)
      qed
    qed
  qed
qed


section \<open>Reading exactly one message\<close>

text \<open>Before the end of a printed head no header end is found.\<close>

lemma no_header_end_inside:
  assumes "response_printable v st reason hs" "m < length (print_response v st reason hs)"
  shows "find_header_end (take m (print_response v st reason hs @ body)) = None"
proof -
  let ?ls = "response_lines v st reason hs"
  let ?raw = "crlf_lines ?ls @ crlf @ body"
  have raw: "print_response v st reason hs @ body = ?raw" by (simp add: print_response_def)
  have m: "m < length (crlf_lines ?ls) + 2" using assms(2) by (simp add: print_response_def)
  have ne: "?ls \<noteq> []" by (simp add: response_lines_def)
  note plain = response_lines_plain [OF assms(1)]
  have "str_find (take m ?raw) pat 0 = None" if pat: "pat = crlf @ crlf \<or> pat = [LF, LF]" for pat
  proof (cases "str_find (take m ?raw) pat 0")
    case (Some j)
    have nep: "pat \<noteq> []" using pat by auto
    note S = str_find_SomeD [OF Some nep]
    have jl: "j + length pat \<le> m" using S(2) by simp
    have "prefix pat (drop j (take m ?raw) @ drop m ?raw)" by (rule prefix_append_right [OF S(3)])
    moreover have "drop j (take m ?raw) @ drop m ?raw = drop j ?raw"
      using jl by (intro drop_take_rejoin) simp
    ultimately have p: "prefix pat (drop j ?raw)" by simp
    show ?thesis
    proof (cases "j + 2 < length (crlf_lines ?ls)")
      case True
      from no_terminator_inside [OF plain this, of body] p pat show ?thesis by auto
    next
      case False
      obtain ls l where ls: "?ls = ls @ [l]" using ne by (cases ?ls rule: rev_cases) auto
      let ?q = "length (crlf_lines ls @ l)"
      have q: "length (crlf_lines ?ls) = ?q + 2" unfolding ls by simp
      have d0: "drop ?q ?raw = CR # LF # CR # LF # body" unfolding ls by simp
      have "drop (?q + 1) ?raw = drop 1 (drop ?q ?raw)" by (simp only: drop_drop add.commute)
      then have d1: "drop (?q + 1) ?raw = LF # CR # LF # body" unfolding d0 by simp
      from False jl m pat q have "pat = [LF, LF]" "j = ?q \<or> j = ?q + 1" by auto
      with p d0 d1 show ?thesis by auto
    qed
  qed
  then show ?thesis unfolding raw by (simp add: find_header_end_def)
qed

lemma parse_response_head_only:
  assumes "response_printable v st reason hs"
  shows "parse_response_headers (print_response v st reason hs @ body) = parse_response_headers (print_response v st reason hs)"
  using find_header_end_response [OF assms, of body] find_header_end_response [OF assms, of "[]"]
  by (simp add: parse_response_headers_def substr_def)

text \<open>A body is framed by a head when the framing test becomes true at its last byte and not
  before.\<close>

definition framed :: "bytes \<Rightarrow> bytes \<Rightarrow> bool" where
  "framed head body \<longleftrightarrow> \<not> resp_close_delimited (parse_response_headers head) \<and>
     (\<forall>m < length body. \<not> response_complete (head @ take m body) (parse_response_headers head)) \<and>
     response_complete (head @ body) (parse_response_headers head)"

definition fits :: "options \<Rightarrow> bytes \<Rightarrow> bytes \<Rightarrow> bool" where
  "fits opt head body \<longleftrightarrow> length head \<le> opt_max_header_bytes opt \<and> length (head @ body) \<le> opt_max_body_bytes opt"

lemma on_bytes_prefix:
  assumes "response_printable v st reason hs" "head = print_response v st reason hs" "framed head body" "fits opt head body"
    and "h \<longrightarrow> length head \<le> m" "p = (if h then parse_response_headers head else new_response)" "m \<le> length (head @ body)"
  shows "on_bytes opt (take m (head @ body)) p h =
    (if m < length head then Continue new_response False
     else if m < length (head @ body) then Continue (parse_response_headers head) True
     else Finish (parse_response_headers head) True)"
proof (cases "m < length head")
  case True
  then have "find_header_end (take m (head @ body)) = None"
    using no_header_end_inside [OF assms(1), of m body] assms(2) by simp
  moreover have "\<not> length (take m (head @ body)) > opt_max_header_bytes opt" using True assms(4) by (auto simp: fits_def)
  ultimately show ?thesis using True assms(5,6) by (simp add: on_bytes_def check_framing_def)
next
  case False
  define B where "B = take m (head @ body)"
  have t: "B = head @ take (m - length head) body" using False by (simp add: B_def)
  have "resp_valid (parse_response_headers head)" using response_head_facts [OF assms(1), of "[]"] assms(2) by simp
  moreover have "find_header_end B \<noteq> None"
    unfolding t using find_header_end_response [OF assms(1)] assms(2) by simp
  moreover have "parse_response_headers B = parse_response_headers head"
    unfolding t using parse_response_head_only [OF assms(1)] assms(2) by simp
  moreover have "check_framing opt B (parse_response_headers head) True =
      (if m < length (head @ body) then Continue (parse_response_headers head) True else Finish (parse_response_headers head) True)"
    using assms(3,4,7) False unfolding t by (auto simp: check_framing_def framed_def fits_def)
  ultimately have "on_bytes opt B p h =
      (if m < length (head @ body) then Continue (parse_response_headers head) True else Finish (parse_response_headers head) True)"
    using assms(6) unfolding on_bytes_def by (cases h) (simp_all del: length_append)
  then show ?thesis using False by (simp add: B_def)
qed

text \<open>Segments of a stream: non-empty, with interruptions in between.\<close>

fun calm :: "recv_answer \<Rightarrow> bool" where
  "calm (Recv bs) = (bs \<noteq> [])"
| "calm (Recv_fail e) = (e = EINTR)"

text \<open>Reading some of a message: the loop is left with what arrived, or ends at the last byte.\<close>

definition parsed_at :: "bytes \<Rightarrow> nat \<Rightarrow> response" where
  "parsed_at head m = (if length head \<le> m then parse_response_headers head else new_response)"

lemma fetch_loop_segments:
  assumes M: "response_printable v st reason hs" "head = print_response v st reason hs" "framed head body"
  shows "fits opt head body \<Longrightarrow> \<forall>a \<in> set pre. calm a \<Longrightarrow> sk_rx s = pre @ rest \<Longrightarrow>
     buf @ concat (map answer_bytes pre) = take m (head @ body) \<Longrightarrow>
     length buf < length (head @ body) \<Longrightarrow> h = (length head \<le> length buf) \<Longrightarrow> p = parsed_at head (length buf) \<Longrightarrow>
     \<exists>s'. if m < length (head @ body)
          then fetch_loop opt msg buf p h s =
              fetch_loop opt msg (take m (head @ body)) (parsed_at head m) (length head \<le> m) s' \<and> sk_rx s' = rest
          else fetch_loop opt msg buf p h s = (Inr (head @ body, parse_response_headers head, True), s')"
proof (induction opt msg buf p h s arbitrary: pre rule: fetch_loop.induct)
  case (1 opt msg buf p h s)
  note prems = "1.prems"
  let ?goal = "\<lambda>r. \<exists>s'. if m < length (head @ body)
      then r = fetch_loop opt msg (take m (head @ body)) (parsed_at head m) (length head \<le> m) s' \<and> sk_rx s' = rest
      else r = (Inr (head @ body, parse_response_headers head, True), s')"
  show ?case
  proof (cases pre)
    case Nil
    with prems(4,5) have b: "buf = take m (head @ body)" and m: "m < length (head @ body)"
      by (auto simp: min_def split: if_splits)
    then have "length buf = m" by simp
    with prems(3,6,7) Nil b m show ?thesis by (intro exI [of _ s]) simp
  next
    case pre: (Cons a pre')
    show ?thesis
    proof (cases a)
      case (Recv_fail e)
      with prems(2) pre have e: "e = EINTR" by simp
      let ?s = "s\<lparr>sk_rx := pre' @ rest, sk_errno := EINTR\<rparr>"
      have r: "sys_recv s = (Inl EINTR, ?s)" using prems(3) pre Recv_fail e by (simp add: sys_recv_def)
      have "?goal (fetch_loop opt msg buf p h ?s)"
        using "1.IH"(1) [OF r [symmetric] refl refl prems(1), of pre'] prems pre Recv_fail by simp
      moreover have "fetch_loop opt msg buf p h s = fetch_loop opt msg buf p h ?s"
        using r by (subst fetch_loop.simps) simp
      ultimately show ?thesis by metis
    next
      case (Recv bs)
      with prems(2) pre have bs: "bs \<noteq> []" by simp
      define c where "c = take recv_max bs"
      define pre1 where "pre1 = (if length bs \<le> recv_max then pre' else Recv (drop recv_max bs) # pre')"
      let ?s = "s\<lparr>sk_rx := pre1 @ rest\<rparr>"
      have r: "sys_recv s = (Inr c, ?s)" and c: "c \<noteq> []"
        using prems(3) pre Recv bs by (auto simp: sys_recv_def c_def pre1_def recv_max_def)
      have calm1: "\<forall>a \<in> set pre1. calm a" using prems(2) pre by (auto simp: pre1_def)
      have "take recv_max bs @ drop recv_max bs @ x = bs @ x" for x by (simp flip: append_assoc)
      then have cc: "c @ concat (map answer_bytes pre1) = bs @ concat (map answer_bytes pre')"
        by (simp add: c_def pre1_def)
      have rest1: "(buf @ c) @ concat (map answer_bytes pre1) = take m (head @ body)"
        using prems(4) pre Recv cc by simp
      let ?k = "length (buf @ c)"
      note k = part_of_take [OF rest1]
      have ob: "on_bytes opt (buf @ c) p h =
          (if ?k < length head then Continue new_response False
           else if ?k < length (head @ body) then Continue (parse_response_headers head) True
           else Finish (parse_response_headers head) True)"
        by (subst k(1)) (rule on_bytes_prefix [OF M prems(1) _ _ k(2)], use prems(6,7) in \<open>simp_all add: parsed_at_def\<close>)
      show ?thesis
      proof (cases "?k < length (head @ body)")
        case True
        then have ob': "on_bytes opt (buf @ c) p h = Continue (parsed_at head ?k) (length head \<le> ?k)"
          using ob by (simp add: parsed_at_def)
        have "?goal (fetch_loop opt msg (buf @ c) (parsed_at head ?k) (length head \<le> ?k) ?s)"
          using "1.IH"(2) [OF r [symmetric] refl c ob' prems(1) calm1 _ rest1 True] by simp
        moreover have "fetch_loop opt msg buf p h s =
            fetch_loop opt msg (buf @ c) (parsed_at head ?k) (length head \<le> ?k) ?s"
          using r c ob' by (subst fetch_loop.simps) simp
        ultimately show ?thesis by metis
      next
        case False
        with k have "buf @ c = head @ body" "\<not> m < length (head @ body)" by auto
        moreover have "on_bytes opt (buf @ c) p h = Finish (parse_response_headers head) True" using ob False k(2) by simp
        ultimately show ?thesis using r c by (subst fetch_loop.simps) simp
      qed
    qed
  qed
qed

lemma fetch_result_ok:
  "buf \<noteq> [] \<Longrightarrow> fetch_result buf p True = \<lparr>ur_raw = buf, ur_status = resp_status p, ur_ok = True, ur_error = []\<rparr>"
  by (simp add: fetch_result_def new_upstream_result_def)

text \<open>The two framings an origin can use, other than closing the connection.\<close>

definition well_framed :: "(bytes \<times> bytes) list \<Rightarrow> bytes \<Rightarrow> bool" where
  "well_framed hs body \<longleftrightarrow>
     (if says_chunked hs
      then \<exists>cs x ts. body = chunked_text cs x ts \<and> (\<forall>c \<in> set cs. chunk_ok c) \<and> ext_ok x \<and> (\<forall>t \<in> set ts. trailer_ok t)
      else last_value hs ''content-length'' = Some (nat_str (length body)))"

lemma well_framed_framed:
  assumes "response_printable v st reason hs" "well_framed hs body" "length (print_response v st reason hs @ body) < 2 ^ 63"
  shows "framed (print_response v st reason hs) body"
proof (cases "says_chunked hs")
  case True
  let ?head = "print_response v st reason hs"
  from True assms(2) obtain cs x ts where B: "body = chunked_text cs x ts" "\<forall>c \<in> set cs. chunk_ok c" "ext_ok x" "\<forall>t \<in> set ts. trailer_ok t"
    by (auto simp: well_framed_def)
  have H: "resp_valid (parse_response_headers ?head)" "resp_chunked (parse_response_headers ?head)"
    "resp_header_bytes (parse_response_headers ?head) = length ?head" "\<not> resp_close_delimited (parse_response_headers ?head)"
    using response_head_facts [OF assms(1), of "[]"] True by auto
  have "response_complete (?head @ b) (parse_response_headers ?head) \<longleftrightarrow> length body \<le> length b" if "prefix b body" for b
    using chunked_exact [OF B(2-4), of b "[]"] that H chunked_shift [of ?head b 0] B(1) by (simp add: response_complete_def)
  then show ?thesis using H(4) by (auto simp: framed_def take_is_prefix)
next
  case False
  let ?head = "print_response v st reason hs"
  have cl: "last_value hs ''content-length'' = Some (nat_str (length body))" using False assms(2) by (simp add: well_framed_def)
  have n: "int (length body) \<le> LONG_MAX" "length ?head < 2 ^ 63" using assms(3) by (auto simp: LONG_MAX_def)
  have "response_length (last_value hs ''content-length'') = int (length body)"
    using strtol_nat_str [of "length body" "[]"] n(1) cl by (simp add: response_length_def)
  then have "\<not> resp_close_delimited (parse_response_headers ?head)"
    using response_head_facts [OF assms(1), of "[]"] by simp
  moreover have "response_complete (?head @ b) (parse_response_headers ?head) \<longleftrightarrow> length body \<le> length b" for b
    using length_framing [OF assms(1) False cl n, of b "[]"] by simp
  ultimately show ?thesis by (simp add: framed_def)
qed

lemma fetch_loop_message:
  assumes "response_printable v st reason hs" "framed (print_response v st reason hs) body"
    and "fits opt (print_response v st reason hs) body" "\<forall>a \<in> set pre. calm a" "sk_rx s = pre @ rest"
    and "concat (map answer_bytes pre) = print_response v st reason hs @ body"
  obtains s' where "fetch_loop opt msg [] new_response False s =
      (Inr (print_response v st reason hs @ body, parse_response_headers (print_response v st reason hs), True), s')"
    "rx_bytes s' = concat (map answer_bytes rest)"
proof -
  have ne: "print_response v st reason hs \<noteq> []" by (simp add: print_response_def)
  let ?M = "print_response v st reason hs @ body"
  from fetch_loop_segments [OF assms(1) refl assms(2,3,4,5), of "[]" "length ?M" False new_response msg] assms(6) ne
  obtain s' where f: "fetch_loop opt msg [] new_response False s =
      (Inr (print_response v st reason hs @ body, parse_response_headers (print_response v st reason hs), True), s')"
    by (auto simp: parsed_at_def)
  have "head_read opt [] new_response False" by (simp add: head_read_def find_header_end_def str_find_def)
  from fetch_loop_inv [OF f this] assms(5,6) have "rx_bytes s' = concat (map answer_bytes rest)"
    by (simp add: rx_bytes_def)
  with f that show thesis by blast
qed

lemma fetch_message:
  assumes "response_printable v st reason hs" "well_framed hs body"
    and "fits opt (print_response v st reason hs) body" "length (print_response v st reason hs @ body) < 2 ^ 63"
    and "ue_dns env = 0" "ue_socket env = None" "ue_connect env = None" "fst (send_all request_bytes (ue_sock env))"
    and "sk_rx (ue_sock env) = pre @ rest" "\<forall>a \<in> set pre. calm a"
    and "concat (map answer_bytes pre) = print_response v st reason hs @ body"
  shows "fst (fetch_upstream opt msg env request_bytes) =
      \<lparr>ur_raw = print_response v st reason hs @ body, ur_status = int st, ur_ok = True, ur_error = []\<rparr> \<and>
    rx_bytes (snd (snd (fetch_upstream opt msg env request_bytes))) = concat (map answer_bytes rest)"
proof -
  obtain s where sa: "send_all request_bytes (ue_sock env) = (True, s)" using assms(8) by (metis prod.collapse)
  have rx: "sk_rx s = pre @ rest" using send_all_rx [of request_bytes "ue_sock env"] sa assms(9) by simp
  obtain s' where f: "fetch_loop opt msg [] new_response False s =
      (Inr (print_response v st reason hs @ body, parse_response_headers (print_response v st reason hs), True), s')"
    and r: "rx_bytes s' = concat (map answer_bytes rest)"
    by (rule fetch_loop_message [OF assms(1) well_framed_framed [OF assms(1,2,4)] assms(3,10) rx assms(11), of msg]) blast
  have "print_response v st reason hs @ body \<noteq> []" by (simp add: print_response_def)
  moreover have "resp_status (parse_response_headers (print_response v st reason hs)) = int st"
    using response_head_facts [OF assms(1), of "[]"] by simp
  ultimately show ?thesis
    using assms(5-7) sa f r fetch_result_ok [of "print_response v st reason hs @ body"] by (simp add: fetch_upstream_def)
qed


text \<open>A small exchange for the witnesses.\<close>

definition demo_head :: bytes where
  "demo_head = print_response ''HTTP/1.1'' 200 ''OK'' [(''Content-Length'', nat_str 3)]"

definition demo_env :: "recv_answer list \<Rightarrow> upstream_env" where
  "demo_env rx = \<lparr>ue_dns = 0, ue_socket = None, ue_connect = None,
     ue_sock = \<lparr>sk_rx = rx, sk_tx = [Sent 99], sk_poll = [], sk_wire = [], sk_errno = EINTR\<rparr>\<rparr>"

lemma demo_facts:
  "response_printable ''HTTP/1.1'' 200 ''OK'' [(''Content-Length'', nat_str 3)]"
  "well_framed [(''Content-Length'', nat_str 3)] ''abc''" "length demo_head = 38"
  "fst (send_all ''x'' (ue_sock (demo_env rx)))"
proof -
  show "response_printable ''HTTP/1.1'' 200 ''OK'' [(''Content-Length'', nat_str 3)]" by code_simp
  have "\<not> says_chunked [(''Content-Length'', nat_str 3)]"
    "last_value [(''Content-Length'', nat_str 3)] ''content-length'' = Some (nat_str 3)" by code_simp+
  then show "well_framed [(''Content-Length'', nat_str 3)] ''abc''"
    by (simp add: well_framed_def eval_nat_numeral)
  show "length demo_head = 38" by code_simp
  show "fst (send_all ''x'' (ue_sock (demo_env rx)))"
    by (simp add: demo_env_def send_all_def send_loop.simps sys_send_def)
qed

lemma demo_fits: "fits (new_options\<lparr>opt_max_header_bytes := 100, opt_max_body_bytes := 100\<rparr>) demo_head ''abc''"
  "length (demo_head @ ''abc'') < 2 ^ 63"
  using demo_facts(3) by (simp_all add: fits_def)


section \<open>When the origin stops early\<close>

lemma fetch_loop_partial:
  assumes "response_printable v st reason hs" "well_framed hs body"
    and "fits opt (print_response v st reason hs) body" "length (print_response v st reason hs @ body) < 2 ^ 63"
    and "sk_rx s = pre @ rest" "\<forall>a \<in> set pre. calm a"
    and "concat (map answer_bytes pre) = take m (print_response v st reason hs @ body)"
    and "m < length (print_response v st reason hs @ body)"
  obtains s' where "fetch_loop opt msg [] new_response False s =
      fetch_loop opt msg (take m (print_response v st reason hs @ body)) (parsed_at (print_response v st reason hs) m)
        (length (print_response v st reason hs) \<le> m) s'" "sk_rx s' = rest"
proof -
  have ne: "print_response v st reason hs \<noteq> []" by (simp add: print_response_def)
  from fetch_loop_segments [OF assms(1) refl well_framed_framed [OF assms(1,2,4)] assms(3,6,5), of "[]" m False new_response msg]
    assms(7,8) ne that show thesis by (auto simp: parsed_at_def)
qed

text \<open>A finding. A response that is cut short is taken for a whole one: if the origin
  closes the connection after the head but before the last byte its own framing announces, the
  fetch still reports success, with the bytes that came; the caller forwards them, and stores
  them in the cache if the response is cacheable. Only a close-delimited body ends at EOF.\<close>

theorem truncated_response_accepted:
  assumes "response_printable v st reason hs" "well_framed hs body"
    and "fits opt (print_response v st reason hs) body" "length (print_response v st reason hs @ body) < 2 ^ 63"
    and "ue_dns env = 0" "ue_socket env = None" "ue_connect env = None" "fst (send_all request_bytes (ue_sock env))"
    and "sk_rx (ue_sock env) = pre @ Recv [] # rest" "\<forall>a \<in> set pre. calm a"
    and "concat (map answer_bytes pre) = take m (print_response v st reason hs @ body)"
    and "length (print_response v st reason hs) \<le> m" "m < length (print_response v st reason hs @ body)"
  shows "fst (fetch_upstream opt msg env request_bytes) =
      \<lparr>ur_raw = take m (print_response v st reason hs @ body), ur_status = int st, ur_ok = True, ur_error = []\<rparr> \<and>
    \<not> response_complete (take m (print_response v st reason hs @ body))
      (parse_response_headers (take m (print_response v st reason hs @ body)))"
proof -
  let ?head = "print_response v st reason hs"
  obtain s where sa: "send_all request_bytes (ue_sock env) = (True, s)" using assms(8) by (metis prod.collapse)
  have rx: "sk_rx s = pre @ Recv [] # rest" using send_all_rx [of request_bytes "ue_sock env"] sa assms(9) by simp
  obtain s' where f: "fetch_loop opt msg [] new_response False s =
      fetch_loop opt msg (take m (?head @ body)) (parsed_at ?head m) (length ?head \<le> m) s'" and rx': "sk_rx s' = Recv [] # rest"
    by (rule fetch_loop_partial [OF assms(1-4) rx assms(10,11,13), of msg])
  have e: "fetch_loop opt msg [] new_response False s = (Inr (take m (?head @ body), parse_response_headers ?head, True), s')"
    unfolding f using rx' assms(12) by (subst fetch_loop.simps) (simp add: sys_recv_def parsed_at_def)
  have ne: "take m (?head @ body) \<noteq> []" using assms(12) by (simp add: print_response_def)
  have t: "take m (?head @ body) = ?head @ take (m - length ?head) body" using assms(12) by simp
  have "resp_status (parse_response_headers ?head) = int st" using response_head_facts [OF assms(1), of "[]"] by simp
  then have "fst (fetch_upstream opt msg env request_bytes) =
      \<lparr>ur_raw = take m (?head @ body), ur_status = int st, ur_ok = True, ur_error = []\<rparr>"
    using assms(5-7) sa e fetch_result_ok [OF ne] by (simp add: fetch_upstream_def)
  moreover have "\<not> response_complete (take m (?head @ body)) (parse_response_headers (take m (?head @ body)))"
    unfolding t parse_response_head_only [OF assms(1)] using well_framed_framed [OF assms(1,2,4)] assms(12,13)
    by (simp add: framed_def)
  ultimately show ?thesis by blast
qed

lemma demo_env_simps [simp]:
  "ue_dns (demo_env rx) = 0" "ue_socket (demo_env rx) = None" "ue_connect (demo_env rx) = None"
  "sk_rx (ue_sock (demo_env rx)) = rx"
  by (simp_all add: demo_env_def)

theorem truncated_response_accepted_witness:
  "fst (fetch_upstream (new_options\<lparr>opt_max_header_bytes := 100, opt_max_body_bytes := 100\<rparr>)
     \<lparr>msg_errno = (\<lambda>_. []), msg_gai = (\<lambda>_. [])\<rparr> (demo_env [Recv demo_head, Recv ''a'', Recv []]) ''x'') =
   \<lparr>ur_raw = demo_head @ ''a'', ur_status = 200, ur_ok = True, ur_error = []\<rparr>"
proof -
  let ?H = "print_response ''HTTP/1.1'' 200 ''OK'' [(''Content-Length'', nat_str 3)]"
  have l: "length ?H = 38" using demo_facts(3) by (simp add: demo_head_def)
  have rx: "sk_rx (ue_sock (demo_env [Recv ?H, Recv ''a'', Recv []])) = [Recv ?H, Recv ''a''] @ Recv [] # []" by simp
  have calm: "\<forall>a \<in> set [Recv ?H, Recv ''a'']. calm a" using l by auto
  have t: "take 39 (?H @ ''abc'') = ?H @ ''a''" using l by simp
  then have cat: "concat (map answer_bytes [Recv ?H, Recv ''a'']) = take 39 (?H @ ''abc'')" by simp
  have m: "length ?H \<le> 39" "39 < length (?H @ ''abc'')" using l by simp_all
  from truncated_response_accepted [OF demo_facts(1,2) demo_fits [unfolded demo_head_def] demo_env_simps(1-3) demo_facts(4)
      rx calm cat m, of "\<lparr>msg_errno = (\<lambda>_. []), msg_gai = (\<lambda>_. [])\<rparr>"] t
  show ?thesis unfolding demo_head_def by simp
qed



end
