(* ===== verification/Access_Config.thy ===== *)
theory Access_Config
  imports Access_Control Cpp_Numbers
begin

text \<open>
  Reading the policy file: \<open>AccessControl::load_string\<close> and \<open>load_file\<close> of
  \<open>src/http.hpp\<close>. A line is \<^const>\<open>Inl\<close> its error or \<^const>\<open>Inr\<close> the policy
  after it; a load that fails keeps what the lines before the bad one did, as the code's
  object does. The lemmas show that a printed policy is read back exactly, that every
  accepted file leaves a policy whose rules can all match and whose routes all have a real
  port, and that an error names the first bad line.
\<close>

section \<open>load_string\<close>

definition line_error :: "nat \<Rightarrow> bytes \<Rightarrow> bytes" where
  "line_error lineno msg = ''line '' @ nat_str lineno @ msg"

definition load_default :: "nat \<Rightarrow> bytes \<Rightarrow> access_control \<Rightarrow> bytes + access_control" where
  "load_default lineno ls ac =
     (let pol = to_lower (fst (extract_word ls)) in
      if pol = ''allow'' then Inr (ac\<lparr>ac_default := Allow\<rparr>)
      else if pol = ''deny'' then Inr (ac\<lparr>ac_default := Deny\<rparr>)
      else Inl (line_error lineno '': default must be allow|deny''))"

definition load_rule :: "nat \<Rightarrow> bytes \<Rightarrow> decision \<Rightarrow> bytes \<Rightarrow> access_control \<Rightarrow> bytes + access_control" where
  "load_rule lineno s d ls ac =
     (let (field, ls) = extract_word ls; (pattern, ls) = extract_word ls; field = to_lower field in
      if pattern = [] then Inl (line_error lineno '': missing pattern'')
      else if field \<noteq> ''host'' \<and> field \<noteq> ''path'' \<and> field \<noteq> ''method''
      then Inl (line_error lineno '': field must be host|path|method'')
      else Inr (add_rule ac d field pattern s))"

definition load_route :: "nat \<Rightarrow> bytes \<Rightarrow> access_control \<Rightarrow> bytes + access_control" where
  "load_route lineno ls ac =
     (let (host_pattern, ls) = extract_word ls; (host, ls) = extract_word ls; (port, ls) = extract_int ls in
      if host_pattern = [] \<or> host = [] \<or> port \<le> 0 \<or> port > 65535
      then Inl (line_error lineno '': route needs <host-pattern> <host> <port>'')
      else Inr (add_route ac host_pattern host port))"

definition load_line :: "nat \<Rightarrow> bytes \<Rightarrow> access_control \<Rightarrow> bytes + access_control" where
  "load_line lineno line ac =
     (let s = trim line in
      if s = [] \<or> hd s = CHR ''#'' then Inr ac
      else
        (let (verb, ls) = extract_word s; verb = to_lower verb in
         if verb = ''default'' then load_default lineno ls ac
         else if verb = ''allow'' \<or> verb = ''deny''
         then load_rule lineno s (if verb = ''allow'' then Allow else Deny) ls ac
         else if verb = ''route'' then load_route lineno ls ac
         else Inl (line_error lineno ('': unknown directive '' @ [CHR 0x27] @ verb @ [CHR 0x27]))))"

fun load_lines :: "nat \<Rightarrow> bytes list \<Rightarrow> access_control \<Rightarrow> bytes option \<times> access_control" where
  "load_lines lineno [] ac = (None, ac)"
| "load_lines lineno (l # ls) ac = (case load_line (lineno + 1) l ac of
     Inl e \<Rightarrow> (Some e, ac)
   | Inr ac' \<Rightarrow> load_lines (lineno + 1) ls ac')"

text \<open>\<^const>\<open>None\<close> is the return value \<open>true\<close>, \<^term>\<open>Some e\<close> is \<open>false\<close> with the
  error \<open>e\<close>. The file is its contents, or \<^const>\<open>None\<close> if it cannot be opened.\<close>

definition load_string :: "bytes \<Rightarrow> access_control \<Rightarrow> bytes option \<times> access_control" where
  "load_string text ac = load_lines 0 (getlines text) ac"

definition load_file :: "(bytes \<Rightarrow> bytes option) \<Rightarrow> bytes \<Rightarrow> access_control \<Rightarrow> bytes option \<times> access_control" where
  "load_file files path ac = (case files path of
     None \<Rightarrow> (Some (''cannot open '' @ path), ac)
   | Some text \<Rightarrow> load_string text ac)"

section \<open>What a loaded policy looks like\<close>

definition rule_ok :: "acl_rule \<Rightarrow> bool" where
  "rule_ok r \<longleftrightarrow> rule_field r \<in> {''host'', ''path'', ''method''} \<and> rule_pattern r \<noteq> []"

definition route_ok :: "bytes \<times> upstream \<Rightarrow> bool" where
  "route_ok r \<longleftrightarrow> fst r \<noteq> [] \<and> to_lower (fst r) = fst r \<and> up_host (snd r) \<noteq> [] \<and>
     1 \<le> up_port (snd r) \<and> up_port (snd r) \<le> 65535"

definition policy_ok :: "access_control \<Rightarrow> bool" where
  "policy_ok ac \<longleftrightarrow> list_all rule_ok (ac_rules ac) \<and> list_all route_ok (ac_routes ac)"

text \<open>Every line either leaves the policy alone, sets the default, or appends one rule or
  one route.\<close>

lemma lower_words [simp]:
  "to_lower ''host'' = ''host''" "to_lower ''path'' = ''path''" "to_lower ''method'' = ''method''"
  "to_lower ''allow'' = ''allow''" "to_lower ''deny'' = ''deny''" "to_lower ''default'' = ''default''"
  "to_lower ''route'' = ''route''"
  by code_simp+

lemma load_line_cases:
  assumes "load_line n line ac = Inr ac'"
  obtains (same) "ac' = ac"
  | (set_default) d where "ac' = ac\<lparr>ac_default := d\<rparr>"
  | (rule) r where "ac' = ac\<lparr>ac_rules := ac_rules ac @ [r]\<rparr>" "rule_ok r" "rule_source r = trim line"
  | (route) r where "ac' = ac\<lparr>ac_routes := ac_routes ac @ [r]\<rparr>" "route_ok r"
proof -
  obtain verb ls where w: "extract_word (trim line) = (verb, ls)" by fastforce
  consider (skip) "trim line = [] \<or> hd (trim line) = CHR ''#''"
    | (def) "load_default n ls ac = Inr ac'"
    | (rul) d where "load_rule n (trim line) d ls ac = Inr ac'" "trim line \<noteq> []"
    | (rou) "load_route n ls ac = Inr ac'"
    using assms w by (fastforce simp: load_line_def Let_def split: if_splits prod.splits)
  then show thesis
  proof cases
    case skip
    with assms show thesis by (intro same) (simp add: load_line_def)
  next
    case def
    then show thesis by (auto simp: load_default_def Let_def split: if_splits intro: set_default)
  next
    case rul
    from rul(1) obtain field p where "ac' = add_rule ac d field p (trim line)"
      "field \<in> {''host'', ''path'', ''method''}" "to_lower field = field" "p \<noteq> []"
      by (auto simp: load_rule_def Let_def split: if_splits prod.splits)
    with rul(2) show thesis
      by (intro rule [of "\<lparr>rule_decision = d, rule_field = field, rule_pattern = p, rule_source = trim line\<rparr>"])
        (auto simp: add_rule_def rule_ok_def)
  next
    case rou
    then show thesis
      by (auto simp: load_route_def add_route_def route_add_def route_ok_def Let_def
          split: if_splits prod.splits intro: route)
  qed
qed

lemma load_line_policy_ok: "load_line n line ac = Inr ac' \<Longrightarrow> policy_ok ac \<Longrightarrow> policy_ok ac'"
  by (erule load_line_cases) (auto simp: policy_ok_def)

lemma load_lines_policy_ok: "policy_ok ac \<Longrightarrow> policy_ok (snd (load_lines n ls ac))"
  by (induction ls arbitrary: n ac) (auto dest: load_line_policy_ok split: sum.split)

section \<open>Failing closed\<close>

lemma load_lines_append:
  "load_lines n (ls @ ms) ac = (case load_lines n ls ac of
     (Some e, ac') \<Rightarrow> (Some e, ac') | (None, ac') \<Rightarrow> load_lines (n + length ls) ms ac')"
  by (induction ls arbitrary: n ac) (auto split: sum.split prod.split option.split)

lemma load_lines_error:
  assumes "load_lines n ls ac = (Some e, ac')"
  obtains pre l post where "ls = pre @ l # post" "load_lines n pre ac = (None, ac')"
    "load_line (n + length pre + 1) l ac' = Inl e"
  using assms
proof (induction ls arbitrary: n ac thesis)
  case Nil
  then show ?case by simp
next
  case (Cons k ks)
  show ?case
  proof (cases "load_line (n + 1) k ac")
    case (Inl e')
    with Cons.prems show ?thesis by (intro Cons.prems(1) [of "[]"]) auto
  next
    case (Inr ac1)
    with Cons.prems(2) have "load_lines (n + 1) ks ac1 = (Some e, ac')" by simp
    then obtain pre l post where "ks = pre @ l # post" "load_lines (n + 1) pre ac1 = (None, ac')"
      "load_line (n + 1 + length pre + 1) l ac' = Inl e" by (rule Cons.IH [rotated])
    with Inr show ?thesis by (intro Cons.prems(1) [of "k # pre" l post]) auto
  qed
qed

lemma load_line_error_text:
  "load_line n l ac = Inl e \<Longrightarrow> \<exists>msg. e = line_error n msg \<and> msg \<noteq> []"
  by (auto simp: load_line_def load_default_def load_rule_def load_route_def Let_def
      split: if_splits prod.splits)

text \<open>C19: Loading fails closed. A load that reports success leaves a policy in which every
  rule names a field that exists and a non-empty pattern and every route a port from 1 to
  65535; a load that fails reports the 1-based number of the first line that is not a
  directive, all lines before it are good, and nothing after it was read.\<close>

theorem load_string_fails_closed:
  "case load_string text ac of
     (None, ac') \<Rightarrow> (policy_ok ac \<longrightarrow> policy_ok ac') \<and>
        (\<forall>i < length (getlines text). \<exists>ac1 ac2. load_lines 0 (take i (getlines text)) ac = (None, ac1) \<and>
           load_line (i + 1) (getlines text ! i) ac1 = Inr ac2)
   | (Some e, ac') \<Rightarrow> (\<exists>i < length (getlines text).
        load_lines 0 (take i (getlines text)) ac = (None, ac') \<and>
        load_line (i + 1) (getlines text ! i) ac' = Inl e \<and>
        (\<exists>msg. e = ''line '' @ nat_str (i + 1) @ msg))"
proof -
  let ?ls = "getlines text"
  have ok: "\<exists>ac1 ac2. load_lines 0 (take i ?ls) ac = (None, ac1) \<and> load_line (i + 1) (?ls ! i) ac1 = Inr ac2"
    if l: "load_lines 0 ?ls ac = (None, ac')" and i: "i < length ?ls" for i ac'
  proof -
    have "?ls = take i ?ls @ ?ls ! i # drop (Suc i) ?ls" using i by (simp add: id_take_nth_drop)
    with l have "load_lines 0 (take i ?ls @ ?ls ! i # drop (Suc i) ?ls) ac = (None, ac')" by metis
    with i show ?thesis by (auto simp: load_lines_append split: prod.splits option.splits sum.splits)
  qed
  have bad: "\<exists>i < length ?ls. load_lines 0 (take i ?ls) ac = (None, ac') \<and>
      load_line (i + 1) (?ls ! i) ac' = Inl e \<and> (\<exists>msg. e = ''line '' @ nat_str (i + 1) @ msg)"
    if l: "load_lines 0 ?ls ac = (Some e, ac')" for e ac'
  proof -
    from l obtain pre k post where P: "?ls = pre @ k # post" "load_lines 0 pre ac = (None, ac')"
      "load_line (0 + length pre + 1) k ac' = Inl e" by (rule load_lines_error)
    from load_line_error_text [OF P(3)] P show ?thesis
      by (intro exI [of _ "length pre"]) (auto simp: line_error_def)
  qed
  show ?thesis using ok bad load_lines_policy_ok [of ac 0 ?ls]
    by (auto simp: load_string_def split: prod.split option.split)
qed

theorem load_string_fails_closed_witness:
  "\<exists>i < 3. load_lines 0 (take i [''deny host x'', ''# y'', ''permit host z'']) new_access_control =
       (None, snd (load_string (''deny host x'' @ [LF] @ ''# y'' @ [LF] @ ''permit host z'' @ [LF]) new_access_control)) \<and>
     (\<exists>msg. ''line 3: unknown directive '' @ [CHR 0x27] @ ''permit'' @ [CHR 0x27] = ''line '' @ nat_str (i + 1) @ msg)"
proof -
  let ?text = "''deny host x'' @ [LF] @ ''# y'' @ [LF] @ ''permit host z'' @ [LF]"
  let ?err = "''line 3: unknown directive '' @ [CHR 0x27] @ ''permit'' @ [CHR 0x27]"
  have g: "getlines ?text = [''deny host x'', ''# y'', ''permit host z'']" by code_simp
  have "fst (load_string ?text new_access_control) = Some ?err" by code_simp
  then obtain ac' where l: "load_string ?text new_access_control = (Some ?err, ac')" by (metis prod.collapse)
  have n: "length [''deny host x'', ''# y'', ''permit host z''] = 3" by simp
  from load_string_fails_closed [of new_access_control ?text, unfolded l g n prod.case option.case]
  show ?thesis unfolding l snd_conv by blast
qed

section \<open>Printing a policy and reading it back\<close>

datatype directive =
    Blank
  | Comment bytes
  | Default decision
  | Rule decision bytes bytes
  | Route bytes bytes nat

fun decision_str :: "decision \<Rightarrow> bytes" where
  "decision_str Allow = ''allow''"
| "decision_str Deny = ''deny''"

fun print_directive :: "directive \<Rightarrow> bytes" where
  "print_directive Blank = []"
| "print_directive (Comment c) = CHR ''#'' # c"
| "print_directive (Default d) = ''default '' @ decision_str d"
| "print_directive (Rule d f p) = decision_str d @ '' '' @ f @ '' '' @ p"
| "print_directive (Route h u p) = ''route '' @ h @ '' '' @ u @ '' '' @ nat_str p"

definition blank_free :: "bytes \<Rightarrow> bool" where
  "blank_free w \<longleftrightarrow> w \<noteq> [] \<and> (\<forall>c \<in> set w. \<not> isspace_c c)"

fun directive_ok :: "directive \<Rightarrow> bool" where
  "directive_ok Blank = True"
| "directive_ok (Comment c) = (LF \<notin> set c)"
| "directive_ok (Default d) = True"
| "directive_ok (Rule d f p) = (f \<in> {''host'', ''path'', ''method''} \<and> blank_free p)"
| "directive_ok (Route h u p) = (blank_free h \<and> blank_free u \<and> 1 \<le> p \<and> p \<le> 65535)"

text \<open>What a directive means for the policy.\<close>

fun apply_directive :: "access_control \<Rightarrow> directive \<Rightarrow> access_control" where
  "apply_directive ac Blank = ac"
| "apply_directive ac (Comment c) = ac"
| "apply_directive ac (Default d) = ac\<lparr>ac_default := d\<rparr>"
| "apply_directive ac (Rule d f p) = ac\<lparr>ac_rules := ac_rules ac @
     [\<lparr>rule_decision = d, rule_field = f, rule_pattern = p, rule_source = print_directive (Rule d f p)\<rparr>]\<rparr>"
| "apply_directive ac (Route h u p) = ac\<lparr>ac_routes := ac_routes ac @
     [(to_lower h, \<lparr>up_host = u, up_port = int p\<rparr>)]\<rparr>"

definition print_policy :: "directive list \<Rightarrow> bytes" where
  "print_policy ds = concat (map (\<lambda>d. print_directive d @ [LF]) ds)"

lemma ws_isspace: "is_ws c \<Longrightarrow> isspace_c c"
  by (auto simp: is_ws_def isspace_c_def)

lemma LF_isspace [simp]: "isspace_c LF" "isspace_c (CHR '' '')"
  by (simp_all add: isspace_c_def)

lemma blank_free_ends:
  "blank_free w \<Longrightarrow> w \<noteq> [] \<and> \<not> is_ws (hd w) \<and> \<not> is_ws (last w) \<and> LF \<notin> set w"
  using ws_isspace LF_isspace(1) hd_in_set [of w] last_in_set [of w] unfolding blank_free_def by blast

lemma blank_free_nat_str: "blank_free (nat_str n)"
  using nat_str_digits isdigit_not_space by (auto simp: blank_free_def)

lemma blank_free_words [simp]:
  "blank_free ''host''" "blank_free ''path''" "blank_free ''method''" "blank_free ''allow''"
  "blank_free ''deny''" "blank_free ''default''" "blank_free ''route''"
  by code_simp+

lemma blank_free_decision [simp]: "blank_free (decision_str d)"
  by (cases d) simp_all

lemma extract_word_blank:
  "blank_free w \<Longrightarrow> extract_word (w @ '' '' @ r) = (w, '' '' @ r)"
  "blank_free w \<Longrightarrow> extract_word ('' '' @ w @ '' '' @ r) = (w, '' '' @ r)"
  "blank_free w \<Longrightarrow> extract_word ('' '' @ w) = (w, [])"
  using extract_word_token [of w "[]"] extract_word_token [of w "'' ''"]
  by (auto simp: blank_free_def)

lemma trim_words:
  "blank_free v \<Longrightarrow> blank_free w \<Longrightarrow> trim (v @ m @ w) = v @ m @ w"
  using blank_free_ends [of v] blank_free_ends [of w] by (intro trim_id) (auto simp: hd_append)

lemma load_line_print:
  assumes "directive_ok d"
  shows "load_line n (print_directive d) ac = Inr (apply_directive ac d)"
proof (cases d)
  case Blank
  then show ?thesis by (simp add: load_line_def)
next
  case (Comment c)
  have "trim (CHR ''#'' # c) \<noteq> [] \<and> hd (trim (CHR ''#'' # c)) = CHR ''#''"
    by (auto simp: trim_def is_ws_def substr_def split: option.splits dest: last_idx_None [THEN iffD1])
  with Comment show ?thesis by (auto simp: load_line_def)
next
  case (Default x)
  have t: "trim (print_directive d) = ''default'' @ '' '' @ decision_str x"
    using trim_words [of "''default''" "decision_str x" "'' ''"] Default by simp
  have "extract_word (''default'' @ '' '' @ decision_str x) = (''default'', '' '' @ decision_str x)"
    by (rule extract_word_blank(1)) simp
  moreover have "extract_word ('' '' @ decision_str x) = (decision_str x, [])"
    by (rule extract_word_blank(3)) simp
  ultimately show ?thesis using t Default
    by (cases x) (simp_all add: load_line_def load_default_def)
next
  case (Rule x f p)
  have f: "blank_free f" "to_lower f = f" and p: "blank_free p" "p \<noteq> []"
    using assms Rule by (auto simp: blank_free_def) (auto simp: isspace_c_def)
  have t: "trim (print_directive d) = decision_str x @ '' '' @ f @ '' '' @ p"
    using trim_words [of "decision_str x" p "'' '' @ f @ '' ''"] Rule p by simp
  have w: "extract_word (decision_str x @ '' '' @ f @ '' '' @ p) = (decision_str x, '' '' @ f @ '' '' @ p)"
    "extract_word ('' '' @ f @ '' '' @ p) = (f, '' '' @ p)" "extract_word ('' '' @ p) = (p, [])"
    by (rule extract_word_blank; simp add: f p)+
  show ?thesis using t w f p assms Rule
    by (cases x) (auto simp: load_line_def load_rule_def add_rule_def)
next
  case (Route h u p)
  then have h: "blank_free h" "h \<noteq> []" and u: "blank_free u" "u \<noteq> []" and p: "1 \<le> p" "p \<le> 65535"
    using assms by (auto simp: blank_free_def)
  have t: "trim (print_directive d) = ''route'' @ '' '' @ h @ '' '' @ u @ '' '' @ nat_str p"
    using trim_words [of "''route''" "nat_str p" "'' '' @ h @ '' '' @ u @ '' ''"] Route blank_free_nat_str by simp
  have w: "extract_word (''route'' @ '' '' @ h @ '' '' @ u @ '' '' @ nat_str p) = (''route'', '' '' @ h @ '' '' @ u @ '' '' @ nat_str p)"
    "extract_word ('' '' @ h @ '' '' @ u @ '' '' @ nat_str p) = (h, '' '' @ u @ '' '' @ nat_str p)"
    "extract_word ('' '' @ u @ '' '' @ nat_str p) = (u, '' '' @ nat_str p)"
    by (rule extract_word_blank; simp add: h u)+
  have "extract_int ('' '' @ nat_str p) = (int p, [])"
    using p by (intro extract_int_nat_str) (auto simp: INT_MAX_def)
  with t w h u p Route show ?thesis
    by (simp add: load_line_def load_route_def add_route_def route_add_def)
qed

lemma print_directive_no_LF: "directive_ok d \<Longrightarrow> LF \<notin> set (print_directive d)"
proof (cases d)
  case (Rule x f p)
  assume "directive_ok d"
  with Rule blank_free_ends [of p] show ?thesis by (cases x) auto
next
  case (Route h u p)
  assume "directive_ok d"
  with Route blank_free_ends [of h] blank_free_ends [of u] show ?thesis by (auto simp: nat_str_free)
next
  case (Default x)
  then show ?thesis by (cases x) auto
qed auto

lemma load_lines_print:
  "\<forall>d \<in> set ds. directive_ok d \<Longrightarrow> load_lines n (getlines (print_policy ds)) ac = (None, foldl apply_directive ac ds)"
proof (induction ds arbitrary: n ac)
  case Nil
  then show ?case by (simp add: print_policy_def)
next
  case (Cons d ds)
  have "getlines (print_policy (d # ds)) = print_directive d # getlines (print_policy ds)"
    using Cons.prems by (simp add: print_policy_def getlines_cons print_directive_no_LF)
  with Cons show ?case by (simp add: load_line_print)
qed

text \<open>C17: Loading inverts printing: every policy written out in the documented format
  (\<open>default\<close>, \<open>allow\<close>/\<open>deny\<close>, \<open>route\<close>, comments and blank lines, one per line) loads
  without error into exactly the rules, routes and default it lists, in file order.\<close>

theorem load_print_policy:
  assumes "\<forall>d \<in> set ds. directive_ok d"
  shows "load_string (print_policy ds) ac = (None, foldl apply_directive ac ds)"
  unfolding load_string_def by (rule load_lines_print [OF assms])

theorem load_print_policy_witness:
  "acl_decision (check (snd (load_string (print_policy [Comment '' allow list'', Rule Allow ''host'' ''*.Good.net'',
       Default Deny, Route ''Origin.test'' ''127.0.0.1'' 19]) new_access_control))
     (new_request\<lparr>req_host := ''a.GOOD.net''\<rparr>)) = Allow"
proof -
  let ?ds = "[Comment '' allow list'', Rule Allow ''host'' ''*.Good.net'', Default Deny, Route ''Origin.test'' ''127.0.0.1'' 19]"
  have "blank_free ''*.Good.net''" "blank_free ''Origin.test''" "blank_free ''127.0.0.1''" by code_simp+
  then have "\<forall>d \<in> set ?ds. directive_ok d" by simp
  from load_print_policy [OF this, of new_access_control]
  have "snd (load_string (print_policy ?ds) new_access_control) = foldl apply_directive new_access_control ?ds" by simp
  moreover have "acl_decision (check (foldl apply_directive new_access_control ?ds) (new_request\<lparr>req_host := ''a.GOOD.net''\<rparr>)) = Allow"
    by code_simp
  ultimately show ?thesis by metis
qed

end
