(* ===== verification/Access_Log.thy ===== *)
theory Access_Log
  imports Cpp_Numbers
begin

text \<open>
  \<open>AccessLog\<close> of \<open>src/http.hpp\<close>. The state holds the buffer, the cached time prefix and,
  as what the world has seen, the bytes written to the file and to standard output. A write
  takes the lock twice, once for the time stamp and once to append the line, so it is two
  steps, and other threads can come in between: the lemmas are about every sequence of
  such steps. They show that no byte of a line is lost, doubled or torn, that the buffer stays
  bounded, and that a time stamp is the right one although most are read from the cache.
\<close>

section \<open>The time of day\<close>

text \<open>\<open>gmtime_r\<close> and \<open>strftime\<close> with \<open>%Y-%m-%dT%H:%M:%S\<close>: seconds since 1970 to the
  date of the Gregorian calendar, counted in 400-year eras that start on the first of March.\<close>

definition civil_from_days :: "int \<Rightarrow> int \<times> nat \<times> nat" where
  "civil_from_days days =
     (let z = days + 719468; era = z div 146097; doe = z mod 146097;
          yoe = (doe - doe div 1460 + doe div 36524 - doe div 146096) div 365;
          doy = doe - (365 * yoe + yoe div 4 - yoe div 100);
          mp = (5 * doy + 2) div 153;
          d = doy - (153 * mp + 2) div 5 + 1;
          m = (if mp < 10 then mp + 3 else mp - 9) in
      (yoe + era * 400 + (if m \<le> 2 then 1 else 0), nat m, nat d))"

definition pad2 :: "nat \<Rightarrow> bytes" where
  "pad2 n = [digit_c (n div 10 mod 10), digit_c (n mod 10)]"

definition pad3 :: "nat \<Rightarrow> bytes" where
  "pad3 n = digit_c (n div 100 mod 10) # pad2 n"

definition iso_time :: "int \<Rightarrow> bytes" where
  "iso_time sec =
     (let (y, m, d) = civil_from_days (sec div 86400); s = nat (sec mod 86400) in
      int_str y @ ''-'' @ pad2 m @ ''-'' @ pad2 d @ ''T'' @
        pad2 (s div 3600) @ '':'' @ pad2 (s div 60 mod 60) @ '':'' @ pad2 (s mod 60))"

section \<open>The log\<close>

record access_log =
  lg_file_open :: bool
  lg_to_stdout :: bool
  lg_lines :: u64
  lg_buf :: bytes
  lg_flush_bytes :: nat
  lg_immediate :: bool
  lg_cached_sec :: int
  lg_cached_prefix :: bytes
  lg_file :: bytes
  lg_stdout :: bytes

definition new_access_log :: access_log where
  "new_access_log = \<lparr>lg_file_open = False, lg_to_stdout = True, lg_lines = 0, lg_buf = [],
     lg_flush_bytes = 64 * 1024, lg_immediate = False, lg_cached_sec = 0, lg_cached_prefix = [],
     lg_file = [], lg_stdout = []\<rparr>"

definition flush_locked :: "access_log \<Rightarrow> access_log" where
  "flush_locked l =
     (let l = (if lg_buf l \<noteq> [] \<and> lg_file_open l then l\<lparr>lg_file := lg_file l @ lg_buf l\<rparr> else l) in
      l\<lparr>lg_buf := []\<rparr>)"

text \<open>Whether a path can be opened for appending is the file system's answer.\<close>

definition log_open :: "(bytes \<Rightarrow> bool) \<Rightarrow> bytes \<Rightarrow> bool \<Rightarrow> bool \<Rightarrow> access_log \<Rightarrow> bool \<times> access_log" where
  "log_open can_open path also_stdout immediate l =
     (let l = l\<lparr>lg_to_stdout := (also_stdout \<or> path = []), lg_immediate := immediate\<rparr> in
      if path = [] then (True, l)
      else (can_open path, l\<lparr>lg_file_open := can_open path\<rparr>))"

definition log_flush :: "access_log \<Rightarrow> access_log" where
  "log_flush l = flush_locked l"

record log_entry =
  le_client_ip :: bytes
  le_method :: bytes
  le_path :: bytes
  le_version :: bytes
  le_host :: bytes
  le_upstream :: bytes
  le_status :: int
  le_bytes :: nat
  le_cache :: bytes
  le_acl :: bytes
  le_rule :: bytes
  le_duration_us :: int

definition new_log_entry :: log_entry where
  "new_log_entry = \<lparr>le_client_ip = [], le_method = [], le_path = [], le_version = [], le_host = [],
     le_upstream = [], le_status = 0, le_bytes = 0, le_cache = ''-'', le_acl = ''-'', le_rule = [],
     le_duration_us = 0\<rparr>"

text \<open>The wall clock: seconds and nanoseconds.\<close>

type_synonym timespec = "int \<times> nat"

definition log_stamp :: "timespec \<Rightarrow> access_log \<Rightarrow> bytes \<times> access_log" where
  "log_stamp now l =
     (let l = (if fst now \<noteq> lg_cached_sec l
               then l\<lparr>lg_cached_prefix := iso_time (fst now), lg_cached_sec := fst now\<rparr> else l) in
      (lg_cached_prefix l @ ''.'' @ pad3 (snd now div 1000000) @ ''Z'', l))"

definition dash :: "bytes \<Rightarrow> bytes" where
  "dash s = (if s = [] then ''-'' else s)"

definition log_line :: "bytes \<Rightarrow> log_entry \<Rightarrow> bytes" where
  "log_line ts e = ts @ '' '' @ dash (le_client_ip e) @
     '' '' @ [DQ] @ le_method e @ '' '' @ le_path e @ '' '' @ le_version e @ [DQ] @
     '' host='' @ dash (le_host e) @ '' upstream='' @ dash (le_upstream e) @
     '' status='' @ int_str (le_status e) @ '' bytes='' @ nat_str (le_bytes e) @
     '' cache='' @ le_cache e @ '' acl='' @ le_acl e @
     '' rule='' @ [DQ] @ le_rule e @ [DQ] @ '' dur_us='' @ int_str (le_duration_us e)"

definition log_append :: "bytes \<Rightarrow> access_log \<Rightarrow> access_log" where
  "log_append line l =
     (let l = l\<lparr>lg_lines := lg_lines l + 1\<rparr>;
          l = (if lg_file_open l then
                 (let l = l\<lparr>lg_buf := lg_buf l @ line @ [LF]\<rparr> in
                  if lg_immediate l \<or> length (lg_buf l) \<ge> lg_flush_bytes l then flush_locked l else l)
               else l) in
      if lg_to_stdout l then l\<lparr>lg_stdout := lg_stdout l @ c_str line @ [LF]\<rparr> else l)"

definition log_write :: "timespec \<Rightarrow> log_entry \<Rightarrow> access_log \<Rightarrow> access_log" where
  "log_write now e l = (let (ts, l) = log_stamp now l in log_append (log_line ts e) l)"

section \<open>Every sequence of steps\<close>

datatype log_event = Stamp timespec | Append bytes | Flush

fun log_step :: "log_event \<Rightarrow> access_log \<Rightarrow> access_log" where
  "log_step (Stamp now) l = snd (log_stamp now l)"
| "log_step (Append line) l = log_append line l"
| "log_step Flush l = log_flush l"

fun appended :: "log_event list \<Rightarrow> bytes list" where
  "appended [] = []"
| "appended (Append line # ss) = line # appended ss"
| "appended (_ # ss) = appended ss"

definition text_of :: "bytes list \<Rightarrow> bytes" where
  "text_of ls = concat (map (\<lambda>l. l @ [LF]) ls)"

lemma appended_append [simp]: "appended (xs @ ys) = appended xs @ appended ys"
  by (induction xs rule: appended.induct) auto

lemma text_of_append [simp]: "text_of (xs @ ys) = text_of xs @ text_of ys" "text_of [] = []" "text_of [l] = l @ [LF]"
  by (simp_all add: text_of_def)

lemma log_stamp_frame [simp]:
  "lg_file_open (snd (log_stamp now l)) = lg_file_open l" "lg_to_stdout (snd (log_stamp now l)) = lg_to_stdout l"
  "lg_lines (snd (log_stamp now l)) = lg_lines l" "lg_buf (snd (log_stamp now l)) = lg_buf l"
  "lg_flush_bytes (snd (log_stamp now l)) = lg_flush_bytes l" "lg_immediate (snd (log_stamp now l)) = lg_immediate l"
  "lg_file (snd (log_stamp now l)) = lg_file l" "lg_stdout (snd (log_stamp now l)) = lg_stdout l"
  by (simp_all add: log_stamp_def Let_def)

lemma flush_locked_frame [simp]:
  "lg_file_open (flush_locked l) = lg_file_open l" "lg_to_stdout (flush_locked l) = lg_to_stdout l"
  "lg_lines (flush_locked l) = lg_lines l" "lg_buf (flush_locked l) = []"
  "lg_flush_bytes (flush_locked l) = lg_flush_bytes l" "lg_immediate (flush_locked l) = lg_immediate l"
  "lg_cached_sec (flush_locked l) = lg_cached_sec l" "lg_cached_prefix (flush_locked l) = lg_cached_prefix l"
  "lg_stdout (flush_locked l) = lg_stdout l"
  by (simp_all add: flush_locked_def Let_def)

lemma flush_locked_file: "lg_file_open l \<Longrightarrow> lg_file (flush_locked l) = lg_file l @ lg_buf l"
  by (simp add: flush_locked_def)

lemma log_append_frame [simp]:
  "lg_file_open (log_append line l) = lg_file_open l" "lg_to_stdout (log_append line l) = lg_to_stdout l"
  "lg_lines (log_append line l) = lg_lines l + 1" "lg_flush_bytes (log_append line l) = lg_flush_bytes l"
  "lg_immediate (log_append line l) = lg_immediate l" "lg_cached_sec (log_append line l) = lg_cached_sec l"
  "lg_cached_prefix (log_append line l) = lg_cached_prefix l"
  "lg_stdout (log_append line l) = (if lg_to_stdout l then lg_stdout l @ c_str line @ [LF] else lg_stdout l)"
  by (simp_all add: log_append_def Let_def)

lemma log_append_file:
  "lg_file_open l \<Longrightarrow> lg_file (log_append line l) @ lg_buf (log_append line l) = lg_file l @ lg_buf l @ line @ [LF]"
  by (simp add: log_append_def Let_def flush_locked_file)

lemma appended_single: "text_of (appended (ss @ [e])) = text_of (appended ss) @ (case e of Append line \<Rightarrow> line @ [LF] | _ \<Rightarrow> [])"
  by (cases e) simp_all

text \<open>C29: Conservation of the log. Whatever steps the workers and the periodic flusher
  interleave (time stamps, appended lines, flushes), the file followed by the buffer holds
  what it held before and then every appended line, whole, once, in the order of the appends;
  standard output gets the same lines (each up to its first NUL byte, if it has one) if it is on; the counter counts them; and after a flush
  nothing is left in the buffer. A log without a file never buffers.\<close>

theorem log_conserves_lines:
  "(if lg_file_open l
    then lg_file (fold log_step ss l) @ lg_buf (fold log_step ss l) = lg_file l @ lg_buf l @ text_of (appended ss) \<and>
      lg_file (log_flush (fold log_step ss l)) = lg_file l @ lg_buf l @ text_of (appended ss)
    else lg_file (fold log_step ss l) = lg_file l) \<and>
   lg_stdout (fold log_step ss l) = lg_stdout l @ (if lg_to_stdout l then text_of (map c_str (appended ss)) else []) \<and>
   lg_lines (fold log_step ss l) = lg_lines l + of_nat (length (appended ss))"
proof -
  have frame: "lg_file_open (fold log_step ss l) = lg_file_open l \<and> lg_to_stdout (fold log_step ss l) = lg_to_stdout l"
  proof (induction ss arbitrary: l)
    case (Cons e ss)
    then show ?case by (cases e) (simp_all add: log_flush_def)
  qed simp
  have "(if lg_file_open l
    then lg_file (fold log_step ss l) @ lg_buf (fold log_step ss l) = lg_file l @ lg_buf l @ text_of (appended ss)
    else lg_file (fold log_step ss l) = lg_file l) \<and>
   lg_stdout (fold log_step ss l) = lg_stdout l @ (if lg_to_stdout l then text_of (map c_str (appended ss)) else []) \<and>
   lg_lines (fold log_step ss l) = lg_lines l + of_nat (length (appended ss))"
  proof (induction ss arbitrary: l)
    case (Cons e ss)
    show ?case using Cons.IH [of "log_step e l"]
      by (cases e) (auto simp: log_flush_def flush_locked_file log_append_file text_of_def flush_locked_def log_append_def Let_def algebra_simps)
  qed simp
  with frame flush_locked_file [of "fold log_step ss l"] show ?thesis by (simp add: log_flush_def)
qed

definition log_bounded :: "access_log \<Rightarrow> bool" where
  "log_bounded l \<longleftrightarrow> 0 < lg_flush_bytes l \<and> length (lg_buf l) < lg_flush_bytes l \<and>
     (lg_immediate l \<longrightarrow> lg_buf l = []) \<and> (\<not> lg_file_open l \<longrightarrow> lg_buf l = []) \<and>
     (lg_cached_sec l \<noteq> 0 \<longrightarrow> lg_cached_prefix l = iso_time (lg_cached_sec l))"

lemma log_bounded_step: "log_bounded l \<Longrightarrow> log_bounded (log_step e l)"
proof (cases e)
  case (Stamp now)
  assume "log_bounded l"
  with Stamp show ?thesis by (auto simp: log_bounded_def log_stamp_def Let_def)
next
  case (Append line)
  assume "log_bounded l"
  with Append show ?thesis by (auto simp: log_bounded_def log_append_def Let_def)
next
  case Flush
  assume "log_bounded l"
  with Flush show ?thesis by (auto simp: log_bounded_def log_flush_def)
qed

definition opened_log :: "(bytes \<Rightarrow> bool) \<Rightarrow> bytes \<Rightarrow> bool \<Rightarrow> bool \<Rightarrow> access_log" where
  "opened_log can_open path also_stdout immediate = snd (log_open can_open path also_stdout immediate new_access_log)"

lemma opened_log_bounded: "log_bounded (opened_log can_open path o_std imm)"
  by (simp add: opened_log_def log_open_def new_access_log_def log_bounded_def Let_def)

lemma log_bounded_run: "log_bounded l \<Longrightarrow> log_bounded (fold log_step ss l)"
  by (induction ss arbitrary: l) (simp_all add: log_bounded_step)

lemma log_run_frame:
  "lg_flush_bytes (fold log_step ss l) = lg_flush_bytes l \<and> lg_immediate (fold log_step ss l) = lg_immediate l"
proof (induction ss arbitrary: l)
  case (Cons e ss)
  then show ?case by (cases e) (simp_all add: log_flush_def)
qed simp

text \<open>What is at stake in a crash. In every state the log can reach after being opened,
  less than 64 KiB of lines wait in memory, in immediate mode (the audit trail) none ever
  does, and a log that only goes to standard output buffers nothing.\<close>

theorem log_buffer_bounded:
  "length (lg_buf (fold log_step ss (opened_log can_open path also_stdout immediate))) < 65536 \<and>
   (if immediate \<or> path = [] then lg_buf (fold log_step ss (opened_log can_open path also_stdout immediate)) = [] else True)"
proof -
  let ?l = "opened_log can_open path also_stdout immediate"
  have b: "log_bounded (fold log_step ss ?l)" by (intro log_bounded_run opened_log_bounded)
  have open_frame: "lg_file_open (fold log_step ss l) = lg_file_open l" for l
  proof (induction ss arbitrary: l)
    case (Cons e ss)
    then show ?case by (cases e) (simp_all add: log_flush_def)
  qed simp
  have "lg_flush_bytes ?l = 65536" "lg_immediate ?l = immediate" "path = [] \<Longrightarrow> \<not> lg_file_open ?l"
    by (simp_all add: opened_log_def log_open_def new_access_log_def Let_def)
  with b log_run_frame [of ss ?l] open_frame [of ?l] show ?thesis by (auto simp: log_bounded_def)
qed

text \<open>The cached time prefix is never stale. After any steps, a write at a time other
  than the epoch itself appends the line whose stamp is the UTC date and time of that moment,
  although the date is only computed when the second changes.\<close>

theorem log_stamp_exact:
  assumes "fst now \<noteq> 0"
  shows "log_write now e (fold log_step ss (opened_log can_open path also_stdout immediate)) =
    log_append (log_line (iso_time (fst now) @ ''.'' @ pad3 (snd now div 1000000) @ ''Z'') e)
      (log_step (Stamp now) (fold log_step ss (opened_log can_open path also_stdout immediate)))"
proof -
  let ?l = "fold log_step ss (opened_log can_open path also_stdout immediate)"
  have "log_bounded ?l" by (intro log_bounded_run opened_log_bounded)
  with assms have "fst (log_stamp now ?l) = iso_time (fst now) @ ''.'' @ pad3 (snd now div 1000000) @ ''Z''"
    by (auto simp: log_stamp_def Let_def log_bounded_def)
  then show ?thesis by (simp add: log_write_def split_beta)
qed

end
