(* ===== verification/Cache_Contract.thy ===== *)
theory Cache_Contract
  imports Prelude
begin

text \<open>
  What the server relies on when it uses a cache of \<open>src/lru_cache.hpp\<close>, whichever of the
  two it is: the locale \<open>cache\<close>. Every operation of the code runs under one lock, so
  whatever the threads do is some sequence of whole operations; the lemmas of the locale are
  about every such sequence. A cache may forget at any time, but it never answers with a
  value other than the latest one stored.
\<close>

section \<open>Operations and what they should leave behind\<close>

datatype ('k, 'v) cache_op = Get 'k | Put 'k 'v | Erase 'k

text \<open>The value a map that never forgets would hold for a key after the operations.\<close>

fun latest :: "('k, 'v) cache_op list \<Rightarrow> 'k \<Rightarrow> 'v option \<Rightarrow> 'v option" where
  "latest [] k v = v"
| "latest (Get k' # ops) k v = latest ops k v"
| "latest (Put k' w # ops) k v = latest ops k (if k' = k then Some w else v)"
| "latest (Erase k' # ops) k v = latest ops k (if k' = k then None else v)"

lemma latest_append: "latest (xs @ ys) k v = latest ys k (latest xs k v)"
  by (induction xs k v rule: latest.induct) auto

lemma latest_source:
  "latest ops k v = Some w \<Longrightarrow> v = Some w \<or> Put k w \<in> set ops"
  by (induction ops k v rule: latest.induct) (auto split: if_splits)

section \<open>The contract\<close>

locale cache =
  fixes ok :: "'c \<Rightarrow> bool"
    and look :: "'c \<Rightarrow> 'k \<Rightarrow> 'v option"
    and get :: "'c \<Rightarrow> 'k \<Rightarrow> 'v option \<times> 'c"
    and put :: "'c \<Rightarrow> 'k \<Rightarrow> 'v \<Rightarrow> 'c"
    and erase :: "'c \<Rightarrow> 'k \<Rightarrow> bool \<times> 'c"
  assumes ok_get: "ok c \<Longrightarrow> ok (snd (get c k))"
    and ok_put: "ok c \<Longrightarrow> ok (put c k v)"
    and ok_erase: "ok c \<Longrightarrow> ok (snd (erase c k))"
    and get_answer: "ok c \<Longrightarrow> fst (get c k) = look c k"
    and look_get: "ok c \<Longrightarrow> look (snd (get c k)) k' = look c k'"
    and look_put_same: "ok c \<Longrightarrow> look (put c k v) k = Some v"
    and look_put_other: "ok c \<Longrightarrow> k' \<noteq> k \<Longrightarrow> look (put c k v) k' \<in> {None, look c k'}"
    and look_erase: "ok c \<Longrightarrow> look (snd (erase c k)) k' = (if k' = k then None else look c k')"
    and erase_answer: "ok c \<Longrightarrow> fst (erase c k) = (look c k \<noteq> None)"
begin

fun apply_op :: "('k, 'v) cache_op \<Rightarrow> 'c \<Rightarrow> 'c" where
  "apply_op (Get k) c = snd (get c k)"
| "apply_op (Put k v) c = put c k v"
| "apply_op (Erase k) c = snd (erase c k)"

abbreviation run :: "('k, 'v) cache_op list \<Rightarrow> 'c \<Rightarrow> 'c" where
  "run ops c \<equiv> fold apply_op ops c"

lemma ok_apply: "ok c \<Longrightarrow> ok (apply_op a c)"
  by (cases a) (simp_all add: ok_get ok_put ok_erase)

lemma ok_run: "ok c \<Longrightarrow> ok (run ops c)"
  by (induction ops arbitrary: c) (simp_all add: ok_apply)

lemma look_apply: "ok c \<Longrightarrow> look (apply_op a c) k \<in> {None, latest [a] k (look c k)}"
  using look_put_other [of c k] by (cases a) (auto simp: look_get look_put_same look_erase)

text \<open>Never stale: an answer is the latest value stored and not erased since.\<close>

lemma coherent_gen:
  "ok c \<Longrightarrow> look c k \<in> {None, v} \<Longrightarrow> look (run ops c) k \<in> {None, latest ops k v}"
proof (induction ops arbitrary: c v)
  case Nil
  then show ?case by simp
next
  case (Cons a ops)
  have "look (apply_op a c) k \<in> {None, latest [a] k v}"
    using look_apply [OF Cons.prems(1), of a k] Cons.prems(2) by (cases a) auto
  from Cons.IH [OF ok_apply [OF Cons.prems(1)] this]
  show ?case using latest_append [of "[a]" ops k v] by simp
qed

lemma coherent: "ok c \<Longrightarrow> look (run ops c) k = Some v \<Longrightarrow> latest ops k (look c k) = Some v"
  using coherent_gen [of c k "look c k" ops] by auto

text \<open>A property of everything stored is a property of everything ever answered.\<close>

lemma sound:
  assumes "ok c" "\<And>k v. look c k = Some v \<Longrightarrow> P k v" "\<And>k v. Put k v \<in> set ops \<Longrightarrow> P k v"
    and "fst (get (run ops c) k) = Some v"
  shows "P k v"
proof -
  have "look (run ops c) k = Some v" using get_answer [OF ok_run [OF assms(1)]] assms(4) by simp
  from latest_source [OF coherent [OF assms(1) this]] assms(2,3) show ?thesis by blast
qed

lemma put_then_get: "ok c \<Longrightarrow> fst (get (put c k v) k) = Some v"
  by (simp add: get_answer ok_put look_put_same)

end

end
