(* ===== verification/Lru_Cache.thy ===== *)
theory Lru_Cache
  imports Cache_Contract Complex_Main
begin

text \<open>
  \<open>LRUCache\<close> of \<open>src/lru_cache.hpp\<close>. A list node keeps its identity: the index maps a
  key to the identity of its node, as the code's map holds an iterator into the list, and an
  operation reads and moves the node through it. The invariant ties the two structures
  together; under it the cache refines a bounded list of pairs in order of use, which is what
  ``exact LRU'' means. Every method holds the mutex throughout, so it is one step.
\<close>

section \<open>The data\<close>

record ('k, 'v) node =
  node_id :: nat
  node_key :: 'k
  node_val :: 'v

record ('k, 'v) lru =
  lru_capacity :: u64
  lru_items :: "('k, 'v) node list"
  lru_index :: "'k \<rightharpoonup> nat"
  lru_next :: nat
  lru_hits :: u64
  lru_misses :: u64
  lru_evictions :: u64

definition new_lru :: "u64 \<Rightarrow> ('k, 'v) lru" where
  "new_lru cap = \<lparr>lru_capacity = (if cap = 0 then 1 else cap), lru_items = [], lru_index = Map.empty,
     lru_next = 0, lru_hits = 0, lru_misses = 0, lru_evictions = 0\<rparr>"

text \<open>The node an iterator points at, and the list operations that take one.\<close>

definition deref :: "('k, 'v) node list \<Rightarrow> nat \<Rightarrow> ('k, 'v) node option" where
  "deref items n = find (\<lambda>x. node_id x = n) items"

definition unlink :: "('k, 'v) node list \<Rightarrow> nat \<Rightarrow> ('k, 'v) node list" where
  "unlink items n = filter (\<lambda>x. node_id x \<noteq> n) items"

definition splice_front :: "('k, 'v) node list \<Rightarrow> nat \<Rightarrow> ('k, 'v) node list" where
  "splice_front items n = (case deref items n of None \<Rightarrow> items | Some x \<Rightarrow> x # unlink items n)"

definition assign_val :: "('k, 'v) node list \<Rightarrow> nat \<Rightarrow> 'v \<Rightarrow> ('k, 'v) node list" where
  "assign_val items n v = map (\<lambda>x. if node_id x = n then x\<lparr>node_val := v\<rparr> else x) items"

section \<open>The operations\<close>

definition lru_get :: "('k, 'v) lru \<Rightarrow> 'k \<Rightarrow> 'v option \<times> ('k, 'v) lru" where
  "lru_get c k = (case lru_index c k of
     None \<Rightarrow> (None, c\<lparr>lru_misses := lru_misses c + 1\<rparr>)
   | Some n \<Rightarrow>
       let items = splice_front (lru_items c) n in
       (map_option node_val (deref items n), c\<lparr>lru_hits := lru_hits c + 1, lru_items := items\<rparr>))"

definition evict_if_full :: "('k, 'v) lru \<Rightarrow> ('k, 'v) lru" where
  "evict_if_full c = (if length (lru_items c) \<ge> unat (lru_capacity c)
     then c\<lparr>lru_index := (lru_index c)(node_key (last (lru_items c)) := None),
            lru_items := butlast (lru_items c), lru_evictions := lru_evictions c + 1\<rparr>
     else c)"

definition push_front :: "('k, 'v) lru \<Rightarrow> 'k \<Rightarrow> 'v \<Rightarrow> ('k, 'v) lru" where
  "push_front c k v = c\<lparr>lru_items := \<lparr>node_id = lru_next c, node_key = k, node_val = v\<rparr> # lru_items c,
     lru_index := (lru_index c)(k \<mapsto> lru_next c), lru_next := lru_next c + 1\<rparr>"

definition lru_put :: "('k, 'v) lru \<Rightarrow> 'k \<Rightarrow> 'v \<Rightarrow> ('k, 'v) lru" where
  "lru_put c k v = (case lru_index c k of
     Some n \<Rightarrow> c\<lparr>lru_items := splice_front (assign_val (lru_items c) n v) n\<rparr>
   | None \<Rightarrow> push_front (evict_if_full c) k v)"

definition lru_erase :: "('k, 'v) lru \<Rightarrow> 'k \<Rightarrow> bool \<times> ('k, 'v) lru" where
  "lru_erase c k = (case lru_index c k of
     None \<Rightarrow> (False, c)
   | Some n \<Rightarrow> (True, c\<lparr>lru_items := unlink (lru_items c) n, lru_index := (lru_index c)(k := None)\<rparr>))"

definition lru_size :: "('k, 'v) lru \<Rightarrow> nat" where
  "lru_size c = length (lru_items c)"

text \<open>The hit rate is the rational number that the code's \<open>double\<close> approximates.\<close>

record cache_stats =
  cs_hits :: u64
  cs_misses :: u64
  cs_evictions :: u64
  cs_size :: u64
  cs_hit_rate_pct :: rat

definition hit_rate :: "u64 \<Rightarrow> u64 \<Rightarrow> rat" where
  "hit_rate hits misses = (let total = hits + misses in
     if total \<noteq> 0 then of_nat (unat hits) / of_nat (unat total) * 100 else 0)"

definition lru_stats :: "('k, 'v) lru \<Rightarrow> cache_stats" where
  "lru_stats c = \<lparr>cs_hits = lru_hits c, cs_misses = lru_misses c, cs_evictions = lru_evictions c,
     cs_size = of_nat (length (lru_items c)), cs_hit_rate_pct = hit_rate (lru_hits c) (lru_misses c)\<rparr>"

definition lru_reset :: "('k, 'v) lru \<Rightarrow> ('k, 'v) lru" where
  "lru_reset c = c\<lparr>lru_items := [], lru_index := Map.empty, lru_hits := 0, lru_misses := 0, lru_evictions := 0\<rparr>"

section \<open>The invariant\<close>

definition lru_ok :: "('k, 'v) lru \<Rightarrow> bool" where
  "lru_ok c \<longleftrightarrow> distinct (map node_id (lru_items c)) \<and> distinct (map node_key (lru_items c)) \<and>
     (\<forall>k n. lru_index c k = Some n \<longleftrightarrow> (\<exists>x \<in> set (lru_items c). node_key x = k \<and> node_id x = n)) \<and>
     (\<forall>x \<in> set (lru_items c). node_id x < lru_next c) \<and>
     length (lru_items c) \<le> unat (lru_capacity c) \<and> 1 \<le> unat (lru_capacity c)"

text \<open>The abstract contents, most recently used first.\<close>

definition pair_of :: "('k, 'v) node \<Rightarrow> 'k \<times> 'v" where
  "pair_of x = (node_key x, node_val x)"

definition contents :: "('k, 'v) lru \<Rightarrow> ('k \<times> 'v) list" where
  "contents c = map pair_of (lru_items c)"

definition lru_look :: "('k, 'v) lru \<Rightarrow> 'k \<Rightarrow> 'v option" where
  "lru_look c k = map_of (contents c) k"

lemma fst_pair_of [simp]: "fst (pair_of x) = node_key x" "fst \<circ> pair_of = node_key"
  by (auto simp: pair_of_def)

lemma contents_new [simp]: "contents (new_lru cap) = []"
  by (simp add: contents_def new_lru_def)

lemma lru_ok_new [simp]: "lru_ok (new_lru cap)"
proof (cases "cap = 0")
  case False
  then have "0 < unat cap" by (simp add: unat_gt_0)
  with False show ?thesis by (simp add: lru_ok_def new_lru_def)
qed (simp add: lru_ok_def new_lru_def)

lemma deref_iff:
  "distinct (map node_id items) \<Longrightarrow> deref items n = Some x \<longleftrightarrow> x \<in> set items \<and> node_id x = n"
  by (induction items) (auto simp: deref_def image_iff)

lemma index_deref:
  assumes "lru_ok c" "lru_index c k = Some n"
  obtains x where "deref (lru_items c) n = Some x" "x \<in> set (lru_items c)" "node_key x = k" "node_id x = n"
proof -
  from assms obtain x where "x \<in> set (lru_items c)" "node_key x = k" "node_id x = n"
    unfolding lru_ok_def by blast
  with assms(1) that [of x] show thesis by (auto simp: lru_ok_def deref_iff)
qed

lemma index_None_iff: "lru_ok c \<Longrightarrow> lru_index c k = None \<longleftrightarrow> k \<notin> node_key ` set (lru_items c)"
proof -
  assume "lru_ok c"
  then have "\<forall>n. lru_index c k = Some n \<longleftrightarrow> (\<exists>x \<in> set (lru_items c). node_key x = k \<and> node_id x = n)"
    unfolding lru_ok_def by blast
  then show ?thesis by (cases "lru_index c k") auto
qed

text \<open>Under the invariant the node of a key is the only node with that key or identity, so
  acting on the node is acting on the key.\<close>

lemma same_node:
  assumes "lru_ok c" "x \<in> set (lru_items c)" "y \<in> set (lru_items c)"
  shows "node_id x = node_id y \<longleftrightarrow> node_key x = node_key y"
  using assms by (auto simp: lru_ok_def distinct_map inj_on_def)

lemma unlink_key:
  assumes "lru_ok c" "x \<in> set (lru_items c)"
  shows "unlink (lru_items c) (node_id x) = filter (\<lambda>y. node_key y \<noteq> node_key x) (lru_items c)"
  unfolding unlink_def using same_node [OF assms(1)] assms(2) by (intro filter_cong) auto

lemma map_of_contents:
  "lru_ok c \<Longrightarrow> lru_look c k = Some v \<longleftrightarrow> (\<exists>x \<in> set (lru_items c). node_key x = k \<and> node_val x = v)"
proof -
  assume "lru_ok c"
  then have "distinct (map fst (contents c))" by (simp add: lru_ok_def contents_def)
  then show ?thesis by (auto simp: lru_look_def contents_def pair_of_def)
qed

lemma look_None_iff: "lru_look c k = None \<longleftrightarrow> k \<notin> node_key ` set (lru_items c)"
  by (simp add: lru_look_def contents_def map_of_eq_None_iff image_image)

section \<open>Refinement to a bounded list in order of use\<close>

definition touch :: "'k \<Rightarrow> 'v \<Rightarrow> ('k \<times> 'v) list \<Rightarrow> ('k \<times> 'v) list" where
  "touch k v xs = (k, v) # filter (\<lambda>p. fst p \<noteq> k) xs"

lemma contents_filter: "map pair_of (filter (\<lambda>x. node_key x \<noteq> k) xs) = filter (\<lambda>p. fst p \<noteq> k) (map pair_of xs)"
  by (induction xs) auto

lemma splice_front_node:
  assumes "lru_ok c" "x \<in> set (lru_items c)"
  shows "splice_front (lru_items c) (node_id x) = x # filter (\<lambda>y. node_key y \<noteq> node_key x) (lru_items c)"
proof -
  have "deref (lru_items c) (node_id x) = Some x" using assms by (simp add: deref_iff lru_ok_def)
  then show ?thesis by (simp add: splice_front_def unlink_key [OF assms])
qed

text \<open>The invariant only depends on the identities and keys of the nodes.\<close>

definition keyed :: "('k, 'v) node list \<Rightarrow> (nat \<times> 'k) list" where
  "keyed items = map (\<lambda>x. (node_id x, node_key x)) items"

definition keyed_ok :: "(nat \<times> 'k) list \<Rightarrow> ('k \<rightharpoonup> nat) \<Rightarrow> nat \<Rightarrow> nat \<Rightarrow> bool" where
  "keyed_ok ps index next_id cap \<longleftrightarrow> distinct (map fst ps) \<and> distinct (map snd ps) \<and>
     (\<forall>k n. index k = Some n \<longleftrightarrow> (n, k) \<in> set ps) \<and> (\<forall>p \<in> set ps. fst p < next_id) \<and> length ps \<le> cap \<and> 1 \<le> cap"

lemma lru_ok_keyed:
  "lru_ok c \<longleftrightarrow> keyed_ok (keyed (lru_items c)) (lru_index c) (lru_next c) (unat (lru_capacity c))"
proof -
  have "map fst (keyed (lru_items c)) = map node_id (lru_items c)"
    "map snd (keyed (lru_items c)) = map node_key (lru_items c)" by (simp_all add: keyed_def)
  moreover have "(n, k) \<in> set (keyed (lru_items c)) \<longleftrightarrow> (\<exists>x \<in> set (lru_items c). node_key x = k \<and> node_id x = n)" for n k
    by (auto simp: keyed_def)
  moreover have "(\<forall>p \<in> set (keyed (lru_items c)). fst p < lru_next c) \<longleftrightarrow> (\<forall>x \<in> set (lru_items c). node_id x < lru_next c)"
    "length (keyed (lru_items c)) = length (lru_items c)" by (simp_all add: keyed_def)
  ultimately show ?thesis unfolding lru_ok_def keyed_ok_def by presburger
qed

lemma keyed_assign: "keyed (assign_val items n v) = keyed items"
  by (induction items) (auto simp: keyed_def assign_val_def)

lemma keyed_filter: "keyed (filter (\<lambda>x. node_key x \<noteq> k) items) = filter (\<lambda>p. snd p \<noteq> k) (keyed items)"
  by (induction items) (auto simp: keyed_def)

lemma keyed_ok_remove:
  assumes "keyed_ok ps index m cap"
  shows "keyed_ok (filter (\<lambda>p. snd p \<noteq> k) ps) (index(k := None)) m cap"
  using assms le_trans [OF length_filter_le [of "\<lambda>p. snd p \<noteq> k" ps]]
  by (auto simp: keyed_ok_def distinct_map_fst_filter)

lemma keyed_ok_front:
  assumes "keyed_ok ps index m cap" "k \<notin> snd ` set ps" "length ps < cap" "n \<notin> fst ` set ps" "n < m'" "m \<le> m'"
  shows "keyed_ok ((n, k) # ps) (index(k \<mapsto> n)) m' cap"
proof -
  have "(\<forall>j i. (index(k \<mapsto> n)) j = Some i \<longleftrightarrow> (i, j) \<in> set ((n, k) # ps))"
    using assms(1,2) by (auto simp: keyed_ok_def image_iff)
  moreover have "\<forall>p \<in> set ((n, k) # ps). fst p < m'" using assms by (auto simp: keyed_ok_def)
  ultimately show ?thesis using assms by (simp add: keyed_ok_def)
qed

lemma assign_val_ok:
  "lru_ok c \<Longrightarrow> lru_ok (c\<lparr>lru_items := assign_val (lru_items c) n v\<rparr>)"
  by (simp add: lru_ok_keyed keyed_assign)

text \<open>Moving a node to the front keeps the invariant.\<close>

lemma keyed_ok_splice:
  assumes "keyed_ok ps index m cap" "(n, k) \<in> set ps"
  shows "keyed_ok ((n, k) # filter (\<lambda>p. snd p \<noteq> k) ps) index m cap"
proof -
  let ?qs = "filter (\<lambda>p. snd p \<noteq> k) ps"
  have i: "index k = Some n" and nm: "n < m" using assms by (auto simp: keyed_ok_def)
  have "length ?qs < length ps" using assms(2) by (intro length_filter_less) auto
  then have l: "length ?qs < cap" using assms(1) by (simp add: keyed_ok_def)
  have "p = (n, k)" if "p \<in> set ps" "fst p = n" for p
    using assms that eq_key_imp_eq_value [of ps n "snd p" k] by (cases p) (auto simp: keyed_ok_def)
  then have "n \<notin> fst ` set ?qs" by fastforce
  have "k \<notin> snd ` set ?qs" by auto
  from keyed_ok_front [OF keyed_ok_remove [OF assms(1), of k] this l \<open>n \<notin> fst ` set ?qs\<close> nm order_refl] i
  show ?thesis by (simp add: fun_upd_idem)
qed

lemma splice_ok:
  assumes "lru_ok c" "x \<in> set (lru_items c)"
  shows "lru_ok (c\<lparr>lru_items := splice_front (lru_items c) (node_id x)\<rparr>)"
proof -
  have "(node_id x, node_key x) \<in> set (keyed (lru_items c))" using assms(2) by (auto simp: keyed_def)
  from keyed_ok_splice [OF assms(1) [unfolded lru_ok_keyed] this]
  show ?thesis by (simp add: lru_ok_keyed splice_front_node [OF assms] keyed_filter [symmetric]) (simp add: keyed_def)
qed

lemma lru_get_cases:
  assumes "lru_ok c"
  obtains (miss) "lru_look c k = None" "lru_get c k = (None, c\<lparr>lru_misses := lru_misses c + 1\<rparr>)"
  | (hit) x where "x \<in> set (lru_items c)" "node_key x = k" "lru_look c k = Some (node_val x)"
      "lru_get c k = (Some (node_val x),
         c\<lparr>lru_hits := lru_hits c + 1, lru_items := splice_front (lru_items c) (node_id x)\<rparr>)"
proof (cases "lru_index c k")
  case None
  with index_None_iff [OF assms] have "lru_look c k = None" by (simp add: look_None_iff)
  with None show thesis by (intro miss) (simp_all add: lru_get_def)
next
  case (Some n)
  obtain x where x: "deref (lru_items c) n = Some x" "x \<in> set (lru_items c)" "node_key x = k" "node_id x = n"
    by (rule index_deref [OF assms Some])
  have "lru_look c k = Some (node_val x)" using x map_of_contents [OF assms] by blast
  moreover have "deref (splice_front (lru_items c) n) n = Some x"
    using x splice_front_node [OF assms x(2)] by (simp add: deref_def)
  ultimately show thesis using x Some by (intro hit [of x]) (simp_all add: lru_get_def Let_def)
qed

lemma lru_ok_counters [simp]:
  "lru_ok (c\<lparr>lru_hits := h\<rparr>) = lru_ok c" "lru_ok (c\<lparr>lru_misses := h\<rparr>) = lru_ok c"
  "lru_ok (c\<lparr>lru_evictions := h\<rparr>) = lru_ok c" "lru_ok (c\<lparr>lru_hits := h, lru_items := xs\<rparr>) = lru_ok (c\<lparr>lru_items := xs\<rparr>)"
  by (simp_all add: lru_ok_keyed)

lemma lru_get_ok:
  assumes "lru_ok c" shows "lru_ok (snd (lru_get c k))"
  by (rule lru_get_cases [OF assms, of k]) (simp_all add: assms splice_ok)

lemma contents_splice:
  "lru_ok c \<Longrightarrow> x \<in> set (lru_items c) \<Longrightarrow>
     map pair_of (splice_front (lru_items c) (node_id x)) = touch (node_key x) (node_val x) (contents c)"
  by (simp add: splice_front_node contents_filter contents_def touch_def pair_of_def [of x])

lemma lru_get_refines [cache_laws]:
  assumes "lru_ok c"
  shows "fst (lru_get c k) = lru_look c k"
    "contents (snd (lru_get c k)) = (case lru_look c k of None \<Rightarrow> contents c | Some v \<Rightarrow> touch k v (contents c))"
    "lru_capacity (snd (lru_get c k)) = lru_capacity c"
proof (atomize (full), cases rule: lru_get_cases [OF assms, of k])
  case 1
  then show "fst (lru_get c k) = lru_look c k \<and>
    contents (snd (lru_get c k)) = (case lru_look c k of None \<Rightarrow> contents c | Some v \<Rightarrow> touch k v (contents c)) \<and>
    lru_capacity (snd (lru_get c k)) = lru_capacity c" by (simp add: contents_def)
next
  case (2 x)
  with contents_splice [OF assms 2(1)] show "fst (lru_get c k) = lru_look c k \<and>
    contents (snd (lru_get c k)) = (case lru_look c k of None \<Rightarrow> contents c | Some v \<Rightarrow> touch k v (contents c)) \<and>
    lru_capacity (snd (lru_get c k)) = lru_capacity c" by (simp add: contents_def)
qed

lemma filter_not_in: "k \<notin> fst ` set xs \<Longrightarrow> filter (\<lambda>p. fst p \<noteq> k) xs = xs"
  by (intro filter_id_if_all) auto

lemma contents_keys: "fst ` set (contents c) = node_key ` set (lru_items c)"
  by (simp add: contents_def image_image)

lemma length_contents [simp]: "length (contents c) = length (lru_items c)"
  by (simp add: contents_def)

lemma evict_ok:
  assumes "lru_ok c"
  shows "lru_ok (evict_if_full c)" "length (lru_items (evict_if_full c)) < unat (lru_capacity c)"
    "contents (evict_if_full c) = take (unat (lru_capacity c) - 1) (contents c)"
    "lru_capacity (evict_if_full c) = lru_capacity c" "lru_next (evict_if_full c) = lru_next c"
proof -
  let ?xs = "lru_items c"
  have cap: "length ?xs \<le> unat (lru_capacity c)" "1 \<le> unat (lru_capacity c)" using assms by (auto simp: lru_ok_def)
  show "lru_ok (evict_if_full c)"
  proof (cases "length ?xs \<ge> unat (lru_capacity c)")
    case True
    with cap have ne: "?xs \<noteq> []" by auto
    then obtain ys y where xs: "?xs = ys @ [y]" by (metis append_butlast_last_id)
    have "keyed ?xs = keyed ys @ [(node_id y, node_key y)]" by (simp add: xs keyed_def)
    moreover from this assms have "node_key y \<notin> snd ` set (keyed ys)"
      by (auto simp: lru_ok_keyed keyed_ok_def)
    ultimately have "filter (\<lambda>p. snd p \<noteq> node_key y) (keyed ?xs) = keyed ys"
      using filter_id_if_all [of "keyed ys" "\<lambda>p. snd p \<noteq> node_key y"] by force
    with keyed_ok_remove [OF assms [unfolded lru_ok_keyed], of "node_key y"] True xs
    show ?thesis by (simp add: evict_if_full_def lru_ok_keyed)
  qed (use assms in \<open>simp add: evict_if_full_def\<close>)
  show "length (lru_items (evict_if_full c)) < unat (lru_capacity c)"
    using cap by (auto simp: evict_if_full_def)
  show "contents (evict_if_full c) = take (unat (lru_capacity c) - 1) (contents c)"
    using cap by (auto simp: evict_if_full_def contents_def map_butlast butlast_conv_take take_map)
qed (simp_all add: evict_if_full_def)

lemma look_evict:
  "lru_ok c \<Longrightarrow> k \<notin> node_key ` set (lru_items c) \<Longrightarrow> k \<notin> node_key ` set (lru_items (evict_if_full c))"
  by (auto simp: evict_if_full_def dest: in_set_butlastD)

lemma lru_put_cases:
  assumes "lru_ok c"
  obtains (new) "lru_look c k = None" "lru_put c k v = push_front (evict_if_full c) k v"
  | (old) y where "y \<in> set (lru_items c)" "node_key y = k"
      "y\<lparr>node_val := v\<rparr> \<in> set (assign_val (lru_items c) (node_id y) v)"
      "lru_put c k v = c\<lparr>lru_items := splice_front (assign_val (lru_items c) (node_id y) v) (node_id y)\<rparr>"
proof (cases "lru_index c k")
  case None
  with index_None_iff [OF assms, of k] have "lru_look c k = None" by (simp add: look_None_iff)
  then show thesis using None by (intro new) (simp_all add: lru_put_def)
next
  case (Some n)
  obtain x where x: "deref (lru_items c) n = Some x" "x \<in> set (lru_items c)" "node_key x = k" "node_id x = n"
    by (rule index_deref [OF assms Some])
  then have "x\<lparr>node_val := v\<rparr> \<in> set (assign_val (lru_items c) n v)" by (force simp: assign_val_def)
  with x Some show thesis by (intro old [of x]) (auto simp: lru_put_def)
qed

lemma push_front_ok:
  assumes "lru_ok c" "k \<notin> node_key ` set (lru_items c)" "length (lru_items c) < unat (lru_capacity c)"
  shows "lru_ok (push_front c k v)"
proof -
  let ?ps = "keyed (lru_items c)"
  have "k \<notin> snd ` set ?ps" "length ?ps < unat (lru_capacity c)" using assms(2,3) by (auto simp: keyed_def)
  moreover have "lru_next c \<notin> fst ` set ?ps" using assms(1) by (auto simp: lru_ok_keyed keyed_ok_def)
  ultimately have "keyed_ok ((lru_next c, k) # ?ps) ((lru_index c)(k \<mapsto> lru_next c)) (lru_next c + 1) (unat (lru_capacity c))"
    using assms(1) by (intro keyed_ok_front) (auto simp: lru_ok_keyed)
  then show ?thesis by (simp add: push_front_def lru_ok_keyed keyed_def)
qed

lemma lru_put_ok:
  assumes "lru_ok c" shows "lru_ok (lru_put c k v)"
proof (cases rule: lru_put_cases [OF assms, of k v])
  case 1
  then have "k \<notin> node_key ` set (lru_items c)" by (simp add: look_None_iff)
  from push_front_ok [OF evict_ok(1) [OF assms] look_evict [OF assms this]] 1 evict_ok(2,4) [OF assms]
  show ?thesis by simp
next
  case (2 y)
  with splice_ok [OF assign_val_ok [OF assms, of "node_id y" v], of "y\<lparr>node_val := v\<rparr>"] show ?thesis by simp
qed

lemma filter_assign_val:
  assumes "lru_ok c" "y \<in> set (lru_items c)"
  shows "filter (\<lambda>p. fst p \<noteq> node_key y) (map pair_of (assign_val (lru_items c) (node_id y) v)) =
    filter (\<lambda>p. fst p \<noteq> node_key y) (contents c)"
proof -
  have "filter (\<lambda>x. node_key x \<noteq> node_key y) (assign_val xs (node_id y) v) = filter (\<lambda>x. node_key x \<noteq> node_key y) xs"
    if "set xs \<subseteq> set (lru_items c)" for xs
    using that
  proof (induction xs)
    case (Cons x xs)
    then show ?case using same_node [OF assms(1) _ assms(2), of x] by (auto simp: assign_val_def)
  qed (simp add: assign_val_def)
  from this [OF order_refl] show ?thesis by (simp add: contents_def contents_filter [symmetric])
qed

text \<open>Storing is: to the front with the pair, then cut to the capacity.\<close>

lemma lru_put_refines [cache_laws]:
  assumes "lru_ok c"
  shows "contents (lru_put c k v) = take (unat (lru_capacity c)) (touch k v (contents c))"
    "lru_capacity (lru_put c k v) = lru_capacity c"
proof (atomize (full), cases rule: lru_put_cases [OF assms, of k v])
  case 1
  have cap: "1 \<le> unat (lru_capacity c)" using assms by (simp add: lru_ok_def)
  then obtain n where n: "unat (lru_capacity c) = Suc n" by (cases "unat (lru_capacity c)") auto
  have "k \<notin> fst ` set (contents c)" using 1 by (simp add: look_None_iff contents_keys)
  then have "touch k v (contents c) = (k, v) # contents c" by (simp add: touch_def filter_not_in)
  moreover have "contents (push_front d k v) = (k, v) # contents d" for d :: "('a, 'b) lru"
    by (simp add: contents_def push_front_def pair_of_def)
  ultimately show "contents (lru_put c k v) = take (unat (lru_capacity c)) (touch k v (contents c)) \<and>
      lru_capacity (lru_put c k v) = lru_capacity c"
    using 1 evict_ok(3,4) [OF assms] n by (simp add: push_front_def)
next
  case (2 y)
  let ?d = "c\<lparr>lru_items := assign_val (lru_items c) (node_id y) v\<rparr>"
  have "map pair_of (splice_front (assign_val (lru_items c) (node_id y) v) (node_id y)) = touch k v (contents ?d)"
    using contents_splice [OF assign_val_ok [OF assms], of "y\<lparr>node_val := v\<rparr>" "node_id y" v] 2 by simp
  also have "\<dots> = touch k v (contents c)"
    using filter_assign_val [OF assms 2(1), of v] 2 by (simp add: touch_def contents_def)
  finally have t: "contents (lru_put c k v) = touch k v (contents c)" using 2 by (simp add: contents_def)
  have "length (touch k v (contents c)) = length (lru_items (lru_put c k v))"
    unfolding t [symmetric] by simp
  moreover have "length (lru_items (lru_put c k v)) \<le> unat (lru_capacity (lru_put c k v))"
    using lru_put_ok [OF assms, of k v] by (simp add: lru_ok_def)
  ultimately show "contents (lru_put c k v) = take (unat (lru_capacity c)) (touch k v (contents c)) \<and>
      lru_capacity (lru_put c k v) = lru_capacity c" using t 2 by simp
qed

lemma lru_erase_all:
  assumes "lru_ok c"
  shows "lru_ok (snd (lru_erase c k)) \<and> fst (lru_erase c k) = (lru_look c k \<noteq> None) \<and>
      contents (snd (lru_erase c k)) = filter (\<lambda>p. fst p \<noteq> k) (contents c) \<and>
      lru_capacity (snd (lru_erase c k)) = lru_capacity c"
proof (cases "lru_index c k")
  case None
  with index_None_iff [OF assms, of k] have k: "k \<notin> node_key ` set (lru_items c)" by simp
  with None show ?thesis
    using assms by (simp add: lru_erase_def look_None_iff filter_not_in contents_keys)
next
  case (Some n)
  obtain x where x: "deref (lru_items c) n = Some x" "x \<in> set (lru_items c)" "node_key x = k" "node_id x = n"
    by (rule index_deref [OF assms Some])
  have u: "unlink (lru_items c) n = filter (\<lambda>y. node_key y \<noteq> k) (lru_items c)"
    using unlink_key [OF assms x(2)] x by simp
  have "lru_look c k \<noteq> None" using x by (auto simp: look_None_iff)
  moreover have "lru_ok (snd (lru_erase c k))"
    using keyed_ok_remove [OF assms [unfolded lru_ok_keyed], of k] Some
    by (simp add: lru_erase_def lru_ok_keyed u keyed_filter)
  ultimately show ?thesis
    using Some by (simp add: lru_erase_def u contents_def contents_filter)
qed

lemmas lru_erase_refines [cache_laws] =
  lru_erase_all [THEN conjunct1] lru_erase_all [THEN conjunct2, THEN conjunct1]
  lru_erase_all [THEN conjunct2, THEN conjunct2, THEN conjunct1]
  lru_erase_all [THEN conjunct2, THEN conjunct2, THEN conjunct2]

section \<open>The cache contract holds\<close>

lemma map_of_filter_neq: "map_of (filter (\<lambda>p. fst p \<noteq> k) xs) k' = (if k' = k then None else map_of xs k')"
  by (induction xs) auto

lemma map_of_touch: "map_of (touch k v xs) k' = (if k' = k then Some v else map_of xs k')"
  by (simp add: touch_def map_of_filter_neq)

lemma map_of_take:
  "distinct (map fst xs) \<Longrightarrow> map_of (take n xs) k \<in> {None, map_of xs k}"
proof (induction xs arbitrary: n)
  case (Cons p xs)
  have "map_of (take m xs) k = None" if "k = fst p" for m
    using Cons.prems that by (force simp: map_of_eq_None_iff dest: in_set_takeD)
  with Cons show ?case by (cases n) auto
qed simp

lemma distinct_touch: "distinct (map fst xs) \<Longrightarrow> distinct (map fst (touch k v xs))"
  by (auto simp: touch_def distinct_map_fst_filter)

lemma distinct_contents: "lru_ok c \<Longrightarrow> distinct (map fst (contents c))"
  by (simp add: lru_ok_def contents_def)

interpretation lru: cache lru_ok lru_look lru_get lru_put lru_erase
proof unfold_locales
  fix c :: "('k, 'v) lru" and k k' :: 'k and v :: 'v
  assume ok: "lru_ok c"
  note L = lru_get_refines [OF ok, of k] lru_put_refines [OF ok, of k v] lru_erase_refines [OF ok, of k]
  have cap: "1 \<le> unat (lru_capacity c)" using ok by (simp add: lru_ok_def)
  then obtain n where n: "unat (lru_capacity c) = Suc n" by (cases "unat (lru_capacity c)") auto
  show "lru_ok (snd (lru_get c k))" "lru_ok (lru_put c k v)" "lru_ok (snd (lru_erase c k))"
    "fst (lru_get c k) = lru_look c k" "fst (lru_erase c k) = (lru_look c k \<noteq> None)"
    using lru_get_ok [OF ok] lru_put_ok [OF ok] L by simp_all
  show "lru_look (snd (lru_get c k)) k' = lru_look c k'"
    using L(2) by (auto simp: lru_look_def map_of_touch split: option.split)
  show "lru_look (lru_put c k v) k = Some v" using L(4) n by (simp add: lru_look_def touch_def)
  show "lru_look (snd (lru_erase c k)) k' = (if k' = k then None else lru_look c k')"
    using L by (simp add: lru_look_def map_of_filter_neq)
  assume "k' \<noteq> k"
  then show "lru_look (lru_put c k v) k' \<in> {None, lru_look c k'}"
    using map_of_take [OF distinct_touch [OF distinct_contents [OF ok]], of "unat (lru_capacity c)" k v k'] L(4)
    by (simp add: lru_look_def map_of_touch)
qed

section \<open>What any history of operations does\<close>

fun lru_op :: "('k, 'v) cache_op \<Rightarrow> ('k, 'v) lru \<Rightarrow> ('k, 'v) lru" where
  "lru_op (Get k) c = snd (lru_get c k)"
| "lru_op (Put k v) c = lru_put c k v"
| "lru_op (Erase k) c = snd (lru_erase c k)"

definition lru_run :: "u64 \<Rightarrow> ('k, 'v) cache_op list \<Rightarrow> ('k, 'v) lru" where
  "lru_run cap ops = fold lru_op ops (new_lru cap)"

lemma lru_op_apply: "lru_op = lru.apply_op"
proof (intro ext)
  show "lru_op a c = lru.apply_op a c" for a :: "('k, 'v) cache_op" and c
    by (cases a) simp_all
qed

lemma lru_run_ok [simp]: "lru_ok (lru_run cap ops)"
  unfolding lru_run_def lru_op_apply by (rule lru.ok_run) simp

lemma lru_run_snoc [simp]: "lru_run cap (ops @ [a]) = lru_op a (lru_run cap ops)" "lru_run cap [] = new_lru cap"
  by (simp_all add: lru_run_def)

text \<open>The abstract cache: a list of pairs, most recently used first, never longer than the
  capacity.\<close>

fun abs_op :: "nat \<Rightarrow> ('k, 'v) cache_op \<Rightarrow> ('k \<times> 'v) list \<Rightarrow> ('k \<times> 'v) list" where
  "abs_op n (Get k) xs = (case map_of xs k of None \<Rightarrow> xs | Some v \<Rightarrow> touch k v xs)"
| "abs_op n (Put k v) xs = take n (touch k v xs)"
| "abs_op n (Erase k) xs = filter (\<lambda>p. fst p \<noteq> k) xs"

definition slots :: "u64 \<Rightarrow> nat" where
  "slots cap = (if cap = 0 then 1 else unat cap)"

lemma lru_op_refines:
  "lru_ok c \<Longrightarrow> contents (lru_op a c) = abs_op (unat (lru_capacity c)) a (contents c) \<and>
     lru_capacity (lru_op a c) = lru_capacity c"
  by (cases a) (simp_all add: cache_laws lru_look_def)

lemma lru_run_capacity: "unat (lru_capacity (lru_run cap ops)) = slots cap"
  by (induction ops rule: rev_induct) (simp_all add: lru_op_refines, simp add: new_lru_def slots_def)

text \<open>C20: Exact LRU. After any history of gets, puts and erases, the list and the index of
  the cache hold exactly the pairs of a bounded list in order of use (a hit and a put move to
  the front, a put beyond the capacity drops the back), a get answers from that list, and the
  size never exceeds the capacity.\<close>

theorem lru_simulates:
  "contents (lru_run cap ops) = fold (abs_op (slots cap)) ops [] \<and>
   fst (lru_get (lru_run cap ops) k) = map_of (fold (abs_op (slots cap)) ops []) k \<and>
   lru_size (lru_run cap ops) \<le> slots cap \<and> lru_ok (lru_run cap ops)"
proof -
  have c: "contents (lru_run cap ops) = fold (abs_op (slots cap)) ops []"
    by (induction ops rule: rev_induct)
      (simp_all add: lru_op_refines lru_run_capacity)
  moreover have "fst (lru_get (lru_run cap ops) k) = lru_look (lru_run cap ops) k"
    by (rule lru.get_answer) simp
  moreover have "lru_size (lru_run cap ops) \<le> slots cap"
    using lru_run_ok [of cap ops] lru_run_capacity [of cap ops] by (simp add: lru_ok_def lru_size_def)
  ultimately show ?thesis by (simp add: lru_look_def)
qed

text \<open>Never stale. Whatever the history, a get answers nothing or the value of the
  latest put to that key with no erase since; and directly after a put it answers that
  value, whatever had to be evicted for it.\<close>

theorem lru_never_stale:
  "fst (lru_get (lru_run cap ops) k) \<in> {None, latest ops k None} \<and>
   fst (lru_get (lru_run cap (ops @ [Put k v])) k) = Some v"
proof
  have "lru_look (fold lru.apply_op ops (new_lru cap)) k \<in> {None, latest ops k None}"
    by (rule lru.coherent_gen) (simp_all add: lru_look_def)
  then show "fst (lru_get (lru_run cap ops) k) \<in> {None, latest ops k None}"
    using lru.get_answer [OF lru_run_ok, of cap ops k] by (simp add: lru_run_def lru_op_apply)
  show "fst (lru_get (lru_run cap (ops @ [Put k v])) k) = Some v"
    using lru.put_then_get [OF lru_run_ok, of cap ops k v] by simp
qed

section \<open>Reading through the cache\<close>

text \<open>How the server uses it: look up, and store what was fetched on a miss.\<close>

definition read_through :: "('k \<Rightarrow> 'v) \<Rightarrow> 'k \<Rightarrow> ('k, 'v) lru \<Rightarrow> ('k, 'v) lru" where
  "read_through fetch k c = (case lru_get c k of (Some v, c') \<Rightarrow> c' | (None, c') \<Rightarrow> lru_put c' k (fetch k))"

lemma read_through_keys:
  assumes "lru_ok c"
  shows "lru_ok (read_through f k c)" "lru_capacity (read_through f k c) = lru_capacity c"
    "map fst (contents (read_through f k c)) =
       take (unat (lru_capacity c)) (k # filter (\<lambda>x. x \<noteq> k) (map fst (contents c)))"
proof -
  let ?n = "unat (lru_capacity c)"
  have keys: "map fst (touch k v xs) = k # filter (\<lambda>x. x \<noteq> k) (map fst xs)" for v :: 'b and xs
    by (simp add: touch_def filter_map comp_def)
  have len: "length (contents d) \<le> unat (lru_capacity d)" if "lru_ok d" for d :: "('a, 'b) lru"
    using that by (simp add: lru_ok_def)
  obtain a d where g: "lru_get c k = (a, d)" by fastforce
  have d: "lru_ok d" "lru_capacity d = lru_capacity c" "a = lru_look c k"
    "contents d = (case a of None \<Rightarrow> contents c | Some v \<Rightarrow> touch k v (contents c))"
    using lru_get_ok [OF assms, of k] lru_get_refines [OF assms, of k] g by auto
  have "lru_ok (read_through f k c) \<and> lru_capacity (read_through f k c) = lru_capacity c \<and>
    map fst (contents (read_through f k c)) = take ?n (k # filter (\<lambda>x. x \<noteq> k) (map fst (contents c)))"
  proof (cases a)
    case None
    then show ?thesis using d g lru_put_ok [OF d(1)]
      by (simp add: read_through_def lru_put_refines [OF d(1)] keys take_map [symmetric])
  next
    case (Some v)
    then have "map fst (contents d) = k # filter (\<lambda>x. x \<noteq> k) (map fst (contents c))" using d by (simp add: keys)
    moreover have "length (map fst (contents d)) \<le> ?n" using len [OF d(1)] d(2) by simp
    ultimately show ?thesis using Some d g by (simp add: read_through_def)
  qed
  then show "lru_ok (read_through f k c)" "lru_capacity (read_through f k c) = lru_capacity c"
    "map fst (contents (read_through f k c)) = take ?n (k # filter (\<lambda>x. x \<noteq> k) (map fst (contents c)))"
    by auto
qed

lemma read_trace_keys:
  "lru_ok (fold (read_through f) ks (new_lru cap)) \<and>
   unat (lru_capacity (fold (read_through f) ks (new_lru cap))) = slots cap \<and>
   map fst (contents (fold (read_through f) ks (new_lru cap))) = take (slots cap) (rev (remdups ks))"
proof (induction ks rule: rev_induct)
  case Nil
  show ?case by simp (simp add: new_lru_def slots_def)
next
  case (snoc k ks)
  have "1 \<le> slots cap" by (simp add: slots_def) (metis unat_gt_0 Suc_leI)
  moreover have "rev (remdups (ks @ [k])) = k # filter (\<lambda>x. x \<noteq> k) (rev (remdups ks))"
    by (simp add: remdups_append_filter rev_filter)
  ultimately show ?case using snoc.IH
    by (simp add: read_through_keys take_filter_take)
qed

text \<open>C34: The hit law of LRU. When the cache is read through, an access hits exactly when
  the key was accessed before and fewer distinct other keys than the capacity were accessed
  since; the cached keys are the most recent distinct ones, in order.\<close>

theorem lru_hit_iff:
  "(fst (lru_get (fold (read_through f) ks (new_lru cap)) k) \<noteq> None) =
     (\<exists>pre post. ks = pre @ k # post \<and> k \<notin> set post \<and> card (set post) < slots cap) \<and>
   map fst (contents (fold (read_through f) ks (new_lru cap))) = take (slots cap) (rev (remdups ks))"
proof -
  let ?c = "fold (read_through f) ks (new_lru cap)"
  note K = read_trace_keys [of f ks cap]
  have "fst (lru_get ?c k) \<noteq> None \<longleftrightarrow> k \<in> set (map fst (contents ?c))"
    using lru.get_answer [OF K [THEN conjunct1], of k] by (simp add: lru_look_def map_of_eq_None_iff)
  with K in_take_recent [of k "slots cap" ks] show ?thesis by metis
qed

section \<open>The counters\<close>

text \<open>Which operations of a history find their key, and which do not, at the moment they
  run.\<close>

datatype outcome = Hit | Miss | Insert | Update | Removal | Nothing

fun outcome_of :: "('k, 'v) cache_op \<Rightarrow> ('k, 'v) lru \<Rightarrow> outcome" where
  "outcome_of (Get k) c = (if lru_look c k \<noteq> None then Hit else Miss)"
| "outcome_of (Put k v) c = (if lru_look c k \<noteq> None then Update else Insert)"
| "outcome_of (Erase k) c = (if lru_look c k \<noteq> None then Removal else Nothing)"

fun outcomes :: "('k, 'v) cache_op list \<Rightarrow> ('k, 'v) lru \<Rightarrow> outcome list" where
  "outcomes [] c = []"
| "outcomes (a # ops) c = outcome_of a c # outcomes ops (lru_op a c)"

lemma outcomes_snoc: "outcomes (ops @ [a]) c = outcomes ops c @ [outcome_of a (fold lru_op ops c)]"
  by (induction ops arbitrary: c) auto

lemma lru_op_counters:
  assumes "lru_ok c"
  shows "lru_hits (lru_op a c) = lru_hits c + (if outcome_of a c = Hit then 1 else 0)"
    "lru_misses (lru_op a c) = lru_misses c + (if outcome_of a c = Miss then 1 else 0)"
proof -
  have e: "lru_hits (evict_if_full c) = lru_hits c" "lru_misses (evict_if_full c) = lru_misses c"
    by (simp_all add: evict_if_full_def)
  have "lru_hits (lru_op a c) = lru_hits c + (if outcome_of a c = Hit then 1 else 0) \<and>
    lru_misses (lru_op a c) = lru_misses c + (if outcome_of a c = Miss then 1 else 0)"
  proof (cases a)
    case (Get k)
    show ?thesis by (cases rule: lru_get_cases [OF assms, of k]) (simp_all add: Get)
  qed (auto simp: lru_put_def push_front_def e lru_erase_def split: option.split)
  then show "lru_hits (lru_op a c) = lru_hits c + (if outcome_of a c = Hit then 1 else 0)"
    "lru_misses (lru_op a c) = lru_misses c + (if outcome_of a c = Miss then 1 else 0)" by auto
qed

lemma length_filter_key:
  "distinct (map fst xs) \<Longrightarrow> length (filter (\<lambda>p. fst p \<noteq> k) xs) = (if map_of xs k = None then length xs else length xs - 1)"
proof (induction xs)
  case (Cons p xs)
  have "fst p \<notin> fst ` set xs \<Longrightarrow> filter (\<lambda>q. fst q \<noteq> fst p) xs = xs" by (rule filter_not_in)
  moreover have "map_of xs k \<noteq> None \<Longrightarrow> xs \<noteq> []" by auto
  ultimately show ?case using Cons by (cases xs) auto
qed simp

text \<open>Entries are conserved: each insertion is still there, or was evicted or removed.\<close>

lemma lru_op_balance:
  assumes "lru_ok c"
  shows "lru_evictions (lru_op a c) + of_nat (length (lru_items (lru_op a c))) + (if outcome_of a c = Removal then 1 else 0) =
    lru_evictions c + of_nat (length (lru_items c)) + (if outcome_of a c = Insert then 1 else 0)"
proof (cases a)
  case (Get k)
  have "length (contents (lru_op a c)) = length (contents c)"
    using lru_get_refines(2) [OF assms, of k] Get length_filter_key [OF distinct_contents [OF assms], of k]
    by (cases "contents c") (auto simp: lru_look_def touch_def split: option.splits)
  moreover have "lru_evictions (lru_op a c) = lru_evictions c"
    by (cases rule: lru_get_cases [OF assms, of k]) (simp_all add: Get)
  ultimately show ?thesis using Get by simp
next
  case (Put k v)
  show ?thesis
  proof (cases rule: lru_put_cases [OF assms, of k v])
    case 1
    have ne: "unat (lru_capacity c) \<le> length (lru_items c) \<Longrightarrow> lru_items c \<noteq> []"
      using assms by (auto simp: lru_ok_def)
    show ?thesis using 1 Put ne
      by (cases "lru_items c" rule: rev_cases) (auto simp: push_front_def evict_if_full_def algebra_simps)
  next
    case (2 y)
    have "length (contents (lru_put c k v)) \<le> unat (lru_capacity c)"
      using lru_put_ok [OF assms, of k v] lru_put_refines(2) [OF assms] by (simp add: lru_ok_def)
    have l: "lru_look c k \<noteq> None" using 2 by (auto simp: look_None_iff)
    have "length (lru_items c) \<le> unat (lru_capacity c)" using assms by (simp add: lru_ok_def)
    then have "length (contents (lru_put c k v)) = length (contents c)"
      using lru_put_refines(1) [OF assms, of k v] l length_filter_key [OF distinct_contents [OF assms], of k]
      by (cases "contents c") (auto simp: lru_look_def touch_def simp del: length_contents simp: length_contents [symmetric])
    then show ?thesis using 2 Put l by simp
  qed
next
  case (Erase k)
  have "length (contents (snd (lru_erase c k))) = (if lru_look c k = None then length (contents c) else length (contents c) - 1)"
    using lru_erase_refines(3) [OF assms] length_filter_key [OF distinct_contents [OF assms]] by (simp add: lru_look_def)
  moreover have "lru_look c k \<noteq> None \<Longrightarrow> lru_items c \<noteq> []" by (auto simp: look_None_iff)
  moreover have "lru_evictions (snd (lru_erase c k)) = lru_evictions c"
    by (simp add: lru_erase_def split: option.split)
  ultimately show ?thesis using Erase by (cases "lru_look c k"; cases "lru_items c") auto
qed

definition tally :: "outcome \<Rightarrow> outcome list \<Rightarrow> u64" where
  "tally x xs = of_nat (count_list xs x)"

lemma tally_snoc [simp]: "tally x (xs @ [y]) = tally x xs + (if y = x then 1 else 0)" "tally x [] = 0"
  by (simp_all add: tally_def)

text \<open>The statistics are a true account of the history, in 64-bit arithmetic: hits and
  misses count the gets that were answered and that were not, and every entry ever inserted
  is evicted, removed or still in the cache.\<close>

theorem lru_stats_account:
  "cs_hits (lru_stats (lru_run cap ops)) = tally Hit (outcomes ops (new_lru cap)) \<and>
   cs_misses (lru_stats (lru_run cap ops)) = tally Miss (outcomes ops (new_lru cap)) \<and>
   cs_evictions (lru_stats (lru_run cap ops)) + cs_size (lru_stats (lru_run cap ops)) +
     tally Removal (outcomes ops (new_lru cap)) = tally Insert (outcomes ops (new_lru cap))"
proof (induction ops rule: rev_induct)
  case Nil
  then show ?case by (simp add: lru_stats_def) (simp add: new_lru_def)
next
  case (snoc a ops)
  have sum: "e' + s' + (r + dr) = i + di" if "e + s + r = i" "e' + s' + dr = e + s + di" for e s r i e' s' dr di :: u64
    using that by (metis (no_types, opaque_lifting) add.assoc add.commute)
  have "lru_evictions (lru_run cap (ops @ [a])) + of_nat (length (lru_items (lru_run cap (ops @ [a])))) +
      tally Removal (outcomes (ops @ [a]) (new_lru cap)) = tally Insert (outcomes (ops @ [a]) (new_lru cap))"
    unfolding outcomes_snoc tally_snoc lru_run_snoc lru_run_def [symmetric]
    by (rule sum [OF _ lru_op_balance [OF lru_run_ok, of a cap ops]]) (use snoc.IH in \<open>simp add: lru_stats_def\<close>)
  then show ?case using snoc.IH lru_op_counters [OF lru_run_ok, of a cap ops]
    by (simp add: lru_stats_def outcomes_snoc lru_run_def [symmetric])
qed

end
