(* ===== verification/Sharded_Cache.thy ===== *)
theory Sharded_Cache
  imports Lru_Cache
begin

text \<open>
  \<open>ShardedLRUCache\<close> of \<open>src/lru_cache.hpp\<close>: the power of two that the constructor
  rounds to, the mixing of the hash, and the operations that go to one shard. The hash function
  (\<open>std::hash\<close>) is a parameter. The rounding loop doubles a 64-bit word and need not
  end, so it is a partial function: \<^const>\<open>None\<close> is a constructor that never returns. The
  lemmas show when it ends and with what, that the cache contract holds, that each shard is an
  exact LRU cache of its own keys, and what the capacity really is.
\<close>

unbundle bit_operations_syntax

section \<open>Rounding up to a power of two\<close>

partial_function (option) pow2_loop :: "u64 \<Rightarrow> u64 \<Rightarrow> u64 option" where
  "pow2_loop n p = (if p < n then pow2_loop n (push_bit 1 p) else Some p)"

definition round_up_pow2 :: "u64 \<Rightarrow> u64 option" where
  "round_up_pow2 n = pow2_loop n 1"

lemma pow2_loop_result:
  assumes "pow2_loop n p = Some y"
  shows "n \<le> y \<and> (\<exists>i. y = p * 2 ^ i)"
proof (rule pow2_loop.raw_induct [where P = "\<lambda>n p y. n \<le> y \<and> (\<exists>i. y = p * 2 ^ i)", OF _ assms])
  fix loop :: "u64 \<Rightarrow> u64 \<Rightarrow> u64 option" and n p y
  assume IH: "\<And>n p y. loop n p = Some y \<Longrightarrow> n \<le> y \<and> (\<exists>i. y = p * 2 ^ i)"
    and step: "(if p < n then loop n (push_bit 1 p) else Some p) = Some y"
  show "n \<le> y \<and> (\<exists>i. y = p * 2 ^ i)"
  proof (cases "p < n")
    case True
    with step have "loop n (push_bit 1 p) = Some y" by simp
    from IH [OF this] obtain i where "n \<le> y" "y = push_bit 1 p * 2 ^ i" by blast
    then show ?thesis by (intro conjI exI [of _ "Suc i"]) (simp_all add: push_bit_eq_mult)
  next
    case False
    with step show ?thesis by (intro conjI exI [of _ 0]) auto
  qed
qed

lemma unat_pow2: "j < 64 \<Longrightarrow> unat (2 ^ j :: u64) = 2 ^ j"
proof -
  assume "j < 64"
  then have "(2::nat) ^ j < 2 ^ 64" by (intro power_strict_increasing) auto
  from unat_of_nat_u64 [OF this] show ?thesis by simp
qed

lemma pow2_loop_ends:
  assumes "j \<le> 63" "unat n \<le> 2 ^ 63" "j = 0 \<or> 2 ^ (j - 1) < unat n"
  shows "\<exists>i \<le> 63. pow2_loop n (2 ^ j) = Some (2 ^ i) \<and> unat n \<le> 2 ^ i \<and> (i = 0 \<or> 2 ^ (i - 1) < unat n)"
  using assms
proof (induction "63 - j" arbitrary: j)
  case 0
  then have j: "j = 63" by simp
  then have "unat (2 ^ j :: u64) = 2 ^ 63" using unat_pow2 [of j] by (simp only: j)
  then have "\<not> (2 ^ j :: u64) < n" using 0(3) unfolding word_less_nat_alt by linarith
  then have "pow2_loop n (2 ^ j) = Some (2 ^ j)" by (simp add: pow2_loop.simps)
  then show ?case using 0(3,4) j by (intro exI [of _ 63]) simp
next
  case (Suc d)
  then have j: "j < 63" by simp
  show ?case
  proof (cases "(2 ^ j :: u64) < n")
    case True
    then have "2 ^ j < unat n" using unat_pow2 [of j] j by (simp add: word_less_nat_alt)
    then have "\<exists>i \<le> 63. pow2_loop n (2 ^ Suc j) = Some (2 ^ i) \<and> unat n \<le> 2 ^ i \<and> (i = 0 \<or> 2 ^ (i - 1) < unat n)"
      using Suc.hyps(2) Suc.prems(2) j by (intro Suc.hyps(1)) auto
    moreover have "pow2_loop n (2 ^ j) = pow2_loop n (2 ^ Suc j)"
      using True by (subst pow2_loop.simps) (simp add: push_bit_eq_mult mult.commute)
    ultimately show ?thesis by simp
  next
    case False
    then have "pow2_loop n (2 ^ j) = Some (2 ^ j)" by (simp add: pow2_loop.simps)
    moreover have "unat n \<le> 2 ^ j" using False unat_pow2 [of j] j by (simp add: word_less_nat_alt)
    ultimately show ?thesis using Suc.prems(3) j by (intro exI [of _ j]) auto
  qed
qed

lemma round_up_pow2_Some:
  "unat n \<le> 2 ^ 63 \<Longrightarrow> \<exists>i \<le> 63. round_up_pow2 n = Some (2 ^ i) \<and> unat n \<le> 2 ^ i \<and> (i = 0 \<or> 2 ^ (i - 1) < unat n)"
  using pow2_loop_ends [of 0 n] by (simp add: round_up_pow2_def)

lemma round_up_pow2_None: "2 ^ 63 < unat n \<Longrightarrow> round_up_pow2 n = None"
proof (rule ccontr)
  assume n: "2 ^ 63 < unat n" and "round_up_pow2 n \<noteq> None"
  then obtain y where "pow2_loop n 1 = Some y" by (auto simp: round_up_pow2_def)
  from pow2_loop_result [OF this] obtain i where y: "n \<le> y" "y = 2 ^ i" by auto
  have "unat y \<le> 2 ^ 63"
  proof (cases "i < 64")
    case True
    then have "unat y = 2 ^ i" using unat_pow2 y(2) by simp
    moreover have "(2::nat) ^ i \<le> 2 ^ 63" using True by (intro power_increasing) auto
    ultimately show ?thesis by simp
  next
    case False
    then have "y = 0" using y(2) by (simp only: exp_eq_zero_iff) simp
    then show ?thesis by simp
  qed
  with n y(1) show False by (simp add: word_le_nat_alt)
qed

lemma round_up_pow2_spec:
  "case round_up_pow2 n of
     Some p \<Rightarrow> \<exists>i \<le> 63. p = 2 ^ i \<and> unat n \<le> 2 ^ i \<and> (i = 0 \<or> 2 ^ (i - 1) < unat n)
   | None \<Rightarrow> 2 ^ 63 < unat n"
  using round_up_pow2_Some [of n] round_up_pow2_None [of n]
  by (cases "unat n \<le> 2 ^ 63") (auto split: option.split)

text \<open>C35: \<open>round_up_pow2\<close> returns the least power of two that is not below its argument
  whenever one fits into a \<open>size_t\<close>, and for every larger argument (more than 2^63) the
  loop never ends: the doubled word wraps to zero and stays there.\<close>

theorem round_up_pow2_least:
  "case round_up_pow2 n of
     Some p \<Rightarrow> \<exists>i. i \<le> 63 \<and> p = 2 ^ i \<and> unat n \<le> 2 ^ i \<and> (i = 0 \<or> 2 ^ (i - 1) < unat n)
   | None \<Rightarrow> 2 ^ 63 < unat n"
  by (rule round_up_pow2_spec)

section \<open>The sharded cache\<close>

record ('k, 'v) sharded =
  sh_shards :: "('k, 'v) lru list"
  sh_mask :: u64

definition new_sharded :: "u64 \<Rightarrow> u64 \<Rightarrow> ('k, 'v) sharded option" where
  "new_sharded total_capacity num_shards =
     (case round_up_pow2 (if num_shards = 0 then 1 else num_shards) of
        None \<Rightarrow> None
      | Some n \<Rightarrow>
          let per_shard = total_capacity div n;
              per_shard = (if per_shard = 0 then 1 else per_shard) in
          Some \<lparr>sh_shards = replicate (unat n) (new_lru per_shard), sh_mask = n - 1\<rparr>)"

definition mix :: "u64 \<Rightarrow> u64" where
  "mix h = (let h = h XOR drop_bit 33 h; h = h * 0xff51afd7ed558ccd in h XOR drop_bit 33 h)"

definition shard_for :: "('k \<Rightarrow> u64) \<Rightarrow> ('k, 'v) sharded \<Rightarrow> 'k \<Rightarrow> nat" where
  "shard_for hasher c key = unat (mix (hasher key) AND sh_mask c)"

definition on_shard :: "('k, 'v) sharded \<Rightarrow> nat \<Rightarrow> ('k, 'v) lru \<Rightarrow> ('k, 'v) sharded" where
  "on_shard c i s = c\<lparr>sh_shards := (sh_shards c)[i := s]\<rparr>"

definition sharded_get :: "('k \<Rightarrow> u64) \<Rightarrow> ('k, 'v) sharded \<Rightarrow> 'k \<Rightarrow> 'v option \<times> ('k, 'v) sharded" where
  "sharded_get hasher c key = (let i = shard_for hasher c key; (v, s) = lru_get (sh_shards c ! i) key in
     (v, on_shard c i s))"

definition sharded_put :: "('k \<Rightarrow> u64) \<Rightarrow> ('k, 'v) sharded \<Rightarrow> 'k \<Rightarrow> 'v \<Rightarrow> ('k, 'v) sharded" where
  "sharded_put hasher c key v = (let i = shard_for hasher c key in
     on_shard c i (lru_put (sh_shards c ! i) key v))"

definition sharded_erase :: "('k \<Rightarrow> u64) \<Rightarrow> ('k, 'v) sharded \<Rightarrow> 'k \<Rightarrow> bool \<times> ('k, 'v) sharded" where
  "sharded_erase hasher c key = (let i = shard_for hasher c key; (b, s) = lru_erase (sh_shards c ! i) key in
     (b, on_shard c i s))"

text \<open>\<open>stats\<close> sums over the shards, one lock after the other.\<close>

definition add_stats :: "cache_stats \<Rightarrow> cache_stats \<Rightarrow> cache_stats" where
  "add_stats agg st = agg\<lparr>cs_hits := cs_hits agg + cs_hits st, cs_misses := cs_misses agg + cs_misses st,
     cs_evictions := cs_evictions agg + cs_evictions st, cs_size := cs_size agg + cs_size st\<rparr>"

definition sharded_stats :: "('k, 'v) sharded \<Rightarrow> cache_stats" where
  "sharded_stats c =
     (let agg = foldl add_stats \<lparr>cs_hits = 0, cs_misses = 0, cs_evictions = 0, cs_size = 0, cs_hit_rate_pct = 0\<rparr>
                  (map lru_stats (sh_shards c)) in
      agg\<lparr>cs_hit_rate_pct := hit_rate (cs_hits agg) (cs_misses agg)\<rparr>)"

definition sharded_capacity :: "('k, 'v) sharded \<Rightarrow> u64" where
  "sharded_capacity c = foldl (\<lambda>n s. n + lru_capacity s) 0 (sh_shards c)"

definition sharded_reset :: "('k, 'v) sharded \<Rightarrow> ('k, 'v) sharded" where
  "sharded_reset c = c\<lparr>sh_shards := map lru_reset (sh_shards c)\<rparr>"

section \<open>The contract\<close>

definition sharded_ok :: "('k, 'v) sharded \<Rightarrow> bool" where
  "sharded_ok c \<longleftrightarrow> (\<forall>s \<in> set (sh_shards c). lru_ok s) \<and> unat (sh_mask c) < length (sh_shards c)"

definition sharded_look :: "('k \<Rightarrow> u64) \<Rightarrow> ('k, 'v) sharded \<Rightarrow> 'k \<Rightarrow> 'v option" where
  "sharded_look hasher c k = lru_look (sh_shards c ! shard_for hasher c k) k"

lemma shard_for_less: "sharded_ok c \<Longrightarrow> shard_for h c k < length (sh_shards c)"
  using word_and_le1 [of "mix (h k)" "sh_mask c"] by (auto simp: sharded_ok_def shard_for_def word_le_nat_alt)

lemma on_shard_simps [simp]:
  "sh_mask (on_shard c i s) = sh_mask c" "length (sh_shards (on_shard c i s)) = length (sh_shards c)"
  "shard_for h (on_shard c i s) k = shard_for h c k"
  "j < length (sh_shards c) \<Longrightarrow> sh_shards (on_shard c i s) ! j = (if j = i then s else sh_shards c ! j)"
  by (simp_all add: on_shard_def shard_for_def nth_list_update)

lemma on_shard_ok: "sharded_ok c \<Longrightarrow> lru_ok s \<Longrightarrow> sharded_ok (on_shard c i s)"
  by (auto simp: sharded_ok_def on_shard_def dest: set_update_subset_insert [THEN subsetD])

interpretation sharded: cache sharded_ok "sharded_look h" "sharded_get h" "sharded_put h" "sharded_erase h"
  for h :: "'k \<Rightarrow> u64"
proof unfold_locales
  fix c :: "('k, 'v) sharded" and k k' :: 'k and v :: 'v
  assume ok: "sharded_ok c"
  let ?i = "shard_for h c k" and ?j = "shard_for h c k'"
  let ?s = "sh_shards c ! ?i"
  have s: "lru_ok ?s" using ok shard_for_less [OF ok, of h k] by (simp add: sharded_ok_def)
  note j = shard_for_less [OF ok, of h k'] and i = shard_for_less [OF ok, of h k]
  have same: "k' = k \<Longrightarrow> ?j = ?i" by simp
  show "sharded_ok (snd (sharded_get h c k))" "sharded_ok (sharded_put h c k v)" "sharded_ok (snd (sharded_erase h c k))"
    "fst (sharded_get h c k) = sharded_look h c k" "fst (sharded_erase h c k) = (sharded_look h c k \<noteq> None)"
    using lru.ok_get [OF s, of k] lru.ok_put [OF s, of k v] lru.ok_erase [OF s, of k] lru.get_answer [OF s, of k]
      lru.erase_answer [OF s, of k] on_shard_ok [OF ok]
    by (simp_all add: sharded_get_def sharded_put_def sharded_erase_def sharded_look_def Let_def split_beta)
  show "sharded_look h (snd (sharded_get h c k)) k' = sharded_look h c k'"
    using lru.look_get [OF s, of k k'] j by (simp add: sharded_get_def sharded_look_def Let_def split_beta)
  show "sharded_look h (sharded_put h c k v) k = Some v"
    using lru.look_put_same [OF s, of k v] i by (simp add: sharded_put_def sharded_look_def Let_def)
  show "sharded_look h (snd (sharded_erase h c k)) k' = (if k' = k then None else sharded_look h c k')"
    using lru.look_erase [OF s, of k k'] j same
    by (cases "k' = k") (simp_all add: sharded_erase_def sharded_look_def Let_def split_beta)
  assume "k' \<noteq> k"
  then show "sharded_look h (sharded_put h c k v) k' \<in> {None, sharded_look h c k'}"
    using lru.look_put_other [OF s, of k' k v] j by (simp add: sharded_put_def sharded_look_def Let_def)
qed

section \<open>What the shards are\<close>

fun op_key :: "('k, 'v) cache_op \<Rightarrow> 'k" where
  "op_key (Get k) = k"
| "op_key (Put k v) = k"
| "op_key (Erase k) = k"

fun sharded_op :: "('k \<Rightarrow> u64) \<Rightarrow> ('k, 'v) cache_op \<Rightarrow> ('k, 'v) sharded \<Rightarrow> ('k, 'v) sharded" where
  "sharded_op h (Get k) c = snd (sharded_get h c k)"
| "sharded_op h (Put k v) c = sharded_put h c k v"
| "sharded_op h (Erase k) c = snd (sharded_erase h c k)"

lemma sharded_op_apply: "sharded_op h a c = sharded.apply_op h a c"
  by (cases a) simp_all

lemma sharded_op_on_shard:
  "sharded_op h a c = on_shard c (shard_for h c (op_key a)) (lru_op a (sh_shards c ! shard_for h c (op_key a)))"
  by (cases a) (simp_all add: sharded_get_def sharded_put_def sharded_erase_def Let_def split_beta)

definition per_shard :: "u64 \<Rightarrow> nat \<Rightarrow> u64" where
  "per_shard total_cap n = (if total_cap div of_nat n = 0 then 1 else total_cap div of_nat n)"

definition built :: "u64 \<Rightarrow> u64 \<Rightarrow> nat \<Rightarrow> ('k, 'v) sharded \<Rightarrow> bool" where
  "built cap num i c \<longleftrightarrow> i \<le> 63 \<and> sh_shards c = replicate (2 ^ i) (new_lru (per_shard cap (2 ^ i))) \<and>
     unat (sh_mask c) = 2 ^ i - 1 \<and> unat num \<le> 2 ^ i \<and> (i = 0 \<or> 2 ^ (i - 1) < unat num)"

lemma new_sharded_built:
  "case new_sharded cap num of None \<Rightarrow> 2 ^ 63 < unat num | Some c \<Rightarrow> \<exists>i. built cap num i c"
proof (cases "round_up_pow2 (if num = 0 then 1 else num)")
  case None
  then have "2 ^ 63 < unat num" using round_up_pow2_Some [of "if num = 0 then 1 else num"]
    by (cases "num = 0") (auto simp: not_le [symmetric])
  with None show ?thesis by (simp add: new_sharded_def)
next
  case (Some n)
  then obtain i where i: "i \<le> 63" "n = 2 ^ i" "unat (if num = 0 then 1 else num) \<le> 2 ^ i"
    "i = 0 \<or> 2 ^ (i - 1) < unat (if num = 0 then 1 else num)"
    using round_up_pow2_spec [of "if num = 0 then 1 else num"] by auto
  have u: "unat n = 2 ^ i" using i(1,2) unat_pow2 by simp
  then have "n \<noteq> 0" by auto
  then have m: "unat (n - 1) = 2 ^ i - 1" using u by (simp add: unat_minus_one)
  have "unat num \<le> 2 ^ i" "i = 0 \<or> 2 ^ (i - 1) < unat num" using i(3,4) by (auto split: if_splits)
  with m i(1) have "built cap num i \<lparr>sh_shards = replicate (2 ^ i) (new_lru (per_shard cap (2 ^ i))), sh_mask = n - 1\<rparr>"
    by (simp add: built_def)
  then show ?thesis using Some u i(2)
    by (cases "cap div 2 ^ i = 0") (auto simp: new_sharded_def per_shard_def Let_def)
qed

lemma built_ok: "built cap num i c \<Longrightarrow> sharded_ok c"
  by (auto simp: built_def sharded_ok_def)

lemma built_length: "built cap num i c \<Longrightarrow> length (sh_shards c) = 2 ^ i"
  by (simp add: built_def)

lemma per_shard_nonzero [simp]: "per_shard total_cap n \<noteq> 0"
  by (simp add: per_shard_def)

lemma sharded_run_shards:
  assumes "sharded_ok c" "sh_shards c = map (\<lambda>i. lru_run cap (before i)) [0..<n]"
  shows "sh_shards (fold (sharded_op h) ops c) =
    map (\<lambda>i. lru_run cap (before i @ filter (\<lambda>a. shard_for h c (op_key a) = i) ops)) [0..<n]"
  using assms
proof (induction ops arbitrary: c before)
  case Nil
  then show ?case by simp
next
  case (Cons a ops)
  let ?j = "shard_for h c (op_key a)"
  let ?before = "\<lambda>i. if i = ?j then before i @ [a] else before i"
  let ?c = "sharded_op h a c"
  have len: "length (sh_shards c) = n" using Cons.prems(2) by simp
  then have j: "?j < n" using shard_for_less [OF Cons.prems(1), of h "op_key a"] by simp
  have "sh_shards ?c = map (\<lambda>i. lru_run cap (?before i)) [0..<n]"
    using j len Cons.prems(2) by (intro nth_equalityI) (simp_all add: sharded_op_on_shard)
  moreover have "sharded_ok ?c"
    unfolding sharded_op_apply using Cons.prems(1) by (rule sharded.ok_apply)
  moreover have "shard_for h ?c k = shard_for h c k" for k by (simp add: sharded_op_on_shard)
  ultimately have "sh_shards (fold (sharded_op h) ops ?c) =
      map (\<lambda>i. lru_run cap (?before i @ filter (\<lambda>a. shard_for h c (op_key a) = i) ops)) [0..<n]"
    using Cons.IH [of ?c ?before] by simp
  also have "\<dots> = map (\<lambda>i. lru_run cap (before i @ filter (\<lambda>a. shard_for h c (op_key a) = i) (a # ops))) [0..<n]"
    by (intro map_cong) auto
  finally show ?case by simp
qed

text \<open>C21: Every shard is an exact LRU cache of its own. After any history on a newly built
  sharded cache, shard \<open>i\<close> is, counters included, exactly the single cache that has seen
  only the operations whose keys hash to \<open>i\<close>; so eviction in one shard never depends on
  the traffic of another. The constructor fails to return only for more than 2^63 shards.\<close>

theorem sharded_is_independent_lrus:
  fixes ops :: "('k, 'v) cache_op list"
  shows "case new_sharded total_cap num of
     None \<Rightarrow> 2 ^ 63 < unat num
   | Some c \<Rightarrow> sh_shards (fold (sharded_op h) ops c) =
       map (\<lambda>i. lru_run (per_shard total_cap (length (sh_shards c))) (filter (\<lambda>a. shard_for h c (op_key a) = i) ops))
         [0..<length (sh_shards c)]"
proof (cases "new_sharded total_cap num :: ('k, 'v) sharded option")
  case None
  then show ?thesis using new_sharded_built [where cap = total_cap and num = num and ?'a = 'k and ?'b = 'v] by simp
next
  case (Some c)
  then obtain i where b: "built total_cap num i c"
    using new_sharded_built [where cap = total_cap and num = num and ?'a = 'k and ?'b = 'v] by auto
  have "sh_shards c = map (\<lambda>j. lru_run (per_shard total_cap (2 ^ i)) []) [0..<2 ^ i]"
    using b by (simp add: built_def map_replicate_const)
  from sharded_run_shards [OF built_ok [OF b] this, of h ops] built_length [OF b] Some show ?thesis by simp
qed

section \<open>Capacity\<close>

lemma sharded_capacity_sum: "sharded_capacity c = sum_list (map lru_capacity (sh_shards c))"
proof -
  have "foldl (\<lambda>n s. n + lru_capacity s) a ss = a + sum_list (map lru_capacity ss)" for a and ss :: "('a, 'b) lru list"
    by (induction ss arbitrary: a) (simp_all add: add.assoc)
  from this [of 0 "sh_shards c"] show ?thesis by (simp add: sharded_capacity_def)
qed

lemma built_capacity:
  assumes "built cap num i c"
  shows "unat (sum_list (map lru_capacity (sh_shards c))) =
    (if unat cap < 2 ^ i then 2 ^ i else unat cap - unat cap mod 2 ^ i)"
proof -
  let ?p = "per_shard cap (2 ^ i)"
  have i: "i \<le> 63" using assms by (simp add: built_def)
  then have u: "unat (2 ^ i :: u64) = 2 ^ i" by (intro unat_pow2) simp
  have "map lru_capacity (sh_shards c) = replicate (2 ^ i) ?p"
    using assms by (simp add: built_def) (simp add: new_lru_def)
  then have sum: "sum_list (map lru_capacity (sh_shards c)) = of_nat (2 ^ i) * ?p" by (simp add: sum_list_replicate)
  have d: "unat (cap div 2 ^ i) = unat cap div 2 ^ i" by (simp add: unat_div_distrib u)
  then have z: "cap div 2 ^ i = 0 \<longleftrightarrow> unat cap < 2 ^ i"
    by (metis div_eq_0_iff power_not_zero unat_eq_zero zero_neq_numeral)
  show ?thesis
  proof (cases "unat cap < 2 ^ i")
    case True
    with z sum u show ?thesis by (simp add: per_shard_def)
  next
    case False
    then have "?p = of_nat (unat cap div 2 ^ i)" using z by (simp add: per_shard_def d [symmetric])
    then have "sum_list (map lru_capacity (sh_shards c)) = of_nat (2 ^ i * (unat cap div 2 ^ i))" using sum by simp
    moreover have "2 ^ i * (unat cap div 2 ^ i) \<le> unat cap" by simp
    then have "2 ^ i * (unat cap div 2 ^ i) < 2 ^ 64" by (rule le_less_trans) (rule unat_less_u64)
    ultimately have "unat (sum_list (map lru_capacity (sh_shards c))) = 2 ^ i * (unat cap div 2 ^ i)"
      using unat_of_nat_u64 by metis
    with False show ?thesis by (simp add: minus_mod_eq_mult_div)
  qed
qed

lemma fold_capacity:
  "sharded_ok c \<Longrightarrow> map lru_capacity (sh_shards (fold (sharded_op h) ops c)) = map lru_capacity (sh_shards c)"
proof (induction ops arbitrary: c)
  case (Cons a ops)
  let ?j = "shard_for h c (op_key a)"
  have j: "?j < length (sh_shards c)" by (rule shard_for_less [OF Cons.prems])
  then have "lru_ok (sh_shards c ! ?j)" using Cons.prems by (simp add: sharded_ok_def)
  then have "map lru_capacity (sh_shards (sharded_op h a c)) = map lru_capacity (sh_shards c)"
    using j by (simp add: sharded_op_on_shard on_shard_def map_update lru_op_refines list_update_same_conv)
  moreover have "sharded_ok (sharded_op h a c)" unfolding sharded_op_apply by (rule sharded.ok_apply [OF Cons.prems])
  ultimately show ?case using Cons.IH [of "sharded_op h a c"] by simp
qed simp

text \<open>C39: What the capacity of a sharded cache really is. The number of shards is the
  request rounded up to a power of two \<open>n\<close>; the capacity is the requested total rounded
  down to a multiple of \<open>n\<close>, but never below one entry per shard, so a request smaller
  than the number of shards is exceeded; it stays so through every history.\<close>

theorem sharded_capacity_exact:
  fixes ops :: "('k, 'v) cache_op list"
  shows "case new_sharded total_cap num of
     None \<Rightarrow> 2 ^ 63 < unat num
   | Some c \<Rightarrow> \<exists>i. length (sh_shards c) = 2 ^ i \<and> unat num \<le> 2 ^ i \<and> (i = 0 \<or> 2 ^ (i - 1) < unat num) \<and>
       unat (sharded_capacity (fold (sharded_op h) ops c)) =
         (if unat total_cap < 2 ^ i then 2 ^ i else unat total_cap - unat total_cap mod 2 ^ i)"
proof (cases "new_sharded total_cap num :: ('k, 'v) sharded option")
  case None
  then show ?thesis using new_sharded_built [where cap = total_cap and num = num and ?'a = 'k and ?'b = 'v] by simp
next
  case (Some c)
  then obtain i where b: "built total_cap num i c"
    using new_sharded_built [where cap = total_cap and num = num and ?'a = 'k and ?'b = 'v] by auto
  have "unat (sharded_capacity (fold (sharded_op h) ops c)) =
      (if unat total_cap < 2 ^ i then 2 ^ i else unat total_cap - unat total_cap mod 2 ^ i)"
    unfolding sharded_capacity_sum fold_capacity [OF built_ok [OF b]] by (rule built_capacity [OF b])
  with Some b built_length [OF b] show ?thesis by (auto simp: built_def intro!: exI [of _ i])
qed

section \<open>Coherence\<close>

lemma built_look: "built cap num i c \<Longrightarrow> sharded_look h c k = None"
  using shard_for_less [OF built_ok, of cap num i c h k]
  by (simp add: built_def sharded_look_def lru_look_def)

text \<open>Never stale, across shards. Whatever sequence of gets, puts and erases the
  threads produce on a newly built cache, a get answers nothing or the value of the latest
  put to that key with no erase since, and directly after a put it answers that value.\<close>

theorem sharded_never_stale:
  fixes ops :: "('k, 'v) cache_op list"
  shows "case new_sharded total_cap num of
     None \<Rightarrow> 2 ^ 63 < unat num
   | Some c \<Rightarrow> fst (sharded_get h (fold (sharded_op h) ops c) k) \<in> {None, latest ops k None} \<and>
       fst (sharded_get h (fold (sharded_op h) (ops @ [Put k v]) c) k) = Some v"
proof (cases "new_sharded total_cap num :: ('k, 'v) sharded option")
  case None
  then show ?thesis using new_sharded_built [where cap = total_cap and num = num and ?'a = 'k and ?'b = 'v] by simp
next
  case (Some c)
  then obtain i where b: "built total_cap num i c"
    using new_sharded_built [where cap = total_cap and num = num and ?'a = 'k and ?'b = 'v] by auto
  have op: "sharded_op h = sharded.apply_op h" for h :: "'k \<Rightarrow> u64"
    by (intro ext) (rule sharded_op_apply)
  have ok: "sharded_ok (sharded.run h ops c)" by (rule sharded.ok_run [OF built_ok [OF b]])
  have "sharded_look h (sharded.run h ops c) k \<in> {None, latest ops k None}"
    by (rule sharded.coherent_gen [OF built_ok [OF b]]) (simp add: built_look [OF b])
  with sharded.get_answer [OF ok, of h k] sharded.put_then_get [OF ok, of h k v] Some
  show ?thesis by (simp add: op)
qed

end
