(* ===== verification/Request_Handler.thy ===== *)
theory Request_Handler
  imports Upstream_Fetch Access_Config Access_Log Sharded_Cache
begin

text \<open>
  The worker's side of \<open>src/server_phase5.cpp\<close>: \<open>build_response\<close>,
  \<open>serve_one_request\<close>, \<open>handle_ready\<close> and \<open>close_conn\<close>, over the state that all
  requests share (policy, cache, log, counters) and the connection that the worker owns. The
  network is the list of what successive fetches meet; \<open>sv_calls\<close> records what was asked
  of it. The two loops of \<open>handle_ready\<close> that depend on the framing arithmetic are partial
  functions, so that a worker that never returns would be \<^const>\<open>None\<close>.
\<close>

section \<open>The state\<close>

record stats =
  st_total_connections :: u64
  st_active_connections :: u64
  st_peak_connections :: u64
  st_total_requests :: u64
  st_forwarded_requests :: u64
  st_cache_served :: u64
  st_denied_requests :: u64
  st_bad_requests :: u64
  st_upstream_errors :: u64

definition new_stats :: stats where
  "new_stats = \<lparr>st_total_connections = 0, st_active_connections = 0, st_peak_connections = 0,
     st_total_requests = 0, st_forwarded_requests = 0, st_cache_served = 0, st_denied_requests = 0,
     st_bad_requests = 0, st_upstream_errors = 0\<rparr>"

text \<open>A connection, with the answer \<open>epoll_ctl\<close> will give when it is re-armed.\<close>

record conn =
  cn_sock :: sock
  cn_client_ip :: bytes
  cn_inbuf :: bytes
  cn_requests_served :: u64
  cn_rearm_ok :: bool

text \<open>The globals. \<open>sv_clock i\<close> is the time of day and the elapsed microseconds at the
  \<open>i\<close>-th line of the access log; \<open>sv_hash\<close> is \<open>std::hash\<close>.\<close>

record server =
  sv_opt :: options
  sv_acl :: access_control
  sv_cache :: "(bytes, bytes) sharded"
  sv_log :: access_log
  sv_stats :: stats
  sv_hash :: "bytes \<Rightarrow> u64"
  sv_msg :: messages
  sv_clock :: "nat \<Rightarrow> timespec \<times> int"
  sv_ticks :: nat
  sv_net :: "upstream_env list"
  sv_calls :: "(upstream \<times> bytes) list"

section \<open>build_response\<close>

definition build_response :: "int \<Rightarrow> bytes \<Rightarrow> bytes \<Rightarrow> bool \<Rightarrow> bytes \<Rightarrow> bytes" where
  "build_response status reason body keep_alive content_type =
     ''HTTP/1.1 '' @ int_str status @ '' '' @ reason @ crlf @
     ''Content-Type: '' @ content_type @ crlf @
     ''Content-Length: '' @ nat_str (length body) @ crlf @
     ''Connection: '' @ (if keep_alive then ''keep-alive'' else ''close'') @ crlf @
     crlf @ body"

section \<open>serve_one_request\<close>

definition reply :: "bytes \<Rightarrow> conn \<Rightarrow> bool \<times> conn" where
  "reply data c = (let (sent, s) = send_all data (cn_sock c) in (sent, c\<lparr>cn_sock := s\<rparr>))"

definition count :: "(stats \<Rightarrow> stats) \<Rightarrow> server \<Rightarrow> server" where
  "count f sv = sv\<lparr>sv_stats := f (sv_stats sv)\<rparr>"

text \<open>The entry is completed and written; the closure \<open>finish\<close> of the code.\<close>

definition finish :: "log_entry \<Rightarrow> int \<Rightarrow> nat \<Rightarrow> bytes \<Rightarrow> server \<Rightarrow> server" where
  "finish ent status bytes cache_state sv =
     (let (now, duration) = sv_clock sv (sv_ticks sv);
          ent = ent\<lparr>le_status := status, le_bytes := bytes, le_cache := cache_state, le_duration_us := duration\<rparr> in
      sv\<lparr>sv_log := log_write now ent (sv_log sv), sv_ticks := sv_ticks sv + 1\<rparr>)"

text \<open>The next fetch meets the next environment; beyond the list no name resolves.\<close>

definition call_upstream :: "upstream \<Rightarrow> bytes \<Rightarrow> server \<Rightarrow> upstream_result \<times> server" where
  "call_upstream up request_bytes sv =
     (let env = (case sv_net sv of e # _ \<Rightarrow> e
            | [] \<Rightarrow> \<lparr>ue_dns = -2, ue_socket = None, ue_connect = None,
                     ue_sock = \<lparr>sk_rx = [], sk_tx = [], sk_poll = [], sk_wire = [], sk_errno = EAGAIN\<rparr>\<rparr>) in
      (fst (fetch_upstream (sv_opt sv) (sv_msg sv) env request_bytes),
       sv\<lparr>sv_net := drop 1 (sv_net sv), sv_calls := sv_calls sv @ [(up, request_bytes)]\<rparr>))"

definition cache_key :: "request \<Rightarrow> bytes" where
  "cache_key req = req_method req @ '' '' @ to_lower (req_host req) @ req_path req"

definition cacheable_request :: "request \<Rightarrow> bool" where
  "cacheable_request req \<longleftrightarrow> (req_method req = ''GET'' \<or> req_method req = ''HEAD'') \<and>
     req_header req ''authorization'' = None"

definition request_log :: "conn \<Rightarrow> request \<Rightarrow> acl_result \<Rightarrow> log_entry" where
  "request_log c req acl = new_log_entry\<lparr>le_client_ip := cn_client_ip c, le_method := req_method req,
     le_path := req_path req, le_version := req_version req, le_host := req_host req,
     le_acl := (if acl_decision acl = Allow then ''ALLOW'' else ''DENY''), le_rule := acl_matched_rule acl\<rparr>"

text \<open>The last part: forwarding, and what is done with the answer.\<close>

definition forward :: "log_entry \<Rightarrow> upstream \<Rightarrow> bytes \<Rightarrow> request \<Rightarrow> nat \<Rightarrow> server \<Rightarrow> conn \<Rightarrow> bool \<times> conn \<times> server" where
  "forward ent up key req consumed sv c =
     (let state = (if cacheable_request req then ''MISS'' else ''BYPASS'');
          (ur, sv) = call_upstream up (take consumed (req_raw req)) sv in
      if \<not> ur_ok ur then
        (let sv = count (\<lambda>s. s\<lparr>st_upstream_errors := st_upstream_errors s + 1\<rparr>) sv;
             resp = build_response 502 ''Bad Gateway'' (''502 Bad Gateway: '' @ ur_error ur @ [LF]) False ''text/plain'';
             (sent, c) = reply resp c in
         (False, c, finish (ent\<lparr>le_rule := ur_error ur\<rparr>) 502 (length resp) state sv))
      else
        (let sv = count (\<lambda>s. s\<lparr>st_forwarded_requests := st_forwarded_requests s + 1\<rparr>) sv;
             parsed = parse_response_headers (ur_raw ur);
             sv = (if cacheable_request req \<and> is_cacheable req parsed
                   then sv\<lparr>sv_cache := sharded_put (sv_hash sv) (sv_cache sv) key (ur_raw ur)\<rparr> else sv);
             (sent, c) = reply (ur_raw ur) c in
         (sent \<and> req_keep_alive req, c, finish ent (ur_status ur) (length (ur_raw ur)) state sv)))"

definition serve_one_request :: "server \<Rightarrow> conn \<Rightarrow> request \<Rightarrow> nat \<Rightarrow> bool \<times> conn \<times> server" where
  "serve_one_request sv c req consumed =
     (let sv = count (\<lambda>s. s\<lparr>st_total_requests := st_total_requests s + 1\<rparr>) sv;
          acl = check (sv_acl sv) req;
          ent = request_log c req acl in
      if acl_decision acl = Deny then
        (let sv = count (\<lambda>s. s\<lparr>st_denied_requests := st_denied_requests s + 1\<rparr>) sv;
             resp = build_response 403 ''Forbidden'' (''403 Forbidden: blocked by proxy policy'' @ [LF])
               (req_keep_alive req) ''text/plain'';
             (sent, c) = reply resp c in
         (sent \<and> req_keep_alive req, c, finish ent 403 (length resp) ''BYPASS'' sv))
      else
        (let up = resolve (ac_routes (sv_acl sv)) (req_host req);
             ent = ent\<lparr>le_upstream := up_host up @ '':'' @ int_str (up_port up)\<rparr>;
             key = cache_key req in
         if cacheable_request req then
           (case sharded_get (sv_hash sv) (sv_cache sv) key of
              (Some hit, held) \<Rightarrow>
                (let sv = count (\<lambda>s. s\<lparr>st_cache_served := st_cache_served s + 1\<rparr>) (sv\<lparr>sv_cache := held\<rparr>);
                     (sent, c) = reply hit c;
                     r = parse_response_headers hit in
                 (sent \<and> req_keep_alive req, c, finish ent (resp_status r) (length hit) ''HIT'' sv))
            | (None, held) \<Rightarrow> forward ent up key req consumed (sv\<lparr>sv_cache := held\<rparr>) c)
         else forward ent up key req consumed sv c))"

section \<open>handle_ready\<close>

datatype conn_state = Closed | Armed

definition close_conn :: "conn \<Rightarrow> server \<Rightarrow> conn_state \<times> conn \<times> server" where
  "close_conn c sv = (Closed, c, count (\<lambda>s. s\<lparr>st_active_connections := st_active_connections s - 1\<rparr>) sv)"

text \<open>The first loop: read until \<open>EAGAIN\<close>. The argument of \<open>Drained\<close> is \<open>peer_closed\<close>.\<close>

datatype drained = Drained bool | Too_large | Broken

function drain :: "options \<Rightarrow> conn \<Rightarrow> drained \<times> conn" where
  "drain opt c =
     (case sys_recv (cn_sock c) of
        (Inr bs, s) \<Rightarrow>
          if bs = [] then (Drained True, c\<lparr>cn_sock := s\<rparr>)
          else
            let c = c\<lparr>cn_sock := s, cn_inbuf := cn_inbuf c @ bs\<rparr> in
            if length (cn_inbuf c) > opt_max_header_bytes opt + opt_max_body_bytes opt then (Too_large, c)
            else drain opt c
      | (Inl e, s) \<Rightarrow>
          if e = EINTR then drain opt (c\<lparr>cn_sock := s\<rparr>)
          else if e = EAGAIN then (Drained False, c\<lparr>cn_sock := s\<rparr>)
          else (Broken, c\<lparr>cn_sock := s\<rparr>))"
  by pat_completeness auto
termination
proof (relation "measure (\<lambda>(opt, c). rx_left (cn_sock c))", goal_cases)
  case (2 opt c x s e)
  then show ?case by (auto dest!: sys_recv_left(2) [OF sym])
next
  case (3 opt c x s bs y)
  then obtain "sys_recv (cn_sock c) = (Inr bs, s)" "bs \<noteq> []" by auto
  from sys_recv_left(1) [OF this] this(2) 3 show ?case by (cases bs) auto
qed simp

declare drain.simps [simp del]

definition reject :: "server \<Rightarrow> conn \<Rightarrow> request \<Rightarrow> conn_state \<times> conn \<times> server" where
  "reject sv c req =
     (let sv = count (\<lambda>s. s\<lparr>st_bad_requests := st_bad_requests s + 1\<rparr>) sv;
          resp = build_response 400 ''Bad Request'' (''400 Bad Request: '' @ req_parse_error req @ [LF]) False ''text/plain'';
          (sent, c) = reply resp c;
          e = new_log_entry\<lparr>le_client_ip := cn_client_ip c, le_method := dash (req_method req),
                le_path := dash (req_path req), le_version := dash (req_version req), le_status := 400,
                le_bytes := length resp, le_acl := ''-'', le_rule := req_parse_error req\<rparr>;
          (now, duration) = sv_clock sv (sv_ticks sv);
          sv = sv\<lparr>sv_log := log_write now e (sv_log sv), sv_ticks := sv_ticks sv + 1\<rparr> in
      close_conn c sv)"

definition refuse :: "int \<Rightarrow> bytes \<Rightarrow> bytes \<Rightarrow> conn \<Rightarrow> conn" where
  "refuse status reason body c = snd (reply (build_response status reason (body @ [LF]) False ''text/plain'') c)"

text \<open>The second loop: serve every complete request in the buffer. The result says whether
  the connection was closed and, if it was not, whether anything was served.\<close>

partial_function (option) serve_buffered :: "server \<Rightarrow> conn \<Rightarrow> bool \<Rightarrow>
    (conn_state \<times> bool \<times> conn \<times> server) option" where
  "serve_buffered sv c served_any =
     (case find_header_end (cn_inbuf c) of
        None \<Rightarrow>
          if length (cn_inbuf c) > opt_max_header_bytes (sv_opt sv) then
            let c = refuse 431 ''Request Header Fields Too Large'' ''431 Header Too Large'' c;
                sv = count (\<lambda>s. s\<lparr>st_bad_requests := st_bad_requests s + 1\<rparr>) sv;
                (st, c, sv) = close_conn c sv in Some (st, served_any, c, sv)
          else Some (Armed, served_any, c, sv)
      | Some hend \<Rightarrow>
          let req = parse_request (cn_inbuf c) in
          if \<not> req_valid req then let (st, c, sv) = reject sv c req in Some (st, served_any, c, sv)
          else
            let need = unat (expected_request_bytes req) in
            if length (cn_inbuf c) < need then Some (Armed, served_any, c, sv)
            else
              let (keep, c, sv) = serve_one_request sv c req need;
                  c = c\<lparr>cn_inbuf := drop need (cn_inbuf c), cn_requests_served := cn_requests_served c + 1\<rparr> in
              if \<not> keep then let (st, c, sv) = close_conn c sv in Some (st, True, c, sv)
              else serve_buffered sv c True)"

text \<open>The last step; the answer of \<open>epoll_ctl\<close> is part of the connection.\<close>

definition rearm :: "conn \<Rightarrow> server \<Rightarrow> conn_state \<times> conn \<times> server" where
  "rearm c sv = (if cn_rearm_ok c then (Armed, c, sv) else close_conn c sv)"

partial_function (option) handle_ready :: "server \<Rightarrow> conn \<Rightarrow> (conn_state \<times> conn \<times> server) option" where
  "handle_ready sv c =
     (case drain (sv_opt sv) c of
        (Too_large, c) \<Rightarrow> Some (close_conn (refuse 413 ''Payload Too Large'' ''413 Payload Too Large'' c) sv)
      | (Broken, c) \<Rightarrow> Some (close_conn c sv)
      | (Drained peer_closed, c) \<Rightarrow>
          (case serve_buffered sv c False of
             None \<Rightarrow> None
           | Some (st, served_any, c, sv) \<Rightarrow>
               if st = Closed then Some (Closed, c, sv)
               else if peer_closed then Some (close_conn c sv)
               else if \<not> served_any then Some (rearm c sv)
               else handle_ready sv c))"

declare serve_buffered.simps [simp del] handle_ready.simps [simp del]

end
