(* ===== verification/Serving.thy ===== *)
theory Serving
  imports Request_Handler
begin

text \<open>
  Serving one request: lemmas about \<open>serve_one_request\<close> of \<open>src/server_phase5.cpp\<close> and
  about the parts of \<open>handle_ready\<close> that answer the client themselves. A request ends in one
  of four ways (\<open>serve_one_request_cases\<close>); the rest reads what the counters, the log, the
  cache, the network and the client see off that case analysis.
\<close>

section \<open>The parts\<close>

abbreviation plus_total :: "stats \<Rightarrow> stats" where "plus_total s \<equiv> s\<lparr>st_total_requests := st_total_requests s + 1\<rparr>"
abbreviation plus_denied :: "stats \<Rightarrow> stats" where "plus_denied s \<equiv> s\<lparr>st_denied_requests := st_denied_requests s + 1\<rparr>"
abbreviation plus_hit :: "stats \<Rightarrow> stats" where "plus_hit s \<equiv> s\<lparr>st_cache_served := st_cache_served s + 1\<rparr>"
abbreviation plus_error :: "stats \<Rightarrow> stats" where "plus_error s \<equiv> s\<lparr>st_upstream_errors := st_upstream_errors s + 1\<rparr>"
abbreviation plus_forwarded :: "stats \<Rightarrow> stats" where "plus_forwarded s \<equiv> s\<lparr>st_forwarded_requests := st_forwarded_requests s + 1\<rparr>"
abbreviation plus_bad :: "stats \<Rightarrow> stats" where "plus_bad s \<equiv> s\<lparr>st_bad_requests := st_bad_requests s + 1\<rparr>"
abbreviation minus_active :: "stats \<Rightarrow> stats" where "minus_active s \<equiv> s\<lparr>st_active_connections := st_active_connections s - 1\<rparr>"

lemma reply_frame [simp]:
  "cn_inbuf (snd (reply data c)) = cn_inbuf c" "cn_client_ip (snd (reply data c)) = cn_client_ip c"
  "cn_requests_served (snd (reply data c)) = cn_requests_served c" "cn_rearm_ok (snd (reply data c)) = cn_rearm_ok c"
  "sk_rx (cn_sock (snd (reply data c))) = sk_rx (cn_sock c)"
  by (simp_all add: reply_def split_beta)

lemma reply_wire:
  obtains m where "m \<le> length data" "sk_wire (cn_sock (snd (reply data c))) = sk_wire (cn_sock c) @ take m data"
    "fst (reply data c) = (m = length data)"
  by (rule send_all_effect [of data "cn_sock c"]) (simp add: reply_def split_beta)

lemma count_frame [simp]:
  "sv_opt (count f sv) = sv_opt sv" "sv_acl (count f sv) = sv_acl sv" "sv_cache (count f sv) = sv_cache sv"
  "sv_log (count f sv) = sv_log sv" "sv_stats (count f sv) = f (sv_stats sv)" "sv_hash (count f sv) = sv_hash sv"
  "sv_msg (count f sv) = sv_msg sv" "sv_clock (count f sv) = sv_clock sv" "sv_ticks (count f sv) = sv_ticks sv"
  "sv_net (count f sv) = sv_net sv" "sv_calls (count f sv) = sv_calls sv"
  by (simp_all add: count_def)

lemma log_write_lines [simp]: "lg_lines (log_write now e l) = lg_lines l + 1"
  by (simp add: log_write_def split_beta)

lemma finish_frame [simp]:
  "sv_opt (finish e st n cs sv) = sv_opt sv" "sv_acl (finish e st n cs sv) = sv_acl sv"
  "sv_cache (finish e st n cs sv) = sv_cache sv" "sv_stats (finish e st n cs sv) = sv_stats sv"
  "sv_hash (finish e st n cs sv) = sv_hash sv" "sv_msg (finish e st n cs sv) = sv_msg sv"
  "sv_clock (finish e st n cs sv) = sv_clock sv" "sv_ticks (finish e st n cs sv) = sv_ticks sv + 1"
  "sv_net (finish e st n cs sv) = sv_net sv" "sv_calls (finish e st n cs sv) = sv_calls sv"
  "lg_lines (sv_log (finish e st n cs sv)) = lg_lines (sv_log sv) + 1"
  by (simp_all add: finish_def split_beta Let_def)

lemma call_upstream_frame [simp]:
  "sv_opt (snd (call_upstream up b sv)) = sv_opt sv" "sv_acl (snd (call_upstream up b sv)) = sv_acl sv"
  "sv_cache (snd (call_upstream up b sv)) = sv_cache sv" "sv_stats (snd (call_upstream up b sv)) = sv_stats sv"
  "sv_log (snd (call_upstream up b sv)) = sv_log sv" "sv_hash (snd (call_upstream up b sv)) = sv_hash sv"
  "sv_msg (snd (call_upstream up b sv)) = sv_msg sv" "sv_clock (snd (call_upstream up b sv)) = sv_clock sv"
  "sv_ticks (snd (call_upstream up b sv)) = sv_ticks sv" "sv_net (snd (call_upstream up b sv)) = drop 1 (sv_net sv)"
  "sv_calls (snd (call_upstream up b sv)) = sv_calls sv @ [(up, b)]"
  by (simp_all add: call_upstream_def Let_def)

lemma cache_same: "sv_cache sv = x \<Longrightarrow> sv\<lparr>sv_cache := x\<rparr> = sv"
  by (cases sv) simp

section \<open>The four ways a request ends\<close>

text \<open>The cache after it was looked up, if it was.\<close>

definition probed :: "server \<Rightarrow> request \<Rightarrow> (bytes, bytes) sharded" where
  "probed sv req = (if cacheable_request req then snd (sharded_get (sv_hash sv) (sv_cache sv) (cache_key req)) else sv_cache sv)"

lemma forward_cases:
  assumes "forward ent up key req n sv c = (keep, c', sv')"
  obtains
    (failed) ur sv1 resp where "call_upstream up (take n (req_raw req)) sv = (ur, sv1)" "\<not> ur_ok ur"
      "resp = build_response 502 ''Bad Gateway'' (''502 Bad Gateway: '' @ ur_error ur @ [LF]) False ''text/plain''"
      "c' = snd (reply resp c)" "sv' = finish (ent\<lparr>le_rule := ur_error ur\<rparr>) 502 (length resp)
        (if cacheable_request req then ''MISS'' else ''BYPASS'') (count plus_error sv1)" "\<not> keep"
  | (forwarded) ur sv1 where "call_upstream up (take n (req_raw req)) sv = (ur, sv1)" "ur_ok ur"
      "c' = snd (reply (ur_raw ur) c)"
      "sv' = finish ent (ur_status ur) (length (ur_raw ur)) (if cacheable_request req then ''MISS'' else ''BYPASS'') ((count plus_forwarded sv1)\<lparr>sv_cache :=
         (if cacheable_request req \<and> is_cacheable req (parse_response_headers (ur_raw ur))
          then sharded_put (sv_hash sv) (sv_cache sv) key (ur_raw ur) else sv_cache sv)\<rparr>)"
      "keep = (fst (reply (ur_raw ur) c) \<and> req_keep_alive req)"
proof -
  obtain ur sv1 where call: "call_upstream up (take n (req_raw req)) sv = (ur, sv1)" by fastforce
  then have f: "sv_hash sv1 = sv_hash sv" "sv_cache sv1 = sv_cache sv"
    using call_upstream_frame(3,6) [of up "take n (req_raw req)" sv] by simp_all
  have id: "(count plus_forwarded sv1)\<lparr>sv_cache := sv_cache sv\<rparr> = count plus_forwarded sv1"
    by (rule cache_same) (simp add: f)
  show thesis
  proof (cases "ur_ok ur")
    case True
    with assms call f show thesis
      by (intro forwarded [OF call True]) (auto simp: forward_def id Let_def split_beta)
  next
    case False
    with assms call show thesis
      by (intro failed [OF call False refl]) (auto simp: forward_def Let_def split_beta)
  qed
qed

lemma serve_one_request_cases:
  assumes "serve_one_request sv c req n = (keep, c', sv')"
  obtains
    (denied) resp ent where "acl_decision (check (sv_acl sv) req) = Deny"
      "resp = build_response 403 ''Forbidden'' (''403 Forbidden: blocked by proxy policy'' @ [LF]) (req_keep_alive req) ''text/plain''"
      "c' = snd (reply resp c)" "sv' = finish ent 403 (length resp) ''BYPASS'' (count plus_denied (count plus_total sv))"
      "keep = (fst (reply resp c) \<and> req_keep_alive req)"
  | (hit) v ent where "acl_decision (check (sv_acl sv) req) = Allow" "cacheable_request req"
      "fst (sharded_get (sv_hash sv) (sv_cache sv) (cache_key req)) = Some v"
      "c' = snd (reply v c)"
      "sv' = finish ent (resp_status (parse_response_headers v)) (length v) ''HIT''
         (count plus_hit ((count plus_total sv)\<lparr>sv_cache := probed sv req\<rparr>))"
      "keep = (fst (reply v c) \<and> req_keep_alive req)"
  | (fetched) ent where "acl_decision (check (sv_acl sv) req) = Allow"
      "cacheable_request req \<Longrightarrow> fst (sharded_get (sv_hash sv) (sv_cache sv) (cache_key req)) = None"
      "forward ent (resolve (ac_routes (sv_acl sv)) (req_host req)) (cache_key req) req n
         ((count plus_total sv)\<lparr>sv_cache := probed sv req\<rparr>) c = (keep, c', sv')"
proof (cases "acl_decision (check (sv_acl sv) req)")
  case Deny
  with assms show thesis
    by (intro denied [OF Deny refl]) (auto simp: serve_one_request_def Let_def split_beta)
next
  case Allow
  obtain r held where g: "sharded_get (sv_hash sv) (sv_cache sv) (cache_key req) = (r, held)" by fastforce
  have id: "(count plus_total sv)\<lparr>sv_cache := sv_cache sv\<rparr> = count plus_total sv" by (rule cache_same) simp
  consider v where "cacheable_request req" "r = Some v" | "cacheable_request req" "r = None" | "\<not> cacheable_request req"
    by (cases r) auto
  then show thesis
  proof cases
    case (1 v)
    with assms Allow g show thesis
      by (intro hit [OF Allow, of v]) (auto simp: serve_one_request_def Let_def split_beta probed_def)
  next
    case 2
    with assms Allow g show thesis
      by (intro fetched [OF Allow]) (auto simp: serve_one_request_def Let_def probed_def)
  next
    case 3
    with assms Allow show thesis
      by (intro fetched [OF Allow]) (simp_all add: serve_one_request_def Let_def probed_def id)
  qed
qed

section \<open>Replies the server writes itself\<close>

definition reply_fields :: "bytes \<Rightarrow> bool \<Rightarrow> bytes \<Rightarrow> (bytes \<times> bytes) list" where
  "reply_fields body keep_alive content_type = [(''Content-Type'', content_type), (''Content-Length'', nat_str (length body)),
     (''Connection'', if keep_alive then ''keep-alive'' else ''close'')]"

lemma build_response_print:
  "build_response (int st) reason body ka ct = print_response ''HTTP/1.1'' st reason (reply_fields body ka ct) @ body"
  by (simp add: build_response_def print_response_def response_lines_def reply_fields_def header_line_def int_str_def)

lemma length_nat_str: "length (nat_str n) \<le> Suc n"
proof (induction n rule: nat_str.induct)
  case (1 n)
  have "\<not> n < 10 \<Longrightarrow> Suc (n div 10) \<le> n" by presburger
  with 1 show ?case by (subst nat_str.simps) auto
qed

lemma trim_nat_str: "trim (nat_str n) = nat_str n"
proof (rule trim_id)
  have "\<not> is_ws c" if "c \<in> set (nat_str n)" for c
    using that nat_str_free [of c n] by (auto simp: is_ws_def)
  then show "\<not> is_ws (hd (nat_str n))" "\<not> is_ws (last (nat_str n))" by simp_all
qed simp

lemma reply_fields_ok:
  assumes "CR \<notin> set ct" "LF \<notin> set ct" "trim ct = ct"
  shows "\<forall>nv \<in> set (reply_fields body ka ct). field_ok nv"
proof -
  have "token ''Content-Type''" "token ''Content-Length''" "token ''Connection''"
    "trim ''keep-alive'' = ''keep-alive''" "trim ''close'' = ''close''" by code_simp+
  with assms show ?thesis
    using nat_str_free [of CR "length body"] nat_str_free [of LF "length body"]
    by (auto simp: reply_fields_def field_ok_def trim_nat_str)
qed

lemma reply_fields_values:
  "last_value (reply_fields body ka ct) ''content-length'' = Some (nat_str (length body))"
  "last_value (reply_fields body ka ct) ''connection'' = Some (if ka then ''keep-alive'' else ''close'')"
  "last_value (reply_fields body ka ct) ''transfer-encoding'' = None"
proof -
  have l: "to_lower ''Content-Type'' = ''content-type''" "to_lower ''Content-Length'' = ''content-length''"
    "to_lower ''Connection'' = ''connection''" by code_simp+
  show "last_value (reply_fields body ka ct) ''content-length'' = Some (nat_str (length body))"
    "last_value (reply_fields body ka ct) ''connection'' = Some (if ka then ''keep-alive'' else ''close'')"
    "last_value (reply_fields body ka ct) ''transfer-encoding'' = None"
    by (simp_all add: last_value_def field_values_def reply_fields_def l)
qed

lemma own_reply_facts:
  assumes "100 \<le> st" "st \<le> 599" "CR \<notin> set reason" "LF \<notin> set reason"
    and "CR \<notin> set ct" "LF \<notin> set ct" "trim ct = ct"
    and "length (build_response (int st) reason body ka ct) < 2 ^ 63"
  shows "resp_status (parse_response_headers (build_response (int st) reason body ka ct)) = int st"
    "drop (resp_header_bytes (parse_response_headers (build_response (int st) reason body ka ct)))
       (build_response (int st) reason body ka ct) = body"
    "resp_header (parse_response_headers (build_response (int st) reason body ka ct)) ''connection'' =
       Some (if ka then ''keep-alive'' else ''close'')"
    "response_complete (build_response (int st) reason body ka ct @ later)
       (parse_response_headers (build_response (int st) reason body ka ct))"
proof -
  let ?hs = "reply_fields body ka ct"
  have "word_ok ''HTTP/1.1''" by code_simp
  with assms reply_fields_ok [OF assms(5-7)] have p: "response_printable ''HTTP/1.1'' st reason ?hs"
    by (simp add: response_printable_def)
  have nc: "\<not> says_chunked ?hs" by (simp add: says_chunked_def reply_fields_values)
  have len: "length (print_response ''HTTP/1.1'' st reason ?hs) + length body < 2 ^ 63"
    using assms(8) by (simp only: build_response_print length_append)
  note F = response_head_facts [OF p, of body]
  show "resp_status (parse_response_headers (build_response (int st) reason body ka ct)) = int st"
    "resp_header (parse_response_headers (build_response (int st) reason body ka ct)) ''connection'' =
       Some (if ka then ''keep-alive'' else ''close'')"
    using F [of "''connection''"] by (simp_all only: build_response_print reply_fields_values)
  have "resp_header_bytes (parse_response_headers (build_response (int st) reason body ka ct)) =
      length (print_response ''HTTP/1.1'' st reason ?hs)"
    using F by (simp only: build_response_print)
  then show "drop (resp_header_bytes (parse_response_headers (build_response (int st) reason body ka ct)))
       (build_response (int st) reason body ka ct) = body"
    by (simp only: build_response_print) simp
  have "int (length body) \<le> LONG_MAX" using len by (simp add: LONG_MAX_def)
  from length_framing [OF p nc reply_fields_values(1) this, of "body @ later" body] len
  show "response_complete (build_response (int st) reason body ka ct @ later)
       (parse_response_headers (build_response (int st) reason body ka ct))"
    by (simp only: build_response_print append_assoc length_append add_leD1 le_add1)
qed

text \<open>The server's own replies are well-formed HTTP. Whatever status, reason and body
  \<open>build_response\<close> is given (no line breaks in the reason and the content type), the
  response parser reads the status back, takes the connection header that was asked for,
  finds the body exactly behind the header block, and sees the response as complete.\<close>

theorem own_reply_is_response:
  assumes "100 \<le> st" "st \<le> 599" "CR \<notin> set reason" "LF \<notin> set reason"
    and "CR \<notin> set ct" "LF \<notin> set ct" "trim ct = ct"
    and "length (build_response (int st) reason body ka ct) < 2 ^ 63"
  shows "resp_status (parse_response_headers (build_response (int st) reason body ka ct)) = int st \<and>
    drop (resp_header_bytes (parse_response_headers (build_response (int st) reason body ka ct)))
       (build_response (int st) reason body ka ct) = body \<and>
    resp_header (parse_response_headers (build_response (int st) reason body ka ct)) ''connection'' =
       Some (if ka then ''keep-alive'' else ''close'') \<and>
    response_complete (build_response (int st) reason body ka ct @ later)
       (parse_response_headers (build_response (int st) reason body ka ct))"
  using own_reply_facts [OF assms] by simp

theorem own_reply_is_response_witness:
  "resp_status (parse_response_headers (build_response 431 ''Request Header Fields Too Large''
     ''431 Header Too Large'' False ''text/plain'')) = 431"
proof -
  have "trim ''text/plain'' = ''text/plain''" by code_simp
  moreover have "length (build_response (int 431) ''Request Header Fields Too Large''
     ''431 Header Too Large'' False ''text/plain'') < 2 ^ 63"
    using length_nat_str [of 431] length_nat_str [of "length ''431 Header Too Large''"] by (simp add: build_response_def int_str_def)
  ultimately show ?thesis
    using own_reply_is_response [of 431 "''Request Header Fields Too Large''" "''text/plain''"
      "''431 Header Too Large''" False] by simp
qed

section \<open>What serving a request changes\<close>

lemma forward_frame:
  assumes "forward ent up key req n sv c = (keep, c', sv')"
  shows "sv_opt sv' = sv_opt sv" "sv_acl sv' = sv_acl sv" "sv_hash sv' = sv_hash sv" "sv_msg sv' = sv_msg sv"
    "lg_lines (sv_log sv') = lg_lines (sv_log sv) + 1" "sv_ticks sv' = sv_ticks sv + 1"
    "sv_calls sv' = sv_calls sv @ [(up, take n (req_raw req))]"
proof -
  obtain ur sv1 where call: "call_upstream up (take n (req_raw req)) sv = (ur, sv1)" by fastforce
  note f = call_upstream_frame [of up "take n (req_raw req)" sv, unfolded call snd_conv]
  have "sv_opt sv' = sv_opt sv \<and> sv_acl sv' = sv_acl sv \<and> sv_hash sv' = sv_hash sv \<and> sv_msg sv' = sv_msg sv \<and>
      lg_lines (sv_log sv') = lg_lines (sv_log sv) + 1 \<and> sv_ticks sv' = sv_ticks sv + 1 \<and>
      sv_calls sv' = sv_calls sv @ [(up, take n (req_raw req))]"
    using assms call f by (cases rule: forward_cases) auto
  then show "sv_opt sv' = sv_opt sv" "sv_acl sv' = sv_acl sv" "sv_hash sv' = sv_hash sv" "sv_msg sv' = sv_msg sv"
    "lg_lines (sv_log sv') = lg_lines (sv_log sv) + 1" "sv_ticks sv' = sv_ticks sv + 1"
    "sv_calls sv' = sv_calls sv @ [(up, take n (req_raw req))]" by simp_all
qed

lemma forward_conn:
  assumes "forward ent up key req n sv c = (keep, c', sv')"
  shows "\<exists>data. c' = snd (reply data c)"
  using assms by (cases rule: forward_cases) auto

lemma serve_conn:
  assumes "serve_one_request sv c req n = (keep, c', sv')"
  shows "\<exists>data. c' = snd (reply data c)"
  using assms by (cases rule: serve_one_request_cases) (auto dest: forward_conn)

lemma serve_frame:
  assumes "serve_one_request sv c req n = (keep, c', sv')"
  shows "sv_opt sv' = sv_opt sv \<and> sv_acl sv' = sv_acl sv \<and> sv_hash sv' = sv_hash sv \<and> sv_msg sv' = sv_msg sv \<and>
    lg_lines (sv_log sv') = lg_lines (sv_log sv) + 1 \<and> sv_ticks sv' = sv_ticks sv + 1"
  using assms
proof (cases rule: serve_one_request_cases)
  case (fetched ent)
  from forward_frame [OF fetched(3)] show ?thesis by simp
qed auto

text \<open>How the counters move: one request in, one of four outcomes.\<close>

definition answered :: "stats \<Rightarrow> u64" where
  "answered s = st_cache_served s + st_forwarded_requests s + st_denied_requests s + st_upstream_errors s"

lemma forward_counts:
  assumes "forward ent up key req n sv c = (keep, c', sv')"
  shows "sv_stats sv' \<in> {plus_error (sv_stats sv), plus_forwarded (sv_stats sv)}"
proof -
  obtain ur sv1 where call: "call_upstream up (take n (req_raw req)) sv = (ur, sv1)" by fastforce
  with assms call_upstream_frame(4) [of up "take n (req_raw req)" sv] show ?thesis
    by (cases rule: forward_cases) auto
qed

lemma serve_counts:
  assumes "serve_one_request sv c req n = (keep, c', sv')"
  shows "sv_stats sv' \<in> (\<lambda>f. f (plus_total (sv_stats sv))) ` {plus_denied, plus_hit, plus_error, plus_forwarded}"
  using assms
proof (cases rule: serve_one_request_cases)
  case (fetched ent)
  from forward_counts [OF fetched(3)] show ?thesis by auto
qed auto

lemma serve_answered:
  assumes "serve_one_request sv c req n = (keep, c', sv')"
  shows "st_total_requests (sv_stats sv') = st_total_requests (sv_stats sv) + 1"
    "answered (sv_stats sv') = answered (sv_stats sv) + 1"
    "st_bad_requests (sv_stats sv') = st_bad_requests (sv_stats sv)"
    "st_active_connections (sv_stats sv') = st_active_connections (sv_stats sv)"
  using serve_counts [OF assms] by (auto simp: answered_def)

text \<open>What is asked of the network.\<close>

lemma serve_calls:
  assumes "serve_one_request sv c req n = (keep, c', sv')"
  shows "sv_calls sv' = sv_calls sv \<or> acl_decision (check (sv_acl sv) req) = Allow \<and>
    sv_calls sv' = sv_calls sv @ [(resolve (ac_routes (sv_acl sv)) (req_host req), take n (req_raw req))]"
  using assms
proof (cases rule: serve_one_request_cases)
  case (fetched ent)
  from forward_frame(7) [OF fetched(3)] fetched(1) show ?thesis by simp
qed auto

text \<open>What may lie in the cache under a key.\<close>

definition cacheable_as :: "bytes \<Rightarrow> bytes \<Rightarrow> bool" where
  "cacheable_as key v \<longleftrightarrow> (\<exists>req. cacheable_request req \<and> cache_key req = key \<and>
     is_cacheable req (parse_response_headers v))"

definition cache_sound :: "server \<Rightarrow> bool" where
  "cache_sound sv \<longleftrightarrow> sharded_ok (sv_cache sv) \<and>
     (\<forall>k v. sharded_look (sv_hash sv) (sv_cache sv) k = Some v \<longrightarrow> cacheable_as k v)"

lemma probed_sound:
  assumes "cache_sound sv"
  shows "sharded_ok (probed sv req)" "sharded_look (sv_hash sv) (probed sv req) k = sharded_look (sv_hash sv) (sv_cache sv) k"
  using assms sharded.ok_get [of "sv_cache sv" "sv_hash sv" "cache_key req"]
    sharded.look_get [of "sv_cache sv" "sv_hash sv" "cache_key req" k]
  by (simp_all add: cache_sound_def probed_def)

lemma put_sound:
  assumes "sharded_ok ch" "\<And>k v. sharded_look h ch k = Some v \<Longrightarrow> P k v" "P key v"
  shows "sharded_ok (sharded_put h ch key v)" "sharded_look h (sharded_put h ch key v) k = Some w \<Longrightarrow> P k w"
proof -
  show "sharded_ok (sharded_put h ch key v)" by (rule sharded.ok_put [OF assms(1)])
  assume w: "sharded_look h (sharded_put h ch key v) k = Some w"
  show "P k w"
  proof (cases "k = key")
    case True
    with w sharded.look_put_same [OF assms(1), of h key v] assms(3) show ?thesis by simp
  next
    case False
    with w sharded.look_put_other [OF assms(1) False, of h v] assms(2) show ?thesis by auto
  qed
qed

lemma forward_sound:
  assumes "forward ent up (cache_key req) req n sv c = (keep, c', sv')" "cache_sound sv"
  shows "cache_sound sv'"
proof -
  obtain ur sv1 where call: "call_upstream up (take n (req_raw req)) sv = (ur, sv1)" by fastforce
  note f = call_upstream_frame(3,6) [of up "take n (req_raw req)" sv, unfolded call snd_conv]
  from assms(1) show ?thesis
  proof (cases rule: forward_cases)
    case (failed ur' sv1' resp)
    with call f assms(2) show ?thesis by (simp add: cache_sound_def)
  next
    case (forwarded ur' sv1')
    then have u: "ur' = ur" "sv1' = sv1" using call by simp_all
    show ?thesis
    proof (cases "cacheable_request req \<and> is_cacheable req (parse_response_headers (ur_raw ur))")
      case True
      then have "cacheable_as (cache_key req) (ur_raw ur)" by (auto simp: cacheable_as_def)
      note P = put_sound [of "sv_cache sv" "sv_hash sv" cacheable_as "cache_key req" "ur_raw ur", OF _ _ this]
      have "sv_cache sv' = sharded_put (sv_hash sv) (sv_cache sv) (cache_key req) (ur_raw ur)" "sv_hash sv' = sv_hash sv"
        using forwarded(4) u f True by simp_all
      with P assms(2) show ?thesis unfolding cache_sound_def by metis
    next
      case False
      then have "sv_cache sv' = sv_cache sv" "sv_hash sv' = sv_hash sv" using forwarded(4) u f by auto
      with assms(2) show ?thesis by (simp add: cache_sound_def)
    qed
  qed
qed

lemma serve_sound:
  assumes "serve_one_request sv c req n = (keep, c', sv')" "cache_sound sv"
  shows "cache_sound sv'"
  using assms(1)
proof (cases rule: serve_one_request_cases)
  case (fetched ent)
  have "cache_sound ((count plus_total sv)\<lparr>sv_cache := probed sv req\<rparr>)"
    using assms(2) probed_sound [OF assms(2), of req] by (simp add: cache_sound_def)
  from forward_sound [OF fetched(3) this] show ?thesis .
next
  case (hit v ent)
  with assms(2) probed_sound [OF assms(2), of req] show ?thesis by (simp add: cache_sound_def)
qed (use assms(2) in \<open>simp add: cache_sound_def\<close>)

end
