(* ===== verification/Worker.thy ===== *)
theory Worker
  imports Serving
begin

text \<open>
  One run of \<open>handle_ready\<close>. The locale \<open>worker_relation\<close> turns a relation that every
  elementary step of the handler respects into one between the state before and after the run;
  its interpretations say what a run does to the configuration, the counters, the cache, the
  upstream calls and the byte stream of the connection. The run always ends.
\<close>

section \<open>One run, step by step\<close>

definition after_serving :: "nat \<Rightarrow> conn \<Rightarrow> conn" where
  "after_serving need c = c\<lparr>cn_inbuf := drop need (cn_inbuf c), cn_requests_served := cn_requests_served c + 1\<rparr>"

text \<open>The buffer starts with a complete request of \<open>need\<close> bytes.\<close>

definition complete_request :: "bytes \<Rightarrow> nat \<Rightarrow> bool" where
  "complete_request buf need \<longleftrightarrow> req_valid (parse_request buf) \<and>
     need = unat (expected_request_bytes (parse_request buf)) \<and> need \<le> length buf"

definition idle :: "options \<Rightarrow> conn \<Rightarrow> bool" where
  "idle opt c \<longleftrightarrow> (case find_header_end (cn_inbuf c) of
     None \<Rightarrow> length (cn_inbuf c) \<le> opt_max_header_bytes opt
   | Some e \<Rightarrow> req_valid (parse_request (cn_inbuf c)) \<and>
       length (cn_inbuf c) < unat (expected_request_bytes (parse_request (cn_inbuf c))))"

text \<open>A page the server writes itself.\<close>

definition own_page :: "bytes \<Rightarrow> bool" where
  "own_page data \<longleftrightarrow> (\<exists>status reason body keep. data = build_response status reason body keep ''text/plain'')"

lemma own_page [simp]: "own_page (build_response status reason body keep ''text/plain'')"
  by (auto simp: own_page_def)

lemma reject_steps:
  obtains data now e where "reject sv c req = (Closed, snd (reply data c), count minus_active
     ((count plus_bad sv)\<lparr>sv_log := log_write now e (sv_log sv), sv_ticks := sv_ticks sv + 1\<rparr>))" "own_page data"
  by (simp add: reject_def close_conn_def Let_def split_beta)

lemma serve_buffered_ind [consumes 1, case_names idle long bad stop go]:
  assumes run: "serve_buffered sv c b = Some (st, b', c', sv')"
    and idle: "\<And>sv c b. idle (sv_opt sv) c \<Longrightarrow> P sv c b Armed b c sv"
    and long: "\<And>sv c b data. own_page data \<Longrightarrow> P sv c b Closed b (snd (reply data c)) (count minus_active (count plus_bad sv))"
    and bad: "\<And>sv c b data now e. own_page data \<Longrightarrow> P sv c b Closed b (snd (reply data c)) (count minus_active
       ((count plus_bad sv)\<lparr>sv_log := log_write now e (sv_log sv), sv_ticks := sv_ticks sv + 1\<rparr>))"
    and stop: "\<And>sv c b need c1 sv1. complete_request (cn_inbuf c) need \<Longrightarrow>
       serve_one_request sv c (parse_request (cn_inbuf c)) need = (False, c1, sv1) \<Longrightarrow>
       P sv c b Closed True (after_serving need c1) (count minus_active sv1)"
    and go: "\<And>sv c b need c1 sv1 st b' c' sv'. complete_request (cn_inbuf c) need \<Longrightarrow>
       serve_one_request sv c (parse_request (cn_inbuf c)) need = (True, c1, sv1) \<Longrightarrow>
       P sv1 (after_serving need c1) True st b' c' sv' \<Longrightarrow> P sv c b st b' c' sv'"
  shows "P sv c b st b' c' sv'"
proof -
  have "case r of (st, b', c', sv') \<Rightarrow> P sv c b st b' c' sv'" if "serve_buffered sv c b = Some r" for r
  proof (rule serve_buffered.raw_induct [OF _ that], goal_cases)
    case (1 serve_buffered sv c b r)
    show ?case
    proof (cases "find_header_end (cn_inbuf c)")
      case None
      with 1(2) idle [of sv c b] long show ?thesis
        by (auto simp: refuse_def close_conn_def idle_def Let_def split: if_splits)
    next
      case (Some e)
      let ?req = "parse_request (cn_inbuf c)" and ?need = "unat (expected_request_bytes (parse_request (cn_inbuf c)))"
      obtain data now ent where rej: "reject sv c ?req = (Closed, snd (reply data c), count minus_active
          ((count plus_bad sv)\<lparr>sv_log := log_write now ent (sv_log sv), sv_ticks := sv_ticks sv + 1\<rparr>))" "own_page data"
        by (rule reject_steps)
      obtain keep c1 sv1 where s: "serve_one_request sv c ?req ?need = (keep, c1, sv1)" by (metis prod_cases3)
      consider (bad) "\<not> req_valid ?req" | (short) "req_valid ?req" "length (cn_inbuf c) < ?need"
        | (full) "complete_request (cn_inbuf c) ?need"
        by (fastforce simp: complete_request_def)
      then show ?thesis
      proof cases
        case bad
        with 1(2) Some rej have "r = (Closed, b, snd (reply data c), count minus_active
            ((count plus_bad sv)\<lparr>sv_log := log_write now ent (sv_log sv), sv_ticks := sv_ticks sv + 1\<rparr>))"
          by (simp add: Let_def)
        then show ?thesis using assms(4) [OF rej(2)] by simp
      next
        case short
        with 1(2) Some idle [of sv c b] show ?thesis by (auto simp: Let_def idle_def)
      next
        case full
        then have f: "req_valid ?req" "\<not> length (cn_inbuf c) < ?need" by (simp_all add: complete_request_def)
        have "(if \<not> keep then Some (Closed, True, after_serving ?need c1, count minus_active sv1)
             else serve_buffered sv1 (after_serving ?need c1) True) = Some r"
          using 1(2) Some f s by (cases keep) (simp_all add: Let_def close_conn_def after_serving_def)
        then show ?thesis
          using stop [OF full] go [OF full] 1(1) [of sv1 "after_serving ?need c1" True r] s by (cases keep) (auto split: prod.splits)
      qed
    qed
  qed
  from this [OF run] show ?thesis by simp
qed


lemma handle_ready_ind [consumes 1, case_names large broken shut eof rest again]:
  assumes run: "handle_ready sv c = Some (st, c', sv')"
    and large: "\<And>sv c c1 data. drain (sv_opt sv) c = (Too_large, c1) \<Longrightarrow> own_page data \<Longrightarrow>
       P sv c Closed (snd (reply data c1)) (count minus_active sv)"
    and broken: "\<And>sv c c1. drain (sv_opt sv) c = (Broken, c1) \<Longrightarrow> P sv c Closed c1 (count minus_active sv)"
    and shut: "\<And>sv c p c1 b c2 sv2. drain (sv_opt sv) c = (Drained p, c1) \<Longrightarrow>
       serve_buffered sv c1 False = Some (Closed, b, c2, sv2) \<Longrightarrow> P sv c Closed c2 sv2"
    and eof: "\<And>sv c c1 b c2 sv2. drain (sv_opt sv) c = (Drained True, c1) \<Longrightarrow>
       serve_buffered sv c1 False = Some (Armed, b, c2, sv2) \<Longrightarrow> P sv c Closed c2 (count minus_active sv2)"
    and rest: "\<And>sv c c1 c2 sv2 r. drain (sv_opt sv) c = (Drained False, c1) \<Longrightarrow>
       serve_buffered sv c1 False = Some (Armed, False, c2, sv2) \<Longrightarrow> rearm c2 sv2 = r \<Longrightarrow>
       P sv c (fst r) (fst (snd r)) (snd (snd r))"
    and again: "\<And>sv c c1 c2 sv2 st c' sv'. drain (sv_opt sv) c = (Drained False, c1) \<Longrightarrow>
       serve_buffered sv c1 False = Some (Armed, True, c2, sv2) \<Longrightarrow> P sv2 c2 st c' sv' \<Longrightarrow> P sv c st c' sv'"
  shows "P sv c st c' sv'"
proof -
  have "P sv c (fst r) (fst (snd r)) (snd (snd r))" if "handle_ready sv c = Some r" for r
  proof (rule handle_ready.raw_induct [OF _ that], goal_cases)
    case (1 handle_ready sv c r)
    obtain d c1 where d: "drain (sv_opt sv) c = (d, c1)" by fastforce
    show ?case
    proof (cases d)
      case (Drained p)
      obtain st b c2 sv2 where s: "serve_buffered sv c1 False = Some (st, b, c2, sv2)"
        using 1(2) d Drained by (auto split: option.splits)
      have r: "(if st = Closed then Some (Closed, c2, sv2) else if p then Some (close_conn c2 sv2)
          else if \<not> b then Some (rearm c2 sv2) else handle_ready sv2 c2) = Some r"
        using 1(2) d Drained s by simp
      consider (shut) "st = Closed" "r = (Closed, c2, sv2)" | (eof) "st = Armed" p "r = close_conn c2 sv2"
        | (rest) "st = Armed" "\<not> p" "\<not> b" "r = rearm c2 sv2" | (again) "st = Armed" "\<not> p" b "handle_ready sv2 c2 = Some r"
        using r by (cases st; cases p; cases b) simp_all
      then show ?thesis
      proof cases
        case shut
        with assms(4) d s Drained show ?thesis by simp
      next
        case eof
        with assms(5) d s Drained show ?thesis by (simp add: close_conn_def)
      next
        case rest
        with assms(6) d s Drained show ?thesis by simp
      next
        case again
        from assms(7) [OF _ _ 1(1) [OF again(4)]] d s Drained again(1-3) show ?thesis by simp
      qed
    next
      case Too_large
      with 1(2) d large show ?thesis by (auto simp: refuse_def close_conn_def)
    next
      case Broken
      with 1(2) d broken show ?thesis by (auto simp: close_conn_def)
    qed
  qed
  from this [OF run] show ?thesis by simp
qed

section \<open>A relation every step respects\<close>

locale worker_relation =
  fixes R :: "server \<times> conn \<Rightarrow> server \<times> conn \<Rightarrow> bool"
  assumes refl: "R x x"
    and trans: "R x y \<Longrightarrow> R y z \<Longrightarrow> R x z"
    and drained: "drain (sv_opt sv) c = (d, c') \<Longrightarrow> R (sv, c) (sv, c')"
    and replied: "R (sv, c) (sv, snd (reply data c))"
    and bad: "R (sv, c) (count plus_bad sv, c)"
    and logged: "R (sv, c) (sv\<lparr>sv_log := log_write now e (sv_log sv), sv_ticks := sv_ticks sv + 1\<rparr>, c)"
    and closed: "R (sv, c) (count minus_active sv, c)"
    and served: "complete_request (cn_inbuf c) need \<Longrightarrow>
      serve_one_request sv c (parse_request (cn_inbuf c)) need = (keep, c', sv') \<Longrightarrow>
      R (sv, c) (sv', after_serving need c')"
begin

lemma serve_buffered_rel:
  "serve_buffered sv c b = Some (st, b', c', sv') \<Longrightarrow> R (sv, c) (sv', c')"
proof (induction rule: serve_buffered_ind)
  case (idle sv c b)
  show ?case by (rule refl)
next
  case (long sv c b data)
  show ?case by (rule trans [OF trans [OF replied bad] closed])
next
  case (bad sv c b data now e)
  have "R (sv, c) (count plus_bad sv, snd (reply data c))" by (rule trans [OF replied worker_relation.bad [OF worker_relation_axioms]])
  moreover have "R (count plus_bad sv, snd (reply data c)) ((count plus_bad sv)\<lparr>sv_log := log_write now e (sv_log sv),
      sv_ticks := sv_ticks sv + 1\<rparr>, snd (reply data c))"
    using logged [of "count plus_bad sv" "snd (reply data c)" now e] by simp
  ultimately show ?case by (rule trans [OF trans closed])
next
  case (stop sv c b need c1 sv1)
  show ?case by (rule trans [OF served [OF stop] closed])
next
  case (go sv c b need c1 sv1 st b' c' sv')
  show ?case by (rule trans [OF served [OF go(1,2)] go(3)])
qed

lemma handle_ready_rel: "handle_ready sv c = Some (st, c', sv') \<Longrightarrow> R (sv, c) (sv', c')"
proof (induction rule: handle_ready_ind)
  case (large sv c c1 data)
  show ?case by (rule trans [OF trans [OF drained [OF large(1)] replied] closed])
next
  case (broken sv c c1)
  show ?case by (rule trans [OF drained [OF broken] closed])
next
  case (shut sv c p c1 b c2 sv2)
  show ?case by (rule trans [OF drained [OF shut(1)] serve_buffered_rel [OF shut(2)]])
next
  case (eof sv c c1 b c2 sv2)
  show ?case by (rule trans [OF trans [OF drained [OF eof(1)] serve_buffered_rel [OF eof(2)]] closed])
next
  case (rest sv c c1 c2 sv2 r)
  have "R (sv, c) (sv2, c2)" by (rule trans [OF drained [OF rest(1)] serve_buffered_rel [OF rest(2)]])
  from this trans [OF this closed] rest(3) show ?case by (auto simp: rearm_def close_conn_def)
next
  case (again sv c c1 c2 sv2 st c' sv')
  show ?case by (rule trans [OF trans [OF drained [OF again(1)] serve_buffered_rel [OF again(2)]] again(3)])
qed

end

section \<open>What each step does to the byte stream\<close>

lemma drain_effect:
  "drain opt c = (d, c') \<Longrightarrow>
     cn_inbuf c' @ rx_bytes (cn_sock c') = cn_inbuf c @ rx_bytes (cn_sock c) \<and>
     rx_left (cn_sock c') + length (cn_inbuf c') \<le> rx_left (cn_sock c) + length (cn_inbuf c) \<and>
     cn_requests_served c' = cn_requests_served c \<and> cn_client_ip c' = cn_client_ip c \<and>
     cn_rearm_ok c' = cn_rearm_ok c \<and> sk_wire (cn_sock c') = sk_wire (cn_sock c) \<and>
     (d \<noteq> Too_large \<longrightarrow> length (cn_inbuf c') \<le> max (length (cn_inbuf c)) (opt_max_header_bytes opt + opt_max_body_bytes opt))"
proof (induction opt c rule: drain.induct)
  case (1 opt c)
  obtain r s where r: "sys_recv (cn_sock c) = (r, s)" by fastforce
  have w: "sk_wire s = sk_wire (cn_sock c)"
    using r by (auto simp: sys_recv_def split: list.splits recv_answer.splits if_splits)
  show ?case
  proof (cases r)
    case (Inl e)
    have left: "e = EINTR \<Longrightarrow> rx_left s < rx_left (cn_sock c)" "rx_left s \<le> rx_left (cn_sock c)"
      using r Inl by (auto simp: sys_recv_def rx_left_def split: list.splits recv_answer.splits if_splits)
    show ?thesis
    proof (cases "e = EINTR")
      case True
      with "1.IH"(1) [OF r [symmetric] Inl True] 1(3) r Inl sys_recv_bytes(2) [OF r [unfolded Inl]] left w show ?thesis
        by (simp add: drain.simps [of opt c])
    next
      case False
      with 1(3) r Inl sys_recv_bytes(2) [OF r [unfolded Inl]] left w show ?thesis
        by (auto simp: drain.simps [of opt c] split: if_splits)
    qed
  next
    case (Inr bs)
    note B = sys_recv_bytes(1) [OF r [unfolded Inr]]
    show ?thesis
    proof (cases "bs = []")
      case True
      then have "rx_left s \<le> rx_left (cn_sock c)"
        using r Inr by (auto simp: sys_recv_def rx_left_def recv_max_def split: list.splits recv_answer.splits if_splits)
      with 1(3) r Inr True B w show ?thesis by (auto simp: drain.simps [of opt c])
    next
      case False
      let ?c = "c\<lparr>cn_sock := s, cn_inbuf := cn_inbuf c @ bs\<rparr>"
      note L = sys_recv_left(1) [OF r [unfolded Inr] False]
      show ?thesis
      proof (cases "length (cn_inbuf ?c) > opt_max_header_bytes opt + opt_max_body_bytes opt")
        case True
        with 1(3) r Inr False B L w show ?thesis by (auto simp: drain.simps [of opt c] Let_def)
      next
        case le: False
        with 1(3) r Inr False have "drain opt ?c = (d, c')" by (simp add: drain.simps [of opt c] Let_def)
        from "1.IH"(2) [OF r [symmetric] Inr False refl le this] B L w le show ?thesis by auto
      qed
    qed
  qed
qed

lemma rx_bytes_reply [simp]: "rx_bytes (cn_sock (snd (reply data c))) = rx_bytes (cn_sock c)"
    "rx_left (cn_sock (snd (reply data c))) = rx_left (cn_sock c)"
  by (simp_all add: rx_bytes_def rx_left_def)

lemma after_serving_simps [simp]:
  "cn_inbuf (after_serving need c) = drop need (cn_inbuf c)" "cn_sock (after_serving need c) = cn_sock c"
  "cn_requests_served (after_serving need c) = cn_requests_served c + 1"
  "cn_client_ip (after_serving need c) = cn_client_ip c" "cn_rearm_ok (after_serving need c) = cn_rearm_ok c"
  by (simp_all add: after_serving_def)

definition is_request :: "bytes \<Rightarrow> bool" where
  "is_request b \<longleftrightarrow> (\<exists>more. complete_request (b @ more) (length b))"

definition framed_run :: "server \<times> conn \<Rightarrow> server \<times> conn \<Rightarrow> bool" where
  "framed_run x y \<longleftrightarrow> (\<exists>reqs. list_all is_request reqs \<and>
     cn_inbuf (snd x) @ rx_bytes (cn_sock (snd x)) = concat reqs @ cn_inbuf (snd y) @ rx_bytes (cn_sock (snd y)) \<and>
     cn_requests_served (snd y) = cn_requests_served (snd x) + of_nat (length reqs) \<and>
     st_total_requests (sv_stats (fst y)) = st_total_requests (sv_stats (fst x)) + of_nat (length reqs))"

lemma complete_request_take:
  assumes "complete_request buf need"
  shows "is_request (take need buf)"
proof -
  have "take need buf @ drop need buf = buf" "length (take need buf) = need"
    using assms by (simp_all add: complete_request_def)
  with assms show ?thesis unfolding is_request_def by (intro exI [of _ "drop need buf"]) simp
qed

interpretation framed: worker_relation framed_run
proof
  fix x show "framed_run x x" unfolding framed_run_def by (rule exI [of _ "[]"]) simp
next
  fix x y z assume xy: "framed_run x y" and yz: "framed_run y z"
  from xy obtain xs where xs: "list_all is_request xs"
    "cn_inbuf (snd x) @ rx_bytes (cn_sock (snd x)) = concat xs @ cn_inbuf (snd y) @ rx_bytes (cn_sock (snd y))"
    "cn_requests_served (snd y) = cn_requests_served (snd x) + of_nat (length xs)"
    "st_total_requests (sv_stats (fst y)) = st_total_requests (sv_stats (fst x)) + of_nat (length xs)"
    by (auto simp: framed_run_def)
  from yz obtain ys where ys: "list_all is_request ys"
    "cn_inbuf (snd y) @ rx_bytes (cn_sock (snd y)) = concat ys @ cn_inbuf (snd z) @ rx_bytes (cn_sock (snd z))"
    "cn_requests_served (snd z) = cn_requests_served (snd y) + of_nat (length ys)"
    "st_total_requests (sv_stats (fst z)) = st_total_requests (sv_stats (fst y)) + of_nat (length ys)"
    by (auto simp: framed_run_def)
  show "framed_run x z"
    unfolding framed_run_def by (rule exI [of _ "xs @ ys"]) (simp add: xs ys)
next
  fix sv :: server and c c' :: conn and d assume "drain (sv_opt sv) c = (d, c')"
  from drain_effect [OF this] show "framed_run (sv, c) (sv, c')"
    unfolding framed_run_def by (intro exI [of _ "[]"]) simp
next
  fix c c' :: conn and sv sv' :: server and need keep
  assume full: "complete_request (cn_inbuf c) need"
    and s: "serve_one_request sv c (parse_request (cn_inbuf c)) need = (keep, c', sv')"
  obtain data where c': "c' = snd (reply data c)" using serve_conn [OF s] by blast
  have "cn_inbuf c = take need (cn_inbuf c) @ drop need (cn_inbuf c)" by simp
  then show "framed_run (sv, c) (sv', after_serving need c')"
    using complete_request_take [OF full] serve_answered(1) [OF s] c'
    unfolding framed_run_def by (intro exI [of _ "[take need (cn_inbuf c)]"]) simp
qed (unfold framed_run_def, (rule exI [of _ "[]"], simp)+)

text \<open>The configuration stays; every upstream call is one the policy allows.\<close>

definition allowed_call :: "access_control \<Rightarrow> upstream \<times> bytes \<Rightarrow> bool" where
  "allowed_call ac call \<longleftrightarrow> (\<exists>more. let req = parse_request (snd call @ more) in
     complete_request (snd call @ more) (length (snd call)) \<and> acl_decision (check ac req) = Allow \<and>
     fst call = resolve (ac_routes ac) (req_host req))"

definition guarded_run :: "server \<times> conn \<Rightarrow> server \<times> conn \<Rightarrow> bool" where
  "guarded_run x y \<longleftrightarrow> sv_opt (fst y) = sv_opt (fst x) \<and> sv_acl (fst y) = sv_acl (fst x) \<and>
     sv_hash (fst y) = sv_hash (fst x) \<and> sv_msg (fst y) = sv_msg (fst x) \<and>
     (\<exists>cs. sv_calls (fst y) = sv_calls (fst x) @ cs \<and> list_all (allowed_call (sv_acl (fst x))) cs)"

interpretation guarded: worker_relation guarded_run
proof
  fix x y z assume xy: "guarded_run x y" and yz: "guarded_run y z"
  from xy obtain xs where xs: "sv_calls (fst y) = sv_calls (fst x) @ xs" "list_all (allowed_call (sv_acl (fst x))) xs"
    by (auto simp: guarded_run_def)
  from yz obtain ys where ys: "sv_calls (fst z) = sv_calls (fst y) @ ys" "list_all (allowed_call (sv_acl (fst y))) ys"
    by (auto simp: guarded_run_def)
  show "guarded_run x z"
    using xy yz xs ys unfolding guarded_run_def by (intro conjI exI [of _ "xs @ ys"]) simp_all
next
  fix c c' :: conn and sv sv' :: server and need keep
  assume full: "complete_request (cn_inbuf c) need"
    and s: "serve_one_request sv c (parse_request (cn_inbuf c)) need = (keep, c', sv')"
  let ?b = "take need (cn_inbuf c)"
  have b: "?b @ drop need (cn_inbuf c) = cn_inbuf c" "length ?b = need"
    using full by (simp_all add: complete_request_def)
  note F = serve_frame [OF s]
  from serve_calls [OF s] show "guarded_run (sv, c) (sv', after_serving need c')"
  proof (elim disjE conjE)
    assume "sv_calls sv' = sv_calls sv"
    with F show ?thesis by (simp add: guarded_run_def)
  next
    assume allow: "acl_decision (check (sv_acl sv) (parse_request (cn_inbuf c))) = Allow"
      and calls: "sv_calls sv' = sv_calls sv @ [(resolve (ac_routes (sv_acl sv)) (req_host (parse_request (cn_inbuf c))),
        take need (req_raw (parse_request (cn_inbuf c))))]"
    have "allowed_call (sv_acl sv) (resolve (ac_routes (sv_acl sv)) (req_host (parse_request (cn_inbuf c))), ?b)"
      unfolding allowed_call_def using full allow b
      by (intro exI [of _ "drop need (cn_inbuf c)"]) (simp add: Let_def)
    with F calls show ?thesis by (simp add: guarded_run_def)
  qed
qed (simp_all add: guarded_run_def)

text \<open>Counters: every request counted in has exactly one outcome.\<close>

definition accounted_run :: "server \<times> conn \<Rightarrow> server \<times> conn \<Rightarrow> bool" where
  "accounted_run x y \<longleftrightarrow>
     st_total_requests (sv_stats (fst y)) - answered (sv_stats (fst y)) =
     st_total_requests (sv_stats (fst x)) - answered (sv_stats (fst x))"

interpretation accounted: worker_relation accounted_run
proof
  fix c c' :: conn and sv sv' :: server and need keep
  assume s: "serve_one_request sv c (parse_request (cn_inbuf c)) need = (keep, c', sv')"
  from serve_answered [OF s] show "accounted_run (sv, c) (sv', after_serving need c')"
    by (simp add: accounted_run_def)
qed (simp_all add: accounted_run_def answered_def)

text \<open>The cache stays sound.\<close>

lemma cache_sound_frame [simp]:
  "cache_sound (count f sv) = cache_sound sv" "cache_sound (sv\<lparr>sv_log := l, sv_ticks := t\<rparr>) = cache_sound sv"
  by (simp_all add: cache_sound_def)

definition sound_run :: "server \<times> conn \<Rightarrow> server \<times> conn \<Rightarrow> bool" where
  "sound_run x y \<longleftrightarrow> (cache_sound (fst x) \<longrightarrow> cache_sound (fst y))"

interpretation sound: worker_relation sound_run
proof
  fix c c' :: conn and sv sv' :: server and need keep
  assume s: "serve_one_request sv c (parse_request (cn_inbuf c)) need = (keep, c', sv')"
  from serve_sound [OF s] show "sound_run (sv, c) (sv', after_serving need c')" by (simp add: sound_run_def)
qed (simp_all add: sound_run_def)

section \<open>The active connections and the idle buffer\<close>

lemma serve_buffered_active:
  "serve_buffered sv c b = Some (st, b', c', sv') \<Longrightarrow> st_active_connections (sv_stats sv') =
     st_active_connections (sv_stats sv) - (if st = Closed then 1 else 0) \<and>
     (st = Armed \<longrightarrow> idle (sv_opt sv) c') \<and> sv_opt sv' = sv_opt sv"
proof (induction rule: serve_buffered_ind)
  case (stop sv c b need c1 sv1)
  from serve_answered [OF stop(2)] serve_frame [OF stop(2)] show ?case by simp
next
  case (go sv c b need c1 sv1 st b' c' sv')
  from serve_answered [OF go(2)] serve_frame [OF go(2)] go(3) show ?case by simp
qed simp_all

lemma handle_ready_active:
  "handle_ready sv c = Some (st, c', sv') \<Longrightarrow> st_active_connections (sv_stats sv') =
     st_active_connections (sv_stats sv) - (if st = Closed then 1 else 0) \<and>
     (st = Armed \<longrightarrow> idle (sv_opt sv) c' \<and> cn_rearm_ok c') \<and> sv_opt sv' = sv_opt sv"
proof (induction rule: handle_ready_ind)
  case (shut sv c p c1 b c2 sv2)
  from serve_buffered_active [OF shut(2)] show ?case by simp
next
  case (eof sv c c1 b c2 sv2)
  from serve_buffered_active [OF eof(2)] show ?case by simp
next
  case (rest sv c c1 c2 sv2 r)
  from serve_buffered_active [OF rest(2)] rest(3) show ?case
    by (cases "cn_rearm_ok c2") (auto simp: rearm_def close_conn_def)
next
  case (again sv c c1 c2 sv2 st c' sv')
  from serve_buffered_active [OF again(2)] again(3) show ?case by simp
qed simp_all

section \<open>The run ends\<close>

lemma serve_buffered_left:
  "serve_buffered sv c b = Some (st, b', c', sv') \<Longrightarrow> rx_left (cn_sock c') = rx_left (cn_sock c) \<and>
     length (cn_inbuf c') \<le> length (cn_inbuf c) \<and>
     (length (cn_inbuf c) < 2 ^ 63 \<longrightarrow> \<not> b \<longrightarrow> b' \<longrightarrow> length (cn_inbuf c') < length (cn_inbuf c))"
proof (induction rule: serve_buffered_ind)
  case (stop sv c b need c1 sv1)
  obtain data where c1: "c1 = snd (reply data c)" using serve_conn [OF stop(2)] by blast
  have "length (cn_inbuf c) < 2 ^ 63 \<Longrightarrow> 2 \<le> need \<and> need \<le> length (cn_inbuf c)"
    using expected_bytes [of "cn_inbuf c"] stop(1) by (simp add: complete_request_def)
  with c1 show ?case by auto
next
  case (go sv c b need c1 sv1 st b' c' sv')
  obtain data where c1: "c1 = snd (reply data c)" using serve_conn [OF go(2)] by blast
  have "length (cn_inbuf c) < 2 ^ 63 \<Longrightarrow> 2 \<le> need \<and> need \<le> length (cn_inbuf c)"
    using expected_bytes [of "cn_inbuf c"] go(1) by (simp add: complete_request_def)
  with c1 go(3) show ?case by auto
qed simp_all

lemma serve_buffered_ends:
  "length (cn_inbuf c) < 2 ^ 63 \<Longrightarrow> \<exists>st b' c' sv'. serve_buffered sv c b = Some (st, b', c', sv')"
proof (induction "length (cn_inbuf c)" arbitrary: sv c b rule: less_induct)
  case less
  let ?req = "parse_request (cn_inbuf c)" and ?need = "unat (expected_request_bytes (parse_request (cn_inbuf c)))"
  obtain keep c1 sv1 where s: "serve_one_request sv c ?req ?need = (keep, c1, sv1)" by (metis prod_cases3)
  show ?case
  proof (cases "find_header_end (cn_inbuf c) \<noteq> None \<and> req_valid ?req \<and> \<not> length (cn_inbuf c) < ?need \<and> keep")
    case True
    obtain data where c1: "c1 = snd (reply data c)" using serve_conn [OF s] by blast
    have "2 \<le> ?need" using expected_bytes [OF less(2)] True by simp
    with True c1 less(2) have "length (cn_inbuf (after_serving ?need c1)) < length (cn_inbuf c)"
      "length (cn_inbuf (after_serving ?need c1)) < 2 ^ 63" by auto
    from less(1) [OF this, of sv1 True] True s show ?thesis
      by (subst serve_buffered.simps) (auto simp: Let_def after_serving_def)
  next
    case False
    with s show ?thesis
      by (subst serve_buffered.simps) (auto simp: Let_def close_conn_def reject_def split_beta split: option.split)
  qed
qed

lemma handle_ready_ends:
  assumes "opt_max_header_bytes (sv_opt sv) + opt_max_body_bytes (sv_opt sv) < 2 ^ 63" "length (cn_inbuf c) < 2 ^ 63"
  shows "\<exists>st c' sv'. handle_ready sv c = Some (st, c', sv')"
  using assms
proof (induction "rx_left (cn_sock c) + length (cn_inbuf c)" arbitrary: sv c rule: less_induct)
  case less
  obtain d c1 where d: "drain (sv_opt sv) c = (d, c1)" by fastforce
  note D = drain_effect [OF d]
  show ?case
  proof (cases d)
    case (Drained p)
    with D less(2,3) have short: "length (cn_inbuf c1) < 2 ^ 63" by auto
    from serve_buffered_ends [OF this, of sv False] obtain st b c2 sv2
      where s: "serve_buffered sv c1 False = Some (st, b, c2, sv2)" by blast
    note L = serve_buffered_left [OF s] and A = serve_buffered_active [OF s]
    show ?thesis
    proof (cases "st = Armed \<and> \<not> p \<and> b")
      case True
      with L D short have "rx_left (cn_sock c2) + length (cn_inbuf c2) < rx_left (cn_sock c) + length (cn_inbuf c)"
        "length (cn_inbuf c2) < 2 ^ 63" by auto
      from less(1) [OF this(1), of sv2] this(2) less(2) A
      obtain st' c' sv' where "handle_ready sv2 c2 = Some (st', c', sv')" by auto
      with d s True Drained show ?thesis by (subst handle_ready.simps) auto
    next
      case False
      with d s Drained show ?thesis
        by (subst handle_ready.simps) (cases st; auto simp: close_conn_def rearm_def)
    qed
  qed (use d in \<open>subst handle_ready.simps, auto simp: close_conn_def\<close>)+
qed

text \<open>All of it at once. The bound is beyond what a string or the options can hold.\<close>

definition oversized :: "server \<Rightarrow> conn \<Rightarrow> bool" where
  "oversized sv c \<longleftrightarrow> 2 ^ 63 \<le> opt_max_header_bytes (sv_opt sv) + opt_max_body_bytes (sv_opt sv) \<or>
     2 ^ 63 \<le> length (cn_inbuf c)"

lemma handle_ready_run:
  "case handle_ready sv c of
     None \<Rightarrow> oversized sv c
   | Some (st, c', sv') \<Rightarrow> framed_run (sv, c) (sv', c') \<and> guarded_run (sv, c) (sv', c') \<and>
       accounted_run (sv, c) (sv', c') \<and> sound_run (sv, c) (sv', c')"
  using handle_ready_ends [where sv = sv and c = c]
    framed.handle_ready_rel [where sv = sv and c = c] guarded.handle_ready_rel [where sv = sv and c = c]
    accounted.handle_ready_rel [where sv = sv and c = c] sound.handle_ready_rel [where sv = sv and c = c]
  by (cases "oversized sv c") (auto simp: oversized_def split: option.split)

section \<open>Properties of a run\<close>

text \<open>C13: A worker always comes back. For every script of what the client and the kernel do
  and every state of the server, \<open>handle_ready\<close> returns, provided the buffer and the
  configured limits are below 2^63 bytes: reading stops at the limit, serving a request always
  consumes bytes, and the outer loop only repeats after a request was served.\<close>

theorem handle_ready_returns:
  assumes "opt_max_header_bytes (sv_opt sv) + opt_max_body_bytes (sv_opt sv) < 2 ^ 63" "length (cn_inbuf c) < 2 ^ 63"
  shows "\<exists>st c' sv'. handle_ready sv c = Some (st, c', sv')"
  by (rule handle_ready_ends [OF assms])

theorem handle_ready_returns_witness:
  "\<exists>st c' sv'. handle_ready \<lparr>sv_opt = new_options, sv_acl = new_access_control,
       sv_cache = \<lparr>sh_shards = [new_lru 1], sh_mask = 0\<rparr>, sv_log = new_access_log, sv_stats = new_stats,
       sv_hash = (\<lambda>_. 0), sv_msg = \<lparr>msg_errno = (\<lambda>_. []), msg_gai = (\<lambda>_. [])\<rparr>, sv_clock = (\<lambda>_. ((0, 0), 0)),
       sv_ticks = 0, sv_net = [], sv_calls = []\<rparr>
     \<lparr>cn_sock = \<lparr>sk_rx = [Recv ''GET / HTTP/1.1'', Recv []], sk_tx = [], sk_poll = [], sk_wire = [], sk_errno = EINTR\<rparr>,
       cn_client_ip = [], cn_inbuf = [], cn_requests_served = 0, cn_rearm_ok = True\<rparr> = Some (st, c', sv')"
  by (rule handle_ready_returns) (simp_all add: new_options_def)

text \<open>C11: Nothing of the stream is lost, duplicated or reordered. What was buffered and then
  received is the requests that were served, in order and each exactly as long as
  \<open>expected_request_bytes\<close> says, followed by what is still buffered and what was not read;
  the connection's and the server's request counters rise by the number of requests served.\<close>

theorem handle_ready_frames_stream:
  "case handle_ready sv c of
     None \<Rightarrow> oversized sv c
   | Some (st, c', sv') \<Rightarrow> \<exists>reqs. list_all is_request reqs \<and>
       cn_inbuf c @ rx_bytes (cn_sock c) = concat reqs @ cn_inbuf c' @ rx_bytes (cn_sock c') \<and>
       cn_requests_served c' = cn_requests_served c + of_nat (length reqs) \<and>
       st_total_requests (sv_stats sv') = st_total_requests (sv_stats sv) + of_nat (length reqs)"
  using handle_ready_run [where sv = sv and c = c] by (auto simp: framed_run_def split: option.splits)

text \<open>The policy is enforced on the way out. Whatever a client sends, every upstream call
  a run makes is for one complete request that the policy allows, carries exactly the bytes of
  that request, and goes to the upstream the routing table gives for its host; the policy and
  the options themselves are not changed.\<close>

theorem upstream_calls_are_allowed:
  "case handle_ready sv c of
     None \<Rightarrow> oversized sv c
   | Some (st, c', sv') \<Rightarrow> sv_acl sv' = sv_acl sv \<and> sv_opt sv' = sv_opt sv \<and>
       (\<exists>cs. sv_calls sv' = sv_calls sv @ cs \<and> list_all (allowed_call (sv_acl sv)) cs)"
  using handle_ready_run [where sv = sv and c = c] by (auto simp: guarded_run_def split: option.splits)

text \<open>The counters balance. Over a run, the requests counted in and the outcomes counted
  (served from the cache, forwarded, denied, failed upstream) rise by the same number, in
  64-bit arithmetic; the active connections fall by one exactly when the connection was
  closed.\<close>

theorem handle_ready_accounts:
  "case handle_ready sv c of
     None \<Rightarrow> oversized sv c
   | Some (st, c', sv') \<Rightarrow>
       st_total_requests (sv_stats sv') - st_total_requests (sv_stats sv) =
         answered (sv_stats sv') - answered (sv_stats sv) \<and>
       st_active_connections (sv_stats sv') =
         st_active_connections (sv_stats sv) - (if st = Closed then 1 else 0)"
proof (cases "handle_ready sv c")
  case None
  with handle_ready_run [where sv = sv and c = c] show ?thesis by simp
next
  case (Some r)
  obtain st c' sv' where r: "r = (st, c', sv')" by (cases r)
  have swap: "(t' :: u64) - a' = t - a \<Longrightarrow> t' - t = a' - a" for t' a' t a
    by (simp add: diff_eq_eq algebra_simps)
  have "accounted_run (sv, c) (sv', c')" using handle_ready_run [where sv = sv and c = c] Some r by simp
  from swap [OF this [unfolded accounted_run_def fst_conv]] handle_ready_active [OF Some [unfolded r]] Some r
  show ?thesis by simp
qed

text \<open>No complete request is left behind. When a run re-arms the connection, the
  buffer holds no complete request (either no header block yet and no more bytes than the
  header limit, or a valid head whose body is still arriving), and \<open>epoll_ctl\<close> succeeded.\<close>

theorem rearmed_is_idle:
  "case handle_ready sv c of
     None \<Rightarrow> oversized sv c
   | Some (st, c', sv') \<Rightarrow> if st = Armed then idle (sv_opt sv) c' \<and> cn_rearm_ok c' else st = Closed"
  using handle_ready_run [where sv = sv and c = c] handle_ready_active [where sv = sv and c = c]
  by (auto split: option.splits if_splits intro: conn_state.exhaust)

end
