(* ===== verification/Startup.thy ===== *)
theory Startup
  imports Worker
begin

text \<open>
  From the command line to a running server: the first half of \<open>main\<close> of
  \<open>src/server_phase5.cpp\<close>, with \<open>usage\<close>, \<open>raise_fd_limit\<close> and \<open>make_listener\<close>. What
  the system answers (files, limits, socket calls) is the record \<open>boot_env\<close>. A start that
  stops the process with status 1 is \<open>Stopped\<close> with what went to the standard error
  stream; one that never returns is \<^const>\<open>None\<close>. The lemmas show that nothing is served
  unless every step succeeded, and that the options are read as they are written.
\<close>

section \<open>The command line\<close>

definition usage :: "bytes \<Rightarrow> bytes" where
  "usage prog = ''Usage: '' @ prog @ '' <port> [options]'' @ [LF] @
     ''  --workers <n>       thread pool size (default: hardware_concurrency)'' @ [LF] @
     ''  --cache <n>         total cache entries (default: 2000)'' @ [LF] @
     ''  --shards <n>        cache shards, rounded to a power of 2 (default: 16)'' @ [LF] @
     ''  --acl <file>        access-control config (default: none => allow all)'' @ [LF] @
     ''  --log <file>        access log path (default: stdout)'' @ [LF] @
     ''  --log-stdout        also write the access log to stdout'' @ [LF] @
     ''  --no-stats          suppress the periodic stats line'' @ [LF] @
     ''  --upstream-timeout <sec>  (default: 5)'' @ [LF]"

definition atoll :: "bytes \<Rightarrow> int" where
  "atoll s = fst (strtol (c_str s))"

text \<open>The closure \<open>need\<close>: the next argument, or the message the process ends with.\<close>

definition requires :: "bytes \<Rightarrow> bytes" where
  "requires what = what @ '' requires a value'' @ [LF]"

fun parse_options :: "bytes \<Rightarrow> bytes list \<Rightarrow> options \<Rightarrow> bytes + options" where
  "parse_options prog [] opt = Inr opt"
| "parse_options prog (a # rest) opt =
     (if a = ''--workers'' then (case rest of [] \<Rightarrow> Inl (requires a)
        | v # rest \<Rightarrow> parse_options prog rest (opt\<lparr>opt_workers := atoi v\<rparr>))
      else if a = ''--cache'' then (case rest of [] \<Rightarrow> Inl (requires a)
        | v # rest \<Rightarrow> parse_options prog rest (opt\<lparr>opt_cache_capacity := of_int (atoll v)\<rparr>))
      else if a = ''--shards'' then (case rest of [] \<Rightarrow> Inl (requires a)
        | v # rest \<Rightarrow> parse_options prog rest (opt\<lparr>opt_cache_shards := of_int (atoll v)\<rparr>))
      else if a = ''--acl'' then (case rest of [] \<Rightarrow> Inl (requires a)
        | v # rest \<Rightarrow> parse_options prog rest (opt\<lparr>opt_acl_path := v\<rparr>))
      else if a = ''--log'' then (case rest of [] \<Rightarrow> Inl (requires a)
        | v # rest \<Rightarrow> parse_options prog rest (opt\<lparr>opt_log_path := v\<rparr>))
      else if a = ''--log-stdout'' then parse_options prog rest (opt\<lparr>opt_log_stdout := True\<rparr>)
      else if a = ''--log-immediate'' then parse_options prog rest (opt\<lparr>opt_log_immediate := True\<rparr>)
      else if a = ''--no-stats'' then parse_options prog rest (opt\<lparr>opt_quiet_stats := True\<rparr>)
      else if a = ''--upstream-timeout'' then (case rest of [] \<Rightarrow> Inl (requires a)
        | v # rest \<Rightarrow> parse_options prog rest (opt\<lparr>opt_upstream_timeout_sec := atoi v\<rparr>))
      else Inl (usage prog))"

definition parse_args :: "bytes \<Rightarrow> bytes list \<Rightarrow> bytes + options" where
  "parse_args prog args =
     (case args of
        [] \<Rightarrow> Inl (usage prog)
      | p # rest \<Rightarrow>
          let opt = new_options\<lparr>opt_port := atoi p\<rparr> in
          if opt_port opt \<le> 0 \<or> opt_port opt > 65535 then Inl (''invalid port: '' @ p @ [LF])
          else parse_options prog rest opt)"

section \<open>The system\<close>

text \<open>The soft and hard limit if \<open>getrlimit\<close> succeeds; every call that can fail with the
  error it fails with.\<close>

record boot_env =
  be_files :: "bytes \<Rightarrow> bytes option"
  be_can_open :: "bytes \<Rightarrow> bool"
  be_cores :: int
  be_rlimit :: "(nat \<times> nat) option"
  be_setrlimit :: bool
  be_socket :: "errno option"
  be_reuse :: "errno option"
  be_bind :: "errno option"
  be_listen :: "errno option"
  be_nonblock :: "errno option"
  be_epoll :: "errno option"
  be_epoll_add :: "errno option"

definition raise_fd_limit :: "boot_env \<Rightarrow> nat" where
  "raise_fd_limit env =
     (case be_rlimit env of
        None \<Rightarrow> 0
      | Some (cur, want) \<Rightarrow> if cur < want \<and> be_setrlimit env then want else cur)"

definition perror :: "messages \<Rightarrow> bytes \<Rightarrow> errno \<Rightarrow> bytes" where
  "perror msg what e = what @ '': '' @ msg_errno msg e @ [LF]"

text \<open>Whether there is a listener, what was opened and closed, and what was reported.\<close>

definition make_listener :: "messages \<Rightarrow> boot_env \<Rightarrow> int \<Rightarrow> bool \<times> resource list \<times> bytes" where
  "make_listener msg env port =
     (case be_socket env of
        Some e \<Rightarrow> (False, [], perror msg ''socket'' e)
      | None \<Rightarrow>
          let warn = (case be_reuse env of Some e \<Rightarrow> perror msg ''SO_REUSEADDR'' e | None \<Rightarrow> []) in
          (case be_bind env of
             Some e \<Rightarrow> (False, [Sock_open, Sock_close],
               warn @ ''bind(:'' @ int_str port @ '') failed: '' @ msg_errno msg e @ [LF])
           | None \<Rightarrow>
               (case be_listen env of
                  Some e \<Rightarrow> (False, [Sock_open, Sock_close],
                    warn @ ''listen(:'' @ int_str port @ '') failed: '' @ msg_errno msg e @ [LF])
                | None \<Rightarrow>
                    (case be_nonblock env of
                       Some e \<Rightarrow> (False, [Sock_open, Sock_close], warn @ perror msg ''set_nonblocking(listener)'' e)
                     | None \<Rightarrow> (True, [Sock_open], warn)))))"

section \<open>main, up to the event loop\<close>

datatype boot_outcome = Stopped bytes | Running server nat nat bytes

definition worker_count :: "options \<Rightarrow> boot_env \<Rightarrow> int" where
  "worker_count opt env =
     (let workers = (if opt_workers opt > 0 then opt_workers opt else be_cores env) in
      if workers \<le> 0 then 4 else workers)"

definition banner :: "options \<Rightarrow> int \<Rightarrow> (bytes, bytes) sharded \<Rightarrow> nat \<Rightarrow> access_control \<Rightarrow> bytes" where
  "banner opt workers ch fd_limit acl =
     ''proxy listening on :'' @ int_str (opt_port opt) @ [LF] @
     ''  workers      : '' @ int_str workers @ [LF] @
     ''  cache        : '' @ nat_str (unat (sharded_capacity ch)) @ '' entries across '' @ nat_str (length (sh_shards ch)) @ '' shards'' @ [LF] @
     ''  fd limit     : '' @ nat_str fd_limit @ '' (soft, raised to hard limit)'' @ [LF] @
     ''  acl          : '' @ (if opt_acl_path opt = [] then ''(none)'' else opt_acl_path opt) @ '' ('' @ nat_str (length (ac_rules acl)) @
       '' rules, '' @ nat_str (length (ac_routes acl)) @ '' routes, default '' @ (if ac_default acl = Allow then ''allow'' else ''deny'') @ '')'' @ [LF] @
     ''  access log   : '' @ (if opt_log_path opt = [] then ''(stdout)'' else opt_log_path opt) @ [LF]"

definition boot :: "messages \<Rightarrow> (bytes \<Rightarrow> u64) \<Rightarrow> (nat \<Rightarrow> timespec \<times> int) \<Rightarrow> boot_env \<Rightarrow> bytes \<Rightarrow> bytes list \<Rightarrow> boot_outcome option" where
  "boot msg hasher clock env prog args =
     (case parse_args prog args of
        Inl e \<Rightarrow> Some (Stopped e)
      | Inr opt \<Rightarrow>
          let (err, acl) = (if opt_acl_path opt \<noteq> [] then load_file (be_files env) (opt_acl_path opt) new_access_control
                            else (None, new_access_control)) in
          (case err of
             Some e \<Rightarrow> Some (Stopped (''ACL load failed ('' @ opt_acl_path opt @ ''): '' @ e @ [LF]))
           | None \<Rightarrow>
               let (opened, lg) = log_open (be_can_open env) (opt_log_path opt) (opt_log_stdout opt) (opt_log_immediate opt) new_access_log in
               if \<not> opened then Some (Stopped (''cannot open access log: '' @ opt_log_path opt @ [LF]))
               else
                 let workers = worker_count opt env in
                 (case new_sharded (opt_cache_capacity opt) (opt_cache_shards opt) of
                    None \<Rightarrow> None
                  | Some ch \<Rightarrow>
                      let fd_limit = raise_fd_limit env;
                          (listening, held, report) = make_listener msg env (opt_port opt) in
                      if \<not> listening then Some (Stopped report)
                      else (case be_epoll env of
                        Some e \<Rightarrow> Some (Stopped (report @ perror msg ''epoll_create1'' e))
                      | None \<Rightarrow>
                          (case be_epoll_add env of
                             Some e \<Rightarrow> Some (Stopped (report @ perror msg ''epoll_ctl(listener)'' e))
                           | None \<Rightarrow>
                               Some (Running
                                 \<lparr>sv_opt = opt, sv_acl = acl, sv_cache = ch, sv_log = lg, sv_stats = new_stats, sv_hash = hasher,
                                  sv_msg = msg, sv_clock = clock, sv_ticks = 0, sv_net = [], sv_calls = []\<rparr>
                                 (nat workers) fd_limit (report @ banner opt workers ch fd_limit acl)))))))"

section \<open>What a running server has been through\<close>

definition kept :: "options \<Rightarrow> options \<Rightarrow> bool" where
  "kept opt opt' \<longleftrightarrow> opt_port opt' = opt_port opt \<and>
     opt_max_header_bytes opt' = opt_max_header_bytes opt \<and> opt_max_body_bytes opt' = opt_max_body_bytes opt"

lemma if_both: "P x \<Longrightarrow> P y \<Longrightarrow> P (if b then x else y)"
  by simp

lemma parse_options_kept:
  "case parse_options prog args opt of Inl e \<Rightarrow> e \<noteq> [] | Inr opt' \<Rightarrow> kept opt opt'"
proof (induction "length args" arbitrary: args opt rule: less_induct)
  case less
  define P where "P r \<longleftrightarrow> (case r of Inl e \<Rightarrow> e \<noteq> [] | Inr opt' \<Rightarrow> kept opt opt')" for r :: "bytes + options"
  have stop: "P (Inl (requires a))" "P (Inl (usage prog))" for a by (simp_all add: P_def requires_def usage_def)
  have go: "P (parse_options prog rest opt')" if "length rest < length args" "kept opt opt'" for rest opt'
    using less(1) [OF that(1), of opt'] that(2) by (auto simp: P_def kept_def split: sum.splits)
  have "P (parse_options prog args opt)"
  proof (cases args)
    case Nil
    then show ?thesis by (simp add: P_def kept_def)
  next
    case (Cons a rest)
    show ?thesis
    proof (cases rest)
      case Nil
      show ?thesis unfolding Cons parse_options.simps(2) Nil list.case
        by (intro if_both [of P] stop go) (simp_all add: Cons Nil kept_def)
    next
      case (Cons v rest')
      show ?thesis unfolding \<open>args = a # rest\<close> Cons
        by (subst parse_options.simps(2), unfold list.case, intro if_both [of P] stop go) (simp_all add: \<open>args = a # rest\<close> Cons kept_def)
    qed
  qed
  then show ?case by (simp add: P_def)
qed

lemma parse_args_range:
  "case parse_args prog args of Inl e \<Rightarrow> e \<noteq> [] | Inr opt \<Rightarrow> 1 \<le> opt_port opt \<and> opt_port opt \<le> 65535 \<and>
     opt_max_header_bytes opt = 65536 \<and> opt_max_body_bytes opt = 8388608"
proof (cases args)
  case Nil
  then show ?thesis by (simp add: parse_args_def usage_def)
next
  case (Cons p rest)
  with parse_options_kept [where prog = prog and args = rest and opt = "new_options\<lparr>opt_port := atoi p\<rparr>"] show ?thesis
    by (auto simp: parse_args_def kept_def new_options_def Let_def split: sum.split)
qed

lemma built_sound:
  assumes "new_sharded cap num = Some (ch :: (bytes, bytes) sharded)"
  shows "sharded_ok ch" "sharded_look h ch k = None"
proof -
  obtain i where b: "built cap num i ch"
    using new_sharded_built [where cap = cap and num = num and ?'a = bytes and ?'b = bytes] assms by auto
  show "sharded_ok ch" "sharded_look h ch k = None" by (rule built_ok [OF b], rule built_look [OF b])
qed

text \<open>The state a server starts serving in.\<close>

definition booted :: "boot_env \<Rightarrow> server \<Rightarrow> bool" where
  "booted env sv \<longleftrightarrow> 1 \<le> opt_port (sv_opt sv) \<and> opt_port (sv_opt sv) \<le> 65535 \<and>
     opt_max_header_bytes (sv_opt sv) + opt_max_body_bytes (sv_opt sv) < 2 ^ 63 \<and>
     (if opt_acl_path (sv_opt sv) = [] then sv_acl sv = new_access_control
      else load_file (be_files env) (opt_acl_path (sv_opt sv)) new_access_control = (None, sv_acl sv)) \<and>
     log_open (be_can_open env) (opt_log_path (sv_opt sv)) (opt_log_stdout (sv_opt sv)) (opt_log_immediate (sv_opt sv)) new_access_log =
       (True, sv_log sv) \<and>
     new_sharded (opt_cache_capacity (sv_opt sv)) (opt_cache_shards (sv_opt sv)) = Some (sv_cache sv) \<and>
     sv_stats sv = new_stats \<and> sv_calls sv = []"

lemma boot_cases:
  "case boot msg hasher clock env prog args of
     None \<Rightarrow> \<exists>opt. parse_args prog args = Inr opt \<and> 2 ^ 63 < unat (opt_cache_shards opt)
   | Some (Stopped e) \<Rightarrow> e \<noteq> []
   | Some (Running sv workers fd_limit report) \<Rightarrow> parse_args prog args = Inr (sv_opt sv) \<and> booted env sv \<and> 1 \<le> workers \<and>
       be_socket env = None \<and> be_bind env = None \<and> be_listen env = None \<and> be_nonblock env = None \<and>
       be_epoll env = None \<and> be_epoll_add env = None"
proof (cases "parse_args prog args")
  case (Inl e)
  with parse_args_range [of prog args] show ?thesis by (simp add: boot_def)
next
  case (Inr opt)
  then have r: "1 \<le> opt_port opt" "opt_port opt \<le> 65535" "opt_max_header_bytes opt = 65536" "opt_max_body_bytes opt = 8388608"
    using parse_args_range [of prog args] by simp_all
  obtain err acl where acl: "(if opt_acl_path opt \<noteq> [] then load_file (be_files env) (opt_acl_path opt) new_access_control
      else (None, new_access_control)) = (err, acl)" by fastforce
  obtain opened lg where lg: "log_open (be_can_open env) (opt_log_path opt) (opt_log_stdout opt) (opt_log_immediate opt)
      new_access_log = (opened, lg)" by fastforce
  obtain listening held report where li: "make_listener msg env (opt_port opt) = (listening, held, report)"
    by (metis prod_cases3)
  have report: "\<not> listening \<Longrightarrow> report \<noteq> []"
    "listening \<Longrightarrow> be_socket env = None \<and> be_bind env = None \<and> be_listen env = None \<and> be_nonblock env = None"
    using li by (auto simp: make_listener_def perror_def Let_def split: option.splits)
  show ?thesis
  proof (cases err)
    case (Some e)
    with Inr acl show ?thesis by (simp add: boot_def Let_def)
  next
    case None
    show ?thesis
    proof (cases "new_sharded (opt_cache_capacity opt) (opt_cache_shards opt) :: (bytes, bytes) sharded option")
      case None': None
      then have "2 ^ 63 < unat (opt_cache_shards opt)"
        using new_sharded_built [where cap = "opt_cache_capacity opt" and num = "opt_cache_shards opt" and ?'a = bytes and ?'b = bytes]
        by simp
      with Inr acl None lg None' show ?thesis by (simp add: boot_def Let_def)
    next
      case (Some ch)
      have "1 \<le> worker_count opt env" by (simp add: worker_count_def Let_def)
      then have w: "1 \<le> nat (worker_count opt env)" by simp
      show ?thesis
        using Inr acl None lg Some li report r w
        by (auto simp: boot_def booted_def perror_def Let_def split: option.split if_splits)
    qed
  qed
qed

text \<open>C14: Fail closed. If \<open>main\<close> gets as far as serving, every step before it succeeded:
  the port is a TCP port, a policy file that was named was read to its last line and is the
  policy in force (without one everything is allowed), the access log is open, the listener is
  bound and in epoll, there is at least one worker, the cache is well-formed and empty and all
  counters are zero. Otherwise the process stops with a message, or hangs in the construction
  of the cache, which takes more than 2^63 shards.\<close>

theorem boot_fails_closed:
  "case boot msg hasher clock env prog args of
     None \<Rightarrow> \<exists>opt. parse_args prog args = Inr opt \<and> 2 ^ 63 < unat (opt_cache_shards opt)
   | Some (Stopped e) \<Rightarrow> e \<noteq> []
   | Some (Running sv workers fd_limit report) \<Rightarrow> parse_args prog args = Inr (sv_opt sv) \<and> booted env sv \<and> 1 \<le> workers \<and>
       be_socket env = None \<and> be_bind env = None \<and> be_listen env = None \<and> be_nonblock env = None \<and>
       be_epoll env = None \<and> be_epoll_add env = None"
  by (rule boot_cases)

section \<open>Printing a command line and reading it back\<close>

text \<open>The options as a caller would write them, flags only where they differ from the
  default.\<close>

definition print_args :: "options \<Rightarrow> bytes list" where
  "print_args opt =
     [int_str (opt_port opt), ''--workers'', int_str (opt_workers opt),
      ''--cache'', nat_str (unat (opt_cache_capacity opt)), ''--shards'', nat_str (unat (opt_cache_shards opt)),
      ''--acl'', opt_acl_path opt, ''--log'', opt_log_path opt] @
     (if opt_log_stdout opt then [''--log-stdout''] else []) @
     (if opt_log_immediate opt then [''--log-immediate''] else []) @
     (if opt_quiet_stats opt then [''--no-stats''] else []) @
     [''--upstream-timeout'', int_str (opt_upstream_timeout_sec opt)]"

definition writable :: "options \<Rightarrow> bool" where
  "writable opt \<longleftrightarrow> 1 \<le> opt_port opt \<and> opt_port opt \<le> 65535 \<and> 0 \<le> opt_workers opt \<and> opt_workers opt \<le> INT_MAX \<and>
     0 \<le> opt_upstream_timeout_sec opt \<and> opt_upstream_timeout_sec opt \<le> INT_MAX \<and>
     unat (opt_cache_capacity opt) < 2 ^ 63 \<and> unat (opt_cache_shards opt) < 2 ^ 63 \<and>
     opt_max_header_bytes opt = opt_max_header_bytes new_options \<and> opt_max_body_bytes opt = opt_max_body_bytes new_options"

lemma atoi_int_str: "0 \<le> i \<Longrightarrow> i \<le> INT_MAX \<Longrightarrow> atoi (int_str i) = i"
  using atoi_nat_str [of "nat i"] by (simp add: int_str_def)

lemma atoll_nat_str: "n < 2 ^ 63 \<Longrightarrow> atoll (nat_str n) = int n"
  using strtol_nat_str [of n "[]"] by (simp add: atoll_def LONG_MAX_def)

text \<open>Writing options on a command line and parsing them gives the options back: every
  option in its place, numbers at their value, whichever flags are present.\<close>

theorem parse_print_args:
  assumes "writable opt"
  shows "parse_args prog (print_args opt) = Inr opt"
proof -
  have n: "atoi (int_str (opt_port opt)) = opt_port opt" "atoi (int_str (opt_workers opt)) = opt_workers opt"
    "atoi (int_str (opt_upstream_timeout_sec opt)) = opt_upstream_timeout_sec opt"
    "(of_int (atoll (nat_str (unat (opt_cache_capacity opt)))) :: u64) = opt_cache_capacity opt"
    "(of_int (atoll (nat_str (unat (opt_cache_shards opt)))) :: u64) = opt_cache_shards opt"
    using assms by (simp_all add: writable_def atoi_int_str atoll_nat_str INT_MAX_def)
  have p: "1 \<le> opt_port opt" "opt_port opt \<le> 65535" "opt_max_header_bytes opt = 64 * 1024"
    "opt_max_body_bytes opt = 8 * 1024 * 1024"
    using assms by (simp_all add: writable_def new_options_def)
  show ?thesis
    by (cases opt) (use n p in \<open>simp add: parse_args_def print_args_def new_options_def Let_def\<close>)
qed

theorem parse_print_args_witness:
  "parse_args ''proxy'' (print_args (new_options\<lparr>opt_acl_path := ''acl.conf'', opt_log_immediate := True\<rparr>)) =
     Inr (new_options\<lparr>opt_acl_path := ''acl.conf'', opt_log_immediate := True\<rparr>)"
  by (rule parse_print_args) (simp add: writable_def new_options_def INT_MAX_def)

section \<open>A negative number of shards\<close>

lemma strtol_negative:
  assumes "0 < n" "n \<le> 2 ^ 63"
  shows "atoll (CHR ''-'' # nat_str n) = - int n"
proof -
  note D = nat_str_digits [of n]
  have "isspace_c (CHR ''-'') = False" by (simp add: isspace_c_def)
  moreover have tw: "takeWhile isdigit_c (nat_str n) = nat_str n" using D by auto
  moreover have "c_str (CHR ''-'' # nat_str n) = CHR ''-'' # nat_str n"
    by (rule c_str_id) (simp add: nat_str_free)
  moreover have "\<not> - int n < LONG_MIN" "\<not> - int n > LONG_MAX" using assms by (simp_all add: LONG_MIN_def LONG_MAX_def)
  ultimately show ?thesis by (simp add: atoll_def strtol_def split_sign_def tw dec_val_nat_str Let_def del: takeWhile_eq_all_conv)
qed

text \<open>A finding. A negative \<open>--shards\<close> is not rejected but cast to a \<open>size_t\<close> above
  2^63; the rounding to a power of two then never ends, so the server hangs at startup without
  a message, before it listens.\<close>

theorem negative_shards_hang:
  assumes "1 \<le> p" "p \<le> 65535" "0 < n" "n < 2 ^ 63"
  shows "boot msg hasher clock env prog [nat_str p, ''--shards'', CHR ''-'' # nat_str n] = None"
proof -
  have "atoi (nat_str p) = int p" using assms(2) by (intro atoi_nat_str) (simp add: INT_MAX_def)
  then have args: "parse_args prog [nat_str p, ''--shards'', CHR ''-'' # nat_str n] =
      Inr (new_options\<lparr>opt_port := int p, opt_cache_shards := - of_nat n\<rparr>)"
    using assms strtol_negative [of n] by (simp add: parse_args_def new_options_def Let_def)
  have "(of_nat (2 ^ 64 - n) :: u64) = - of_nat n" using assms(4) by (simp add: of_nat_diff)
  then have "unat (- of_nat n :: u64) = 2 ^ 64 - n"
    using unat_of_nat_u64 [of "2 ^ 64 - n"] assms(3) by simp
  then have "2 ^ 63 < unat (- of_nat n :: u64)" using assms(4) by simp
  from round_up_pow2_None [OF this] have "new_sharded cap (- of_nat n :: u64) = (None :: (bytes, bytes) sharded option)" for cap
    using assms(3) \<open>2 ^ 63 < unat (- of_nat n :: u64)\<close> by (auto simp: new_sharded_def)
  then show ?thesis
    using args by (simp add: boot_def log_open_def new_options_def Let_def)
qed

theorem negative_shards_hang_witness:
  "boot msg hasher clock env ''proxy'' [nat_str 8080, ''--shards'', ''-'' @ nat_str 1] = None"
  using negative_shards_hang [of 8080 1] by simp

end
