(* ===== verification/Task_Queue.thy ===== *)
theory Task_Queue
  imports Prelude
begin

text \<open>
  The task queues: \<open>TaskQueue\<close> of \<open>src/server_phase5.cpp\<close>, of \<open>src/origin_server.cpp\<close>
  and of \<open>src/server_phase3.cpp\<close> (that of \<open>src/server_phase4.cpp\<close> is in \<open>Early_Pools\<close>). Under its mutex
  each operation is atomic; \<open>pop\<close> is \<^const>\<open>None\<close> while the caller would have to wait and
  answers \<open>Some (None, q)\<close> for the null function that ends a worker. The locale
  \<open>task_fifo\<close> is what the pools rely on. How sleeping workers are woken is the subject of the
  theory \<open>Wakeups\<close>.
\<close>

section \<open>The contract\<close>

locale task_fifo =
  fixes tasks :: "'q \<Rightarrow> 't list"
    and stopped :: "'q \<Rightarrow> bool"
    and push :: "'t \<Rightarrow> 'q \<Rightarrow> 'q"
    and pop :: "'q \<Rightarrow> ('t option \<times> 'q) option"
    and stop :: "'q \<Rightarrow> 'q"
  assumes tasks_push: "\<not> stopped q \<Longrightarrow> tasks (push t q) = tasks q @ [t]"
    and stopped_push: "stopped (push t q) = stopped q"
    and pop_empty: "tasks q = [] \<Longrightarrow> pop q = (if stopped q then Some (None, q) else None)"
    and pop_task: "tasks q = t # ts \<Longrightarrow> \<exists>q'. pop q = Some (Some t, q') \<and> tasks q' = ts \<and> stopped q' = stopped q"
    and tasks_stop: "tasks (stop q) = tasks q"
    and stopped_stop: "stopped (stop q)"
begin

text \<open>What a sequence of \<open>n\<close> pops yields; the list ends where a pop would wait.\<close>

fun pops :: "nat \<Rightarrow> 'q \<Rightarrow> 't option list" where
  "pops 0 q = []"
| "pops (Suc n) q = (case pop q of None \<Rightarrow> [] | Some (t, q') \<Rightarrow> t # pops n q')"

lemma tasks_pushes: "\<not> stopped q \<Longrightarrow> tasks (fold push ts q) = tasks q @ ts \<and> stopped (fold push ts q) = stopped q"
  by (induction ts arbitrary: q) (simp_all add: tasks_push stopped_push)

lemma pops_running: "\<not> stopped q \<Longrightarrow> pops n q = map Some (take n (tasks q))"
proof (induction n arbitrary: q)
  case (Suc n)
  show ?case
  proof (cases "tasks q")
    case Nil
    with Suc.prems show ?thesis by (simp add: pop_empty)
  next
    case (Cons t ts)
    with Suc show ?thesis using pop_task [OF Cons] by auto
  qed
qed simp

lemma pops_stopped: "stopped q \<Longrightarrow> pops n q = map Some (take n (tasks q)) @ replicate (n - length (tasks q)) None"
proof (induction n arbitrary: q)
  case (Suc n)
  show ?case
  proof (cases "tasks q")
    case Nil
    with Suc show ?thesis by (simp add: pop_empty)
  next
    case (Cons t ts)
    with Suc show ?thesis using pop_task [OF Cons] by auto
  qed
qed simp

text \<open>First in, first out; a stopped queue is drained before the workers are told to end.\<close>

lemma fifo:
  assumes "\<not> stopped q" "tasks q = []"
  shows "pops n (fold push ts q) = map Some (take n ts)"
    "pops n (stop (fold push ts q)) = map Some (take n ts) @ replicate (n - length ts) None"
  using pops_running [where q = "fold push ts q" and n = n] pops_stopped [OF stopped_stop, where q1 = "fold push ts q" and n = n]
    tasks_pushes [OF assms(1), of ts] assms by (simp_all add: tasks_stop)

end

section \<open>The queue of the server\<close>

record 't task_queue =
  tq_tasks :: "'t list"
  tq_shutdown :: bool
  tq_high_water :: nat

definition new_task_queue :: "'t task_queue" where
  "new_task_queue = \<lparr>tq_tasks = [], tq_shutdown = False, tq_high_water = 0\<rparr>"

definition tq_push :: "'t \<Rightarrow> 't task_queue \<Rightarrow> 't task_queue" where
  "tq_push task q =
     (if tq_shutdown q then q
      else
        (let q = q\<lparr>tq_tasks := tq_tasks q @ [task]\<rparr> in
         if length (tq_tasks q) > tq_high_water q then q\<lparr>tq_high_water := length (tq_tasks q)\<rparr> else q))"

definition tq_pop :: "'t task_queue \<Rightarrow> ('t option \<times> 't task_queue) option" where
  "tq_pop q =
     (if \<not> (tq_tasks q \<noteq> [] \<or> tq_shutdown q) then None
      else if tq_tasks q = [] then Some (None, q)
      else Some (Some (hd (tq_tasks q)), q\<lparr>tq_tasks := tl (tq_tasks q)\<rparr>))"

definition tq_stop :: "'t task_queue \<Rightarrow> 't task_queue" where
  "tq_stop q = q\<lparr>tq_shutdown := True\<rparr>"

definition tq_depth :: "'t task_queue \<Rightarrow> nat" where
  "tq_depth q = length (tq_tasks q)"

interpretation tq: task_fifo tq_tasks tq_shutdown tq_push tq_pop tq_stop
  by unfold_locales (auto simp: tq_push_def tq_pop_def tq_stop_def Let_def)

section \<open>The queue of the origin server\<close>

record 't origin_queue =
  oq_tasks :: "'t list"
  oq_stop :: bool

definition new_origin_queue :: "'t origin_queue" where
  "new_origin_queue = \<lparr>oq_tasks = [], oq_stop = False\<rparr>"

definition oq_push :: "'t \<Rightarrow> 't origin_queue \<Rightarrow> 't origin_queue" where
  "oq_push t q = (if oq_stop q then q else q\<lparr>oq_tasks := oq_tasks q @ [t]\<rparr>)"

definition oq_pop :: "'t origin_queue \<Rightarrow> ('t option \<times> 't origin_queue) option" where
  "oq_pop q =
     (if \<not> (oq_tasks q \<noteq> [] \<or> oq_stop q) then None
      else if oq_tasks q = [] then Some (None, q)
      else Some (Some (hd (oq_tasks q)), q\<lparr>oq_tasks := tl (oq_tasks q)\<rparr>))"

definition oq_halt :: "'t origin_queue \<Rightarrow> 't origin_queue" where
  "oq_halt q = q\<lparr>oq_stop := True\<rparr>"

interpretation oq: task_fifo oq_tasks oq_stop oq_push oq_pop oq_halt
  by unfold_locales (auto simp: oq_push_def oq_pop_def oq_halt_def)

section \<open>The queue of phase 3\<close>

record 't queue3 =
  q3_tasks :: "'t list"
  q3_shutdown :: bool

definition new_queue3 :: "'t queue3" where
  "new_queue3 = \<lparr>q3_tasks = [], q3_shutdown = False\<rparr>"

definition q3_push :: "'t \<Rightarrow> 't queue3 \<Rightarrow> 't queue3" where
  "q3_push task q = q\<lparr>q3_tasks := q3_tasks q @ [task]\<rparr>"

definition q3_pop :: "'t queue3 \<Rightarrow> ('t option \<times> 't queue3) option" where
  "q3_pop q =
     (if \<not> (q3_tasks q \<noteq> [] \<or> q3_shutdown q) then None
      else if q3_shutdown q \<and> q3_tasks q = [] then Some (None, q)
      else Some (Some (hd (q3_tasks q)), q\<lparr>q3_tasks := tl (q3_tasks q)\<rparr>))"

definition q3_stop :: "'t queue3 \<Rightarrow> 't queue3" where
  "q3_stop q = q\<lparr>q3_shutdown := True\<rparr>"

definition q3_size :: "'t queue3 \<Rightarrow> nat" where
  "q3_size q = length (q3_tasks q)"

interpretation q3: task_fifo q3_tasks q3_shutdown q3_push q3_pop q3_stop
  by unfold_locales (auto simp: q3_push_def q3_pop_def q3_stop_def)

section \<open>A worker\<close>

text \<open>The body of a worker of the server's \<open>ThreadPool\<close>: pop and run until the null task. It
  is a fuelled loop (a worker waits for ever on a queue that is never stopped); the result is
  the tasks run and whether the worker has ended.\<close>

fun worker_loop :: "nat \<Rightarrow> 't task_queue \<Rightarrow> 't list \<times> bool \<times> 't task_queue" where
  "worker_loop 0 q = ([], False, q)"
| "worker_loop (Suc n) q =
     (case tq_pop q of
        None \<Rightarrow> ([], False, q)
      | Some (None, q) \<Rightarrow> ([], True, q)
      | Some (Some t, q) \<Rightarrow> (let (ts, ended, q) = worker_loop n q in (t # ts, ended, q)))"


text \<open>A single worker runs what was queued, in order, and ends.\<close>

lemma worker_drains:
  "tq_shutdown q \<Longrightarrow> length (tq_tasks q) < n \<Longrightarrow> fst (worker_loop n q) = tq_tasks q \<and> fst (snd (worker_loop n q))"
proof (induction n arbitrary: q)
  case (Suc n)
  show ?case
  proof (cases "tq_tasks q")
    case Nil
    with Suc.prems show ?thesis by (simp add: tq_pop_def)
  next
    case (Cons t ts)
    with Suc.prems Suc.IH [of "q\<lparr>tq_tasks := ts\<rparr>"] show ?thesis
      by (simp add: tq_pop_def split_beta Let_def)
  qed
qed simp

end
