(* ===== verification/Event_Loop.thy ===== *)
theory Event_Loop
  imports Startup Task_Queue
begin

text \<open>
  The event loop of \<open>src/server_phase5.cpp\<close> and the life of its connections. A connection
  is a heap object known to epoll, to the array of reported events, to the task queue or to a
  worker; \<open>loop_step\<close> interleaves the main thread, the workers, the peers, the flushes of the
  statistics thread and the stop in any order. One run of \<open>handle_ready\<close> is one step: what it does to the shared state goes through
  atomic counters and the locks of the cache and the log. The invariants say that every
  connection has exactly one owner, and lift the properties of one run to the whole server.
\<close>

section \<open>The state of the loop\<close>

record loop =
  lp_server :: server
  lp_conns :: "nat \<Rightarrow> conn option"
  lp_next :: nat
  lp_armed :: "nat list"
  lp_ready :: "nat list"
  lp_tasks :: "nat task_queue"
  lp_busy :: "nat list"
  lp_running :: bool

definition start_loop :: "server \<Rightarrow> loop" where
  "start_loop sv = \<lparr>lp_server = sv, lp_conns = Map.empty, lp_next = 0, lp_armed = [], lp_ready = [],
     lp_tasks = new_task_queue, lp_busy = [], lp_running = True\<rparr>"

section \<open>Accepting\<close>

text \<open>What one \<open>accept\<close> gives: a connection, with the answers of \<open>set_nonblocking\<close> and
  \<open>epoll_ctl\<close> for it, or an error.\<close>

datatype accept_answer = Accepted sock bytes bool bool | Accept_fail errno

definition new_conn :: "sock \<Rightarrow> bytes \<Rightarrow> conn" where
  "new_conn s ip = \<lparr>cn_sock = s, cn_client_ip = ip, cn_inbuf = [], cn_requests_served = 0, cn_rearm_ok = True\<rparr>"

text \<open>The compare-and-swap loop on the peak, which only this thread writes.\<close>

definition raise_peak :: "u64 \<Rightarrow> stats \<Rightarrow> stats" where
  "raise_peak active s = (if active > st_peak_connections s then s\<lparr>st_peak_connections := active\<rparr> else s)"

definition accept_conn :: "sock \<Rightarrow> bytes \<Rightarrow> bool \<Rightarrow> loop \<Rightarrow> loop" where
  "accept_conn s ip added l =
     (let sv = count (\<lambda>s. s\<lparr>st_active_connections := st_active_connections s + 1\<rparr>) (lp_server l);
          active = st_active_connections (sv_stats sv);
          sv = count (\<lambda>s. s\<lparr>st_total_connections := st_total_connections s + 1\<rparr>) sv;
          sv = count (raise_peak active) sv in
      if added then
        l\<lparr>lp_server := sv, lp_conns := (lp_conns l)(lp_next l \<mapsto> new_conn s ip), lp_next := lp_next l + 1,
          lp_armed := lp_armed l @ [lp_next l]\<rparr>
      else l\<lparr>lp_server := count minus_active sv, lp_next := lp_next l + 1\<rparr>)"

fun accept_all :: "accept_answer list \<Rightarrow> loop \<Rightarrow> loop" where
  "accept_all [] l = l"
| "accept_all (Accept_fail e # as) l = (if e = EINTR then accept_all as l else l)"
| "accept_all (Accepted s ip nonblocking added # as) l =
     (if \<not> nonblocking then accept_all as l else accept_all as (accept_conn s ip added l))"

section \<open>Dispatching, working, stopping\<close>

text \<open>\<open>epoll_wait\<close> reports armed connections and disarms them.\<close>

definition report_ready :: "nat list \<Rightarrow> loop \<Rightarrow> loop" where
  "report_ready ids l = l\<lparr>lp_armed := filter (\<lambda>i. i \<notin> set ids) (lp_armed l), lp_ready := ids\<rparr>"

definition dispatch :: "loop \<Rightarrow> loop" where
  "dispatch l = (case lp_ready l of [] \<Rightarrow> l
     | i # ids \<Rightarrow> l\<lparr>lp_ready := ids, lp_tasks := tq_push i (lp_tasks l)\<rparr>)"

definition finish_run :: "nat \<Rightarrow> conn_state \<times> conn \<times> server \<Rightarrow> loop \<Rightarrow> loop" where
  "finish_run i r l =
     (let (st, c, sv) = r; l = l\<lparr>lp_server := sv, lp_busy := remove1 i (lp_busy l)\<rparr> in
      if st = Closed then l\<lparr>lp_conns := (lp_conns l)(i := None)\<rparr>
      else l\<lparr>lp_conns := (lp_conns l)(i \<mapsto> c), lp_armed := lp_armed l @ [i]\<rparr>)"

definition stop_loop :: "loop \<Rightarrow> loop" where
  "stop_loop l = l\<lparr>lp_running := False, lp_tasks := tq_stop (lp_tasks l)\<rparr>"

inductive loop_step :: "loop \<Rightarrow> loop \<Rightarrow> bool" where
  accept: "lp_running l \<Longrightarrow> loop_step l (accept_all as l)"
| report: "lp_running l \<Longrightarrow> lp_ready l = [] \<Longrightarrow> distinct ids \<Longrightarrow> set ids \<subseteq> set (lp_armed l) \<Longrightarrow> loop_step l (report_ready ids l)"
| dispatch: "lp_running l \<Longrightarrow> lp_ready l \<noteq> [] \<Longrightarrow> loop_step l (dispatch l)"
| take: "tq_pop (lp_tasks l) = Some (Some i, q) \<Longrightarrow> loop_step l (l\<lparr>lp_tasks := q, lp_busy := i # lp_busy l\<rparr>)"
| run: "i \<in> set (lp_busy l) \<Longrightarrow> lp_conns l i = Some c \<Longrightarrow> handle_ready (lp_server l) c = Some r \<Longrightarrow>
    loop_step l (finish_run i r l)"
| peer: "lp_conns l i = Some c \<Longrightarrow>
    loop_step l (l\<lparr>lp_conns := (lp_conns l)(i \<mapsto> c\<lparr>cn_sock := s, cn_rearm_ok := b\<rparr>)\<rparr>)"
| net: "loop_step l (l\<lparr>lp_server := (lp_server l)\<lparr>sv_net := envs\<rparr>\<rparr>)"
| flush: "loop_step l (l\<lparr>lp_server := (lp_server l)\<lparr>sv_log := log_flush (sv_log (lp_server l))\<rparr>\<rparr>)"
| stop: "lp_running l \<Longrightarrow> lp_ready l = [] \<Longrightarrow> loop_step l (stop_loop l)"

inductive_cases loop_stepE: "loop_step l l'"

inductive reachable :: "server \<Rightarrow> loop \<Rightarrow> bool" for sv :: server where
  start: "reachable sv (start_loop sv)"
| step: "reachable sv l \<Longrightarrow> loop_step l l' \<Longrightarrow> reachable sv l'"

section \<open>One owner\<close>

definition owned :: "loop \<Rightarrow> nat list" where
  "owned l = lp_armed l @ lp_ready l @ tq_tasks (lp_tasks l) @ lp_busy l"

definition owner_inv :: "loop \<Rightarrow> bool" where
  "owner_inv l \<longleftrightarrow> distinct (owned l) \<and> set (owned l) = dom (lp_conns l) \<and> (\<forall>i \<in> dom (lp_conns l). i < lp_next l) \<and>
     st_active_connections (sv_stats (lp_server l)) = of_nat (length (owned l)) \<and>
     tq_shutdown (lp_tasks l) = (\<not> lp_running l) \<and> (lp_running l \<or> lp_ready l = [])"

lemma raise_peak_frame [simp]:
  "st_active_connections (raise_peak a s) = st_active_connections s" "st_total_requests (raise_peak a s) = st_total_requests s"
  "answered (raise_peak a s) = answered s"
  by (simp_all add: raise_peak_def answered_def)

lemma owned_server [simp]: "owned (l\<lparr>lp_server := sv, lp_next := n\<rparr>) = owned l"
  by (simp add: owned_def)

lemma accept_conn_inv:
  assumes "owner_inv l" shows "owner_inv (accept_conn s ip added l)"
proof (cases added)
  case True
  have "lp_next l \<notin> set (owned l)" using assms by (auto simp: owner_inv_def)
  moreover have "set (owned l) = dom (lp_conns l)" "distinct (owned l)" using assms by (simp_all add: owner_inv_def)
  ultimately show ?thesis
    using assms True by (simp add: owner_inv_def accept_conn_def owned_def Let_def Un_commute Un_left_commute ball_Un less_Suc_eq)
next
  case False
  with assms show ?thesis by (simp add: owner_inv_def accept_conn_def Let_def less_Suc_eq)
qed

lemma accept_all_inv: "owner_inv l \<Longrightarrow> owner_inv (accept_all as l)"
  by (induction as l rule: accept_all.induct) (simp_all add: accept_conn_inv)

lemma report_inv:
  assumes "owner_inv l" "lp_ready l = []" "distinct ids" "set ids \<subseteq> set (lp_armed l)" "lp_running l"
  shows "owner_inv (report_ready ids l)"
proof -
  let ?rest = "filter (\<lambda>i. i \<notin> set ids) (lp_armed l)"
  have d: "distinct (lp_armed l)" using assms(1) by (simp add: owner_inv_def owned_def)
  have set: "set (?rest @ ids) = set (lp_armed l)" using assms(4) by auto
  have "distinct (?rest @ ids)" using d assms(3) by auto
  with set d have len: "length (?rest @ ids) = length (lp_armed l)" by (metis distinct_card)
  have "(of_nat (length ?rest) :: u64) + of_nat (length ids) = of_nat (length (lp_armed l))"
    by (simp only: len [symmetric] length_append of_nat_add)
  with assms set show ?thesis
    unfolding owner_inv_def owned_def report_ready_def by (auto simp: add.assoc [symmetric])
qed

lemma finish_inv:
  assumes "owner_inv l" "i \<in> set (lp_busy l)" "lp_conns l i = Some c" "handle_ready (lp_server l) c = Some r"
  shows "owner_inv (finish_run i r l)"
proof -
  obtain st c' sv' where r: "r = (st, c', sv')" by (cases r)
  have active: "st_active_connections (sv_stats sv') =
      st_active_connections (sv_stats (lp_server l)) - (if st = Closed then 1 else 0)"
    using handle_ready_active [OF assms(4) [unfolded r]] by blast
  have "distinct (lp_busy l)" using assms(1) by (simp add: owner_inv_def owned_def)
  then have rest: "set (remove1 i (lp_busy l)) = set (lp_busy l) - {i}" "length (lp_busy l) = Suc (length (remove1 i (lp_busy l)))"
    using assms(2) length_pos_if_in_set [OF assms(2)] by (simp_all add: length_remove1)
  have notin: "i \<notin> set (lp_armed l)" "i \<notin> set (lp_ready l)" "i \<notin> set (tq_tasks (lp_tasks l))"
    using assms(1,2) by (auto simp: owner_inv_def owned_def)
  show ?thesis
  proof (cases st)
    case Closed
    with assms r active rest notin show ?thesis
      by (auto simp: owner_inv_def owned_def finish_run_def Let_def)
  next
    case Armed
    with assms r active rest notin show ?thesis
      by (auto simp: owner_inv_def owned_def finish_run_def Let_def)
  qed
qed

lemma owner_inv_step: "loop_step l l' \<Longrightarrow> owner_inv l \<Longrightarrow> owner_inv l'"
proof (induction rule: loop_step.induct)
  case (accept l as)
  with accept show ?case by (simp add: accept_all_inv)
next
  case (report l ids)
  with report show ?case by (simp add: report_inv)
next
  case (dispatch l)
  with dispatch show ?case
    by (cases "lp_ready l") (auto simp: owner_inv_def owned_def dispatch_def tq_push_def Let_def)
next
  case (take l i q)
  with take show ?case
    by (cases "tq_tasks (lp_tasks l)") (auto simp: owner_inv_def owned_def tq_pop_def split: if_splits)
next
  case (run i l c r)
  with run show ?case by (simp add: finish_inv)
next
  case (peer l i c s b)
  with peer show ?case by (auto simp: owner_inv_def owned_def dom_def)
next
  case (net l envs)
  with net show ?case by (simp add: owner_inv_def owned_def)
next
  case (flush l)
  with flush show ?case by (simp add: owner_inv_def owned_def)
next
  case (stop l)
  with stop show ?case by (simp add: owner_inv_def owned_def stop_loop_def tq_stop_def)
qed

section \<open>What holds of the server\<close>

lemma handle_ready_bound:
  "handle_ready sv c = Some (st, c', sv') \<Longrightarrow> length (cn_inbuf c') \<le> max (length (cn_inbuf c))
     (opt_max_header_bytes (sv_opt sv) + opt_max_body_bytes (sv_opt sv)) \<or> st = Closed"
proof (induction rule: handle_ready_ind)
  case (rest sv c c1 c2 sv2 r)
  from drain_effect [OF rest(1)] serve_buffered_left [OF rest(2)] rest(3) show ?case
    by (cases "cn_rearm_ok c2") (auto simp: rearm_def close_conn_def)
next
  case (again sv c c1 c2 sv2 st c' sv')
  from drain_effect [OF again(1)] serve_buffered_left [OF again(2)] serve_buffered_active [OF again(2)] again(3)
  show ?case by (auto simp: max_def split: if_splits)
qed simp_all

definition buffer_limit :: "server \<Rightarrow> nat" where
  "buffer_limit sv = opt_max_header_bytes (sv_opt sv) + opt_max_body_bytes (sv_opt sv)"

definition service_inv :: "server \<Rightarrow> loop \<Rightarrow> bool" where
  "service_inv sv l \<longleftrightarrow> sv_opt (lp_server l) = sv_opt sv \<and> sv_acl (lp_server l) = sv_acl sv \<and>
     list_all (allowed_call (sv_acl sv)) (sv_calls (lp_server l)) \<and>
     st_total_requests (sv_stats (lp_server l)) = answered (sv_stats (lp_server l)) \<and>
     cache_sound (lp_server l) \<and>
     (\<forall>i c. lp_conns l i = Some c \<longrightarrow> length (cn_inbuf c) \<le> buffer_limit sv)"

lemma answered_active [simp]: "answered (s\<lparr>st_active_connections := a\<rparr>) = answered s"
    "answered (s\<lparr>st_total_connections := a\<rparr>) = answered s"
  by (simp_all add: answered_def)

lemma accept_service: "service_inv sv l \<Longrightarrow> service_inv sv (accept_conn s ip added l)"
  by (auto simp: service_inv_def accept_conn_def new_conn_def Let_def split: if_splits)

lemma accept_all_service: "service_inv sv l \<Longrightarrow> service_inv sv (accept_all as l)"
  by (induction as l rule: accept_all.induct) (simp_all add: accept_service)

lemma run_service:
  assumes "service_inv sv l" "lp_conns l i = Some c" "handle_ready (lp_server l) c = Some r"
  shows "service_inv sv (finish_run i r l)"
proof -
  obtain st c' sv' where r: "r = (st, c', sv')" by (cases r)
  note hr = assms(3) [unfolded r]
  note I = assms(1) [unfolded service_inv_def]
  have g: "guarded_run (lp_server l, c) (sv', c')" by (rule guarded.handle_ready_rel [OF hr])
  have a: "accounted_run (lp_server l, c) (sv', c')" by (rule accounted.handle_ready_rel [OF hr])
  have s: "sound_run (lp_server l, c) (sv', c')" by (rule sound.handle_ready_rel [OF hr])
  have "length (cn_inbuf c) \<le> buffer_limit sv" using I assms(2) by blast
  then have b: "st = Closed \<or> length (cn_inbuf c') \<le> buffer_limit sv"
    using handle_ready_bound [OF hr] I by (auto simp: buffer_limit_def)
  have srv: "sv_opt sv' = sv_opt sv" "sv_acl sv' = sv_acl sv" "cache_sound sv'"
    "list_all (allowed_call (sv_acl sv)) (sv_calls sv')"
    "st_total_requests (sv_stats sv') = answered (sv_stats sv')"
    using I g a s by (auto simp: guarded_run_def accounted_run_def sound_run_def)
  have conns: "(\<forall>j d. lp_conns (finish_run i r l) j = Some d \<longrightarrow> length (cn_inbuf d) \<le> buffer_limit sv)"
    using I b unfolding r finish_run_def by (auto simp: Let_def)
  have "lp_server (finish_run i r l) = sv'" unfolding r finish_run_def by (simp add: Let_def)
  with srv conns show ?thesis by (simp add: service_inv_def)
qed

lemma service_inv_step: "loop_step l l' \<Longrightarrow> service_inv sv l \<Longrightarrow> service_inv sv l'"
proof (induction rule: loop_step.induct)
  case (accept l as)
  then show ?case by (simp add: accept_all_service)
next
  case (report l ids)
  then show ?case by (simp add: service_inv_def report_ready_def)
next
  case (dispatch l)
  then show ?case by (cases "lp_ready l") (simp_all add: service_inv_def dispatch_def)
next
  case (take l i q)
  then show ?case by (simp add: service_inv_def)
next
  case (run i l c r)
  then show ?case by (simp add: run_service)
next
  case (peer l i c s b)
  then show ?case by (auto simp: service_inv_def)
next
  case (net l envs)
  then show ?case by (simp add: service_inv_def cache_sound_def)
next
  case (flush l)
  then show ?case by (simp add: service_inv_def cache_sound_def)
next
  case (stop l)
  then show ?case by (simp add: service_inv_def stop_loop_def)
qed

lemma booted_inv:
  assumes "booted env sv"
  shows "owner_inv (start_loop sv)" "service_inv sv (start_loop sv)"
proof -
  have "sharded_ok (sv_cache sv)" "sharded_look (sv_hash sv) (sv_cache sv) k = None" for k
    using built_sound assms by (auto simp: booted_def)
  with assms show "owner_inv (start_loop sv)" "service_inv sv (start_loop sv)"
    by (simp_all add: owner_inv_def owned_def service_inv_def cache_sound_def booted_def start_loop_def new_task_queue_def
        new_stats_def answered_def)
qed

lemma reachable_inv: "reachable sv l \<Longrightarrow> booted env sv \<Longrightarrow> owner_inv l \<and> service_inv sv l"
proof (induction rule: reachable.induct)
  case start
  then show ?case using booted_inv by blast
next
  case (step l l')
  then show ?case using owner_inv_step service_inv_step by blast
qed

lemma reachable_returns:
  assumes "reachable sv l" "booted env sv" "lp_conns l i = Some c"
  shows "length (cn_inbuf c) \<le> buffer_limit sv" "\<exists>r. handle_ready (lp_server l) c = Some r"
proof -
  have inv: "service_inv sv l" using reachable_inv [OF assms(1,2)] by blast
  then show b: "length (cn_inbuf c) \<le> buffer_limit sv" using assms(3) by (auto simp: service_inv_def)
  have "buffer_limit sv < 2 ^ 63" using assms(2) by (simp add: booted_def buffer_limit_def)
  with b inv show "\<exists>r. handle_ready (lp_server l) c = Some r"
    using handle_ready_ends [of "lp_server l" c] by (fastforce simp: service_inv_def buffer_limit_def)
qed

section \<open>Properties of the server\<close>

text \<open>C5: Every connection has exactly one owner. In every state that the main thread, the
  workers, the peers and a stop can bring about, each open connection is in exactly one of four
  places (armed in epoll, among the reported events, in the task queue, with a worker), only
  open connections are, and the active counter is their number. So no two workers ever hold
  the same connection, none is used after it was closed, and none is forgotten.\<close>

theorem connections_have_one_owner:
  assumes "booted env sv" "reachable sv l"
  shows "distinct (lp_armed l @ lp_ready l @ tq_tasks (lp_tasks l) @ lp_busy l) \<and>
    set (lp_armed l @ lp_ready l @ tq_tasks (lp_tasks l) @ lp_busy l) = dom (lp_conns l) \<and>
    st_active_connections (sv_stats (lp_server l)) =
      of_nat (length (lp_armed l @ lp_ready l @ tq_tasks (lp_tasks l) @ lp_busy l))"
  using reachable_inv [OF assms(2,1)] by (simp add: owner_inv_def owned_def)

definition boot_demo_env :: boot_env where
  "boot_demo_env = \<lparr>be_files = (\<lambda>_. None), be_can_open = (\<lambda>_. True), be_cores = 4, be_rlimit = None, be_setrlimit = False,
     be_socket = None, be_reuse = None, be_bind = None, be_listen = None, be_nonblock = None, be_epoll = None, be_epoll_add = None\<rparr>"

definition demo_server :: server where
  "demo_server = \<lparr>sv_opt = new_options, sv_acl = new_access_control, sv_cache = the (new_sharded 2000 16),
     sv_log = new_access_log, sv_stats = new_stats, sv_hash = (\<lambda>_. 0),
     sv_msg = \<lparr>msg_errno = (\<lambda>_. []), msg_gai = (\<lambda>_. [])\<rparr>, sv_clock = (\<lambda>_. ((0, 0), 0)), sv_ticks = 0, sv_net = [], sv_calls = []\<rparr>"

lemma demo_booted: "booted boot_demo_env demo_server"
proof -
  have "(new_sharded 2000 16 :: (bytes, bytes) sharded option) \<noteq> None"
    using new_sharded_built [where cap = 2000 and num = 16 and ?'a = bytes and ?'b = bytes]
    by (cases "new_sharded 2000 16 :: (bytes, bytes) sharded option") simp_all
  then show ?thesis
    by (auto simp: booted_def demo_server_def demo_env_def new_options_def log_open_def new_access_log_def Let_def)
qed

definition demo_sock :: sock where
  "demo_sock = \<lparr>sk_rx = [], sk_tx = [], sk_poll = [], sk_wire = [], sk_errno = EAGAIN\<rparr>"

text \<open>One connection was accepted and reported, and is with a worker.\<close>

definition demo_loop :: loop where
  "demo_loop = (let l = dispatch (report_ready [0] (accept_all [Accepted demo_sock [] True True] (start_loop demo_server))) in
     l\<lparr>lp_tasks := (lp_tasks l)\<lparr>tq_tasks := []\<rparr>, lp_busy := [0]\<rparr>)"

lemma demo_lists:
  "lp_armed demo_loop = []" "lp_ready demo_loop = []" "tq_tasks (lp_tasks demo_loop) = []" "lp_busy demo_loop = [0]"
  "lp_conns demo_loop 0 = Some (new_conn demo_sock [])"
  by (simp_all add: demo_loop_def dispatch_def report_ready_def accept_conn_def start_loop_def Let_def)

lemma demo_reachable: "reachable demo_server demo_loop"
proof -
  let ?a = "accept_all [Accepted demo_sock [] True True] (start_loop demo_server)"
  have a: "lp_armed ?a = [0]" "lp_ready ?a = []" "lp_running ?a" "tq_tasks (lp_tasks ?a) = []" "lp_busy ?a = []"
    by (simp_all add: accept_conn_def start_loop_def new_task_queue_def Let_def)
  have "loop_step (start_loop demo_server) ?a" by (rule loop_step.accept) (simp add: start_loop_def)
  with reachable.start have "reachable demo_server ?a" by (rule reachable.step)
  moreover have "loop_step ?a (report_ready [0] ?a)" using a by (intro loop_step.report) simp_all
  ultimately have r: "reachable demo_server (report_ready [0] ?a)" by (rule reachable.step)
  have "loop_step (report_ready [0] ?a) (dispatch (report_ready [0] ?a))"
    using a by (intro loop_step.dispatch) (simp_all add: report_ready_def)
  with r have d: "reachable demo_server (dispatch (report_ready [0] ?a))" by (rule reachable.step)
  let ?d = "dispatch (report_ready [0] ?a)"
  have "tq_pop (lp_tasks ?d) = Some (Some 0, (lp_tasks ?d)\<lparr>tq_tasks := []\<rparr>)" "lp_busy ?d = []"
    by (simp_all add: dispatch_def report_ready_def tq_pop_def tq_push_def accept_conn_def start_loop_def new_task_queue_def Let_def)
  then have "loop_step ?d demo_loop"
    using loop_step.take [of ?d 0 "(lp_tasks ?d)\<lparr>tq_tasks := []\<rparr>"] by (simp add: demo_loop_def Let_def)
  with d show ?thesis by (rule reachable.step)
qed

theorem connections_have_one_owner_witness:
  "st_active_connections (sv_stats (lp_server demo_loop)) = 1"
  using connections_have_one_owner [OF demo_booted demo_reachable] by (simp add: demo_lists)

text \<open>C1: The policy holds for the whole server. In every reachable state the policy in force
  is the one the server started with, every upstream call ever made was for one complete request
  that this policy allows, with exactly its bytes and to the upstream routed for its host, and
  every request counted has been counted under exactly one outcome.\<close>

theorem server_enforces_policy:
  assumes "booted env sv" "reachable sv l"
  shows "sv_acl (lp_server l) = sv_acl sv \<and> sv_opt (lp_server l) = sv_opt sv \<and>
    list_all (allowed_call (sv_acl sv)) (sv_calls (lp_server l)) \<and>
    st_total_requests (sv_stats (lp_server l)) = answered (sv_stats (lp_server l))"
  using reachable_inv [OF assms(2,1)] by (simp add: service_inv_def)

theorem server_enforces_policy_witness: "list_all (allowed_call new_access_control) (sv_calls (lp_server demo_loop))"
  using server_enforces_policy [OF demo_booted demo_reachable] by (simp add: demo_server_def)



section \<open>Progress\<close>

definition work_left :: "loop \<Rightarrow> nat" where
  "work_left l = 3 * length (lp_ready l) + 2 * length (tq_tasks (lp_tasks l)) + length (lp_busy l)"

text \<open>The steps that work off what has been reported.\<close>

inductive working :: "loop \<Rightarrow> loop \<Rightarrow> bool" where
  dispatching: "lp_running l \<Longrightarrow> lp_ready l \<noteq> [] \<Longrightarrow> working l (dispatch l)"
| taking: "tq_pop (lp_tasks l) = Some (Some i, q) \<Longrightarrow> working l (l\<lparr>lp_tasks := q, lp_busy := i # lp_busy l\<rparr>)"
| running: "i \<in> set (lp_busy l) \<Longrightarrow> lp_conns l i = Some c \<Longrightarrow> handle_ready (lp_server l) c = Some r \<Longrightarrow>
    working l (finish_run i r l)"

inductive work_run :: "nat \<Rightarrow> loop \<Rightarrow> loop \<Rightarrow> bool" where
  none: "work_run 0 l l"
| one_more: "work_run n l l1 \<Longrightarrow> working l1 l2 \<Longrightarrow> work_run (Suc n) l l2"

lemma working_step: "working l l' \<Longrightarrow> loop_step l l'"
  by (induction rule: working.induct) (auto intro: loop_step.intros)

lemma working_less: "working l l' \<Longrightarrow> owner_inv l \<Longrightarrow> work_left l' < work_left l"
proof (induction rule: working.induct)
  case (dispatching l)
  then have "\<not> tq_shutdown (lp_tasks l)" by (simp add: owner_inv_def)
  with dispatching show ?case
    by (cases "lp_ready l") (auto simp: dispatch_def work_left_def tq_push_def Let_def)
next
  case (taking l i q)
  then show ?case by (cases "tq_tasks (lp_tasks l)") (auto simp: tq_pop_def work_left_def split: if_splits)
next
  case (running i l c r)
  then show ?case
    using length_pos_if_in_set [OF running(1)]
    by (cases r; cases "fst r") (simp_all add: finish_run_def work_left_def length_remove1 Let_def)
qed

lemma working_exists:
  assumes "booted env sv" "reachable sv l" "0 < work_left l"
  shows "\<exists>l'. working l l'"
proof -
  have inv: "owner_inv l" using reachable_inv [OF assms(2,1)] by blast
  consider (ready) "lp_ready l \<noteq> []" | (tasks) "tq_tasks (lp_tasks l) \<noteq> []" | (busy) "lp_busy l \<noteq> []"
    using assms(3) by (auto simp: work_left_def)
  then show ?thesis
  proof cases
    case ready
    then have "lp_running l" using inv by (auto simp: owner_inv_def)
    from working.dispatching [OF this ready] show ?thesis by blast
  next
    case tasks
    then obtain i ts where "tq_tasks (lp_tasks l) = i # ts" by (cases "tq_tasks (lp_tasks l)") auto
    then have "tq_pop (lp_tasks l) = Some (Some i, (lp_tasks l)\<lparr>tq_tasks := ts\<rparr>)" by (simp add: tq_pop_def)
    from working.taking [OF this] show ?thesis by blast
  next
    case busy
    then obtain i where i: "i \<in> set (lp_busy l)" by (cases "lp_busy l") auto
    then have "i \<in> dom (lp_conns l)" using inv by (auto simp: owner_inv_def owned_def)
    then obtain c where c: "lp_conns l i = Some c" by auto
    obtain r where "handle_ready (lp_server l) c = Some r"
      using reachable_returns(2) [OF assms(2,1) c] by blast
    from working.running [OF i c this] show ?thesis by blast
  qed
qed

lemma work_run_bound:
  assumes "booted env sv"
  shows "work_run n l l' \<Longrightarrow> reachable sv l \<Longrightarrow> reachable sv l' \<and> n + work_left l' \<le> work_left l"
proof (induction n l l' rule: work_run.induct)
  case (one_more n l l1 l2)
  then have r: "reachable sv l1" "n + work_left l1 \<le> work_left l" by simp_all
  then have "owner_inv l1" using reachable_inv [OF _ assms] by blast
  from working_less [OF one_more(2) this] r show ?case
    using reachable.step [OF r(1) working_step [OF one_more(2)]] by simp
qed simp

lemma work_run_trans: "work_run m l1 l2 \<Longrightarrow> work_run n l l1 \<Longrightarrow> work_run (n + m) l l2"
  by (induction m l1 l2 rule: work_run.induct) (auto intro: work_run.intros)

lemma work_ends:
  assumes "booted env sv"
  shows "reachable sv l \<Longrightarrow> \<exists>n l'. work_run n l l' \<and> work_left l' = 0"
proof (induction "work_left l" arbitrary: l rule: less_induct)
  case less
  show ?case
  proof (cases "work_left l = 0")
    case True
    then show ?thesis using work_run.none by blast
  next
    case False
    then obtain l1 where w: "working l l1" using working_exists [OF assms less(2)] by auto
    then have "work_left l1 < work_left l" "reachable sv l1"
      using working_less reachable_inv [OF less(2) assms] reachable.step [OF less(2) working_step] by blast+
    from less(1) [OF this] obtain n l' where "work_run n l1 l'" "work_left l' = 0" by blast
    moreover have "work_run (Suc 0) l l1" using work_run.one_more [OF work_run.none w] .
    ultimately show ?thesis using work_run_trans by blast
  qed
qed

lemma no_work_left: "work_left l = 0 \<longleftrightarrow> lp_ready l = [] \<and> tq_tasks (lp_tasks l) = [] \<and> lp_busy l = []"
  by (auto simp: work_left_def)

text \<open>C8: What has been reported gets done. From every reachable state, in whatever order the
  main thread dispatches, workers take tasks and runs of \<open>handle_ready\<close> return, and whatever the
  clients sent: after at most \<open>work_left\<close> such steps nothing is reported, queued or with a worker
  any more, and before that there is always such a step. So no connection that was reported
  waits for ever, and none keeps a worker for ever.\<close>

theorem work_drains:
  assumes "booted env sv" "reachable sv l"
  shows "(\<exists>n l'. work_run n l l' \<and> lp_ready l' = [] \<and> tq_tasks (lp_tasks l') = [] \<and> lp_busy l' = []) \<and>
    (\<forall>n l'. work_run n l l' \<longrightarrow> n \<le> work_left l \<and>
       ((\<exists>l''. working l' l'') \<or> lp_ready l' = [] \<and> tq_tasks (lp_tasks l') = [] \<and> lp_busy l' = []))"
proof (intro conjI allI impI)
  show "\<exists>n l'. work_run n l l' \<and> lp_ready l' = [] \<and> tq_tasks (lp_tasks l') = [] \<and> lp_busy l' = []"
    using work_ends [OF assms] by (simp add: no_work_left)
  fix n l' assume "work_run n l l'"
  from work_run_bound [OF assms(1) this assms(2)] have r: "reachable sv l'" "n \<le> work_left l" by simp_all
  then show "n \<le> work_left l" by simp
  show "(\<exists>l''. working l' l'') \<or> lp_ready l' = [] \<and> tq_tasks (lp_tasks l') = [] \<and> lp_busy l' = []"
    using working_exists [OF assms(1) r(1)] by (cases "work_left l' = 0") (auto simp: no_work_left)
qed

theorem work_drains_witness:
  "\<exists>n l'. work_run n demo_loop l' \<and> lp_ready l' = [] \<and> tq_tasks (lp_tasks l') = [] \<and> lp_busy l' = []"
  using work_drains [OF demo_booted demo_reachable] by blast

text \<open>Every reported connection gets served. In every reachable state, as
  long as some connection is reported, queued or with a worker, there is a step that brings the
  work closer to its end: it is dispatched, taken by a worker, or the run of \<open>handle_ready\<close> on it returns. No state of
  the server is stuck with a connection that waits for anything but its peer.\<close>

theorem work_progresses:
  assumes "booted env sv" "reachable sv l" "0 < work_left l"
  shows "\<exists>l'. loop_step l l' \<and> work_left l' < work_left l"
proof -
  have "owner_inv l" using reachable_inv [OF assms(2,1)] by blast
  then show ?thesis using working_exists [OF assms] working_less working_step by blast
qed

theorem work_progresses_witness: "\<exists>l'. loop_step demo_loop l' \<and> work_left l' < work_left demo_loop"
  by (rule work_progresses [OF demo_booted demo_reachable]) (simp add: work_left_def demo_lists)

end
