(* ===== verification/Relay.thy ===== *)
theory Relay
  imports Serving
begin

text \<open>
  From the origin to the client: \<open>serve_one_request\<close> of \<open>src/server_phase5.cpp\<close> composed
  with the fetch, the response parser and the cache. A framed message of the origin reaches the
  client as it was sent, is replayed from the cache without asking the origin again, and the
  two places where this goes wrong: keys of different hosts that coincide, and request bodies
  in chunks.
\<close>

section \<open>A miss\<close>

lemma call_upstream_result:
  "sv_net sv = env # envs \<Longrightarrow> fst (call_upstream up b sv) = fst (fetch_upstream (sv_opt sv) (sv_msg sv) env b)"
  by (simp add: call_upstream_def Let_def)

definition misses :: "server \<Rightarrow> request \<Rightarrow> bool" where
  "misses sv req \<longleftrightarrow> sharded_ok (sv_cache sv) \<and>
     (if cacheable_request req then sharded_look (sv_hash sv) (sv_cache sv) (cache_key req) = None else True)"

text \<open>What serving does when the request is allowed, not in the cache, and the fetch succeeds.\<close>

lemma serve_forwarded:
  assumes "acl_decision (check (sv_acl sv) req) = Allow" "misses sv req" "sv_net sv = env # envs"
    and "fst (fetch_upstream (sv_opt sv) (sv_msg sv) env (take n (req_raw req))) = ur" "ur_ok ur"
    and "serve_one_request sv c req n = (keep, c', sv')"
  shows "c' = snd (reply (ur_raw ur) c)" "keep = (fst (reply (ur_raw ur) c) \<and> req_keep_alive req)"
    "sv_calls sv' = sv_calls sv @ [(resolve (ac_routes (sv_acl sv)) (req_host req), take n (req_raw req))]"
    "sv_acl sv' = sv_acl sv" "sv_hash sv' = sv_hash sv" "sharded_ok (sv_cache sv')"
    "cacheable_request req \<Longrightarrow> is_cacheable req (parse_response_headers (ur_raw ur)) \<Longrightarrow>
       sharded_look (sv_hash sv') (sv_cache sv') (cache_key req) = Some (ur_raw ur)"
proof -
  have ok: "sharded_ok (sv_cache sv)" using assms(2) by (simp add: misses_def)
  have miss: "cacheable_request req \<Longrightarrow> fst (sharded_get (sv_hash sv) (sv_cache sv) (cache_key req)) = None"
    using assms(2) sharded.get_answer [OF ok] by (simp add: misses_def)
  let ?sv = "(count plus_total sv)\<lparr>sv_cache := probed sv req\<rparr>"
  have pok: "sharded_ok (probed sv req)" using sharded.ok_get [OF ok] ok by (simp add: probed_def)
  obtain ent where f: "forward ent (resolve (ac_routes (sv_acl sv)) (req_host req)) (cache_key req) req n ?sv c = (keep, c', sv')"
    using assms(6)
  proof (cases rule: serve_one_request_cases)
    case (fetched ent)
    then show thesis by (intro that)
  qed (use assms(1) miss in auto)
  have u: "fst (call_upstream (resolve (ac_routes (sv_acl sv)) (req_host req)) (take n (req_raw req)) ?sv) = ur"
    using assms(3,4) by (simp add: call_upstream_result)
  have "c' = snd (reply (ur_raw ur) c) \<and> keep = (fst (reply (ur_raw ur) c) \<and> req_keep_alive req) \<and>
      sv_acl sv' = sv_acl sv \<and> sv_hash sv' = sv_hash sv \<and>
      sv_cache sv' = (if cacheable_request req \<and> is_cacheable req (parse_response_headers (ur_raw ur))
        then sharded_put (sv_hash sv) (probed sv req) (cache_key req) (ur_raw ur) else probed sv req)"
    using f
  proof (cases rule: forward_cases)
    case (failed ur' sv1 resp)
    with u assms(5) show ?thesis by simp
  next
    case (forwarded ur' sv1)
    with u have "ur' = ur" by simp
    moreover have "sv_acl sv1 = sv_acl sv" "sv_hash sv1 = sv_hash sv"
      using call_upstream_frame(2,6) [of "resolve (ac_routes (sv_acl sv)) (req_host req)" "take n (req_raw req)" ?sv]
        forwarded(1) by simp_all
    ultimately show ?thesis using forwarded by simp
  qed
  then show "c' = snd (reply (ur_raw ur) c)" "keep = (fst (reply (ur_raw ur) c) \<and> req_keep_alive req)"
    "sv_acl sv' = sv_acl sv" "sv_hash sv' = sv_hash sv" "sharded_ok (sv_cache sv')"
    "cacheable_request req \<Longrightarrow> is_cacheable req (parse_response_headers (ur_raw ur)) \<Longrightarrow>
       sharded_look (sv_hash sv') (sv_cache sv') (cache_key req) = Some (ur_raw ur)"
    using pok by (auto simp: sharded.ok_put sharded.look_put_same)
  show "sv_calls sv' = sv_calls sv @ [(resolve (ac_routes (sv_acl sv)) (req_host req), take n (req_raw req))]"
    using forward_frame(7) [OF f] by simp
qed

section \<open>A hit\<close>

lemma serve_hit:
  assumes "acl_decision (check (sv_acl sv) req) = Allow" "cacheable_request req" "sharded_ok (sv_cache sv)"
    and "sharded_look (sv_hash sv) (sv_cache sv) (cache_key req) = Some v"
    and "serve_one_request sv c req n = (keep, c', sv')"
  shows "c' = snd (reply v c)" "keep = (fst (reply v c) \<and> req_keep_alive req)" "sv_calls sv' = sv_calls sv"
    "st_cache_served (sv_stats sv') = st_cache_served (sv_stats sv) + 1"
proof -
  have "fst (sharded_get (sv_hash sv) (sv_cache sv) (cache_key req)) = Some v"
    using assms(4) sharded.get_answer [OF assms(3)] by simp
  note g = this
  from assms(5) have "c' = snd (reply v c) \<and> keep = (fst (reply v c) \<and> req_keep_alive req) \<and> sv_calls sv' = sv_calls sv \<and>
      st_cache_served (sv_stats sv') = st_cache_served (sv_stats sv) + 1"
  proof (cases rule: serve_one_request_cases)
    case (hit w ent)
    with g show ?thesis by simp
  qed (use assms(1,2) g in auto)
  then show "c' = snd (reply v c)" "keep = (fst (reply v c) \<and> req_keep_alive req)" "sv_calls sv' = sv_calls sv"
    "st_cache_served (sv_stats sv') = st_cache_served (sv_stats sv) + 1" by simp_all
qed

section \<open>End to end\<close>


text \<open>The exchange of the witness: the same request twice, over two connections.\<close>

definition relay_request :: bytes where
  "relay_request = print_request ''GET'' ''/'' ''HTTP/1.1'' [(''Host'', ''a'')]"

definition relay_server :: server where
  "relay_server = \<lparr>sv_opt = new_options\<lparr>opt_max_header_bytes := 100, opt_max_body_bytes := 100\<rparr>, sv_acl = new_access_control,
     sv_cache = \<lparr>sh_shards = [new_lru 1], sh_mask = 0\<rparr>, sv_log = new_access_log, sv_stats = new_stats, sv_hash = (\<lambda>_. 0),
     sv_msg = \<lparr>msg_errno = (\<lambda>_. []), msg_gai = (\<lambda>_. [])\<rparr>, sv_clock = (\<lambda>_. ((0, 0), 0)), sv_ticks = 0,
     sv_net = [demo_env [Recv demo_head, Recv_fail EINTR, Recv ''abc'', Recv ''HTTP'']], sv_calls = []\<rparr>"

definition relay_conn :: conn where
  "relay_conn = \<lparr>cn_sock = \<lparr>sk_rx = [], sk_tx = [Sent 9, Sent 99], sk_poll = [], sk_wire = [], sk_errno = EINTR\<rparr>,
     cn_client_ip = [], cn_inbuf = [], cn_requests_served = 0, cn_rearm_ok = True\<rparr>"

lemma relay_facts:
  "cacheable_request (parse_request relay_request)" "length relay_request = 27"
  "is_cacheable (parse_request relay_request) (parse_response_headers (demo_head @ ''abc''))"
  by code_simp+


section \<open>Two findings\<close>

lemma parse_printed_host:
  assumes "printable m t v [(''Host'', h)]" "take 7 (to_lower t) \<noteq> ''http://''" "h \<noteq> []"
  shows "req_valid (parse_request (print_request m t v [(''Host'', h)]))"
    "req_host (parse_request (print_request m t v [(''Host'', h)])) = h"
    "req_path (parse_request (print_request m t v [(''Host'', h)])) = t"
    "req_method (parse_request (print_request m t v [(''Host'', h)])) = m"
proof -
  let ?raw = "print_request m t v [(''Host'', h)]"
  have "to_lower ''Host'' = ''host''" by code_simp
  then have "header_loop fold_header (map (\<lambda>nv. header_line nv @ [CR]) [(''Host'', h)] @ [[CR]]) Map.empty ''host'' = Some h"
    using header_loop_print [OF assms(1), of "''host''"] by (simp add: field_values_def)
  then have p: "req_host (parse_request ?raw) = h \<and> req_path (parse_request ?raw) = t"
    using parse_request_print [OF assms(1), of "[]"] assms(2,3)
    by (simp add: parse_fields_def normalise_target_def target_parts_def req_header_def Let_def)
  with assms(3) print_request_facts [OF assms(1), of "[]"] show "req_valid (parse_request ?raw)" "req_host (parse_request ?raw) = h"
    "req_path (parse_request ?raw) = t" "req_method (parse_request ?raw) = m" by simp_all
qed

text \<open>A finding. The cache key puts host and path together without a separator, and a
  target need not start with a slash. So a request to host \<open>h\<close> for \<open>s/path\<close> and one to host
  \<open>hs\<close> for \<open>/path\<close> are both accepted, are sent to different upstreams, and share a cache
  entry: whoever controls the first host decides what the clients of the second are served.\<close>

theorem cache_keys_collide:
  assumes "printable m (s @ p) v [(''Host'', h)]" "printable m p v [(''Host'', h @ s)]"
    and "take 7 (to_lower (s @ p)) \<noteq> ''http://''" "take 7 (to_lower p) \<noteq> ''http://''"
    and "to_lower s = s" "h \<noteq> []" "s \<noteq> []" "CHR '':'' \<notin> set (h @ s)"
  shows "req_valid (parse_request (print_request m (s @ p) v [(''Host'', h)])) \<and>
    req_valid (parse_request (print_request m p v [(''Host'', h @ s)])) \<and>
    cache_key (parse_request (print_request m (s @ p) v [(''Host'', h)])) =
      cache_key (parse_request (print_request m p v [(''Host'', h @ s)])) \<and>
    resolve [] (req_host (parse_request (print_request m (s @ p) v [(''Host'', h)]))) \<noteq>
      resolve [] (req_host (parse_request (print_request m p v [(''Host'', h @ s)])))"
proof -
  note A = parse_printed_host [OF assms(1,3,6)]
  have "h @ s \<noteq> []" using assms(6) by simp
  note B = parse_printed_host [OF assms(2,4) this]
  have "to_lower (h @ s) = to_lower h @ s" using assms(5) by (simp add: to_lower_def)
  moreover have "split_authority h \<noteq> split_authority (h @ s)"
    using assms(7,8) by (simp add: split_authority_plain)
  ultimately show ?thesis using A B by (simp add: cache_key_def resolve_def)
qed

theorem cache_keys_collide_witness:
  "cache_key (parse_request (print_request ''GET'' ''m/x'' ''HTTP/1.1'' [(''Host'', ''evil.co'')])) =
   cache_key (parse_request (print_request ''GET'' ''/x'' ''HTTP/1.1'' [(''Host'', ''evil.com'')]))"
proof -
  have "printable ''GET'' (''m'' @ ''/x'') ''HTTP/1.1'' [(''Host'', ''evil.co'')]"
    "printable ''GET'' ''/x'' ''HTTP/1.1'' [(''Host'', ''evil.co'' @ ''m'')]"
    "take 7 (to_lower (''m'' @ ''/x'')) \<noteq> ''http://''" "take 7 (to_lower ''/x'') \<noteq> ''http://''" "to_lower ''m'' = ''m''"
    by code_simp+
  from cache_keys_collide [OF this] show ?thesis by simp
qed

text \<open>A finding. Only a Content-Length is counted as body. A request that sends its body
  in chunks is taken to end with its header block, whatever its Transfer-Encoding says: the head
  alone is forwarded and the body is left in the buffer, where it is read as the next request.\<close>

theorem chunked_request_body_left_behind:
  assumes "printable m t v hs" "field_values hs ''content-length'' = []" "length (print_request m t v hs @ body) < 2 ^ 63"
  shows "unat (expected_request_bytes (parse_request (print_request m t v hs @ body))) = length (print_request m t v hs) \<and>
    drop (unat (expected_request_bytes (parse_request (print_request m t v hs @ body)))) (print_request m t v hs @ body) = body"
proof -
  let ?raw = "print_request m t v hs @ body"
  have cl: "req_header (parse_request ?raw) ''content-length'' = None"
    using print_request_facts [OF assms(1), of body "''content-length''"] assms(2) by simp
  have "req_content_length (parse_request ?raw) = parse_content_length (req_header (parse_request ?raw) ''content-length'')"
    by (simp add: parse_request_print [OF assms(1)] parse_fields_def Let_def req_header_def)
  with cl have "req_content_length (parse_request ?raw) = -1" by (simp add: parse_content_length_def)
  with expected_bytes [OF assms(3)] print_request_facts [OF assms(1), of body] show ?thesis by simp
qed

theorem chunked_request_body_left_behind_witness:
  "drop (unat (expected_request_bytes (parse_request
       (print_request ''POST'' ''/'' ''HTTP/1.1'' [(''Host'', ''a''), (''Transfer-Encoding'', ''chunked'')] @
        ''GET /admin HTTP/1.1''))))
     (print_request ''POST'' ''/'' ''HTTP/1.1'' [(''Host'', ''a''), (''Transfer-Encoding'', ''chunked'')] @ ''GET /admin HTTP/1.1'') =
   ''GET /admin HTTP/1.1''"
proof -
  let ?hs = "[(''Host'', ''a''), (''Transfer-Encoding'', ''chunked'')]"
  have p: "printable ''POST'' ''/'' ''HTTP/1.1'' ?hs" "field_values ?hs ''content-length'' = []" by code_simp+
  have "length (print_request ''POST'' ''/'' ''HTTP/1.1'' ?hs) = 56" by code_simp
  then have "length (print_request ''POST'' ''/'' ''HTTP/1.1'' ?hs @ ''GET /admin HTTP/1.1'') < 2 ^ 63" by simp
  from chunked_request_body_left_behind [OF p this] show ?thesis by blast
qed

end
