(* ===== verification/Decimals.thy ===== *)
theory Decimals
  imports Cpp_Numbers Complex_Main
begin

text \<open>
  How numbers are printed: \<open>%.<d>f\<close> of \<open>printf\<close>, over rationals, rounding to the nearest
  value and to the even one of two (the code prints doubles, whose exact values are rationals).
  The lemmas say that the printed value is within half a unit of its last digit and that the
  text has the digits asked for.
\<close>

definition round_even :: "rat \<Rightarrow> int" where
  "round_even x = (let n = \<lfloor>x\<rfloor>; part = x - of_int n in
     if part < 1 / 2 \<or> (part = 1 / 2 \<and> even n) then n else n + 1)"

definition zero_pad :: "nat \<Rightarrow> bytes \<Rightarrow> bytes" where
  "zero_pad d s = replicate (d - length s) (digit_c 0) @ s"

text \<open>The value in units of the last digit, and its text.\<close>

definition units :: "nat \<Rightarrow> rat \<Rightarrow> nat" where
  "units d x = nat (round_even (\<bar>x\<bar> * 10 ^ d))"

definition fixed :: "nat \<Rightarrow> rat \<Rightarrow> bytes" where
  "fixed d x = (if x < 0 then ''-'' else []) @ nat_str (units d x div 10 ^ d) @
     (if d = 0 then [] else ''.'' @ zero_pad d (nat_str (units d x mod 10 ^ d)))"

lemma round_even_near: "\<bar>of_int (round_even x) - x\<bar> \<le> 1 / 2"
proof -
  have "of_int \<lfloor>x\<rfloor> \<le> x" "x < of_int \<lfloor>x\<rfloor> + 1" using floor_correct [of x] by simp_all
  then show ?thesis unfolding abs_le_iff round_even_def Let_def by (simp, linarith)
qed

lemma round_even_int [simp]: "round_even (of_int n) = n"
  by (simp add: round_even_def)

lemma round_even_mono_0: "0 \<le> x \<Longrightarrow> 0 \<le> round_even x"
  using zero_le_floor [of x] by (auto simp: round_even_def Let_def simp del: zero_le_floor)

lemma units_near: "\<bar>of_nat (units d x) - \<bar>x\<bar> * 10 ^ d\<bar> \<le> 1 / 2"
proof -
  have "0 \<le> round_even (\<bar>x\<bar> * 10 ^ d)" by (rule round_even_mono_0) simp
  then have "of_nat (units d x) = (of_int (round_even (\<bar>x\<bar> * 10 ^ d)) :: rat)" by (simp add: units_def)
  with round_even_near [of "\<bar>x\<bar> * 10 ^ d"] show ?thesis by simp
qed

lemma length_nat_str_le: "n < 10 ^ Suc d \<Longrightarrow> length (nat_str n) \<le> Suc d"
proof (induction d arbitrary: n)
  case 0
  then show ?case by (subst nat_str.simps) simp
next
  case (Suc d)
  then have "n div 10 < 10 ^ Suc d" by (simp add: div_less_iff_less_mult)
  with Suc.IH [of "n div 10"] show ?case by (subst nat_str.simps) simp
qed

lemma length_zero_pad: "n < 10 ^ d \<Longrightarrow> 0 < d \<Longrightarrow> length (zero_pad d (nat_str n)) = d"
  using length_nat_str_le [of n "d - 1"] by (simp add: zero_pad_def)

text \<open>The printed decimal: its integer part, a point and \<open>d\<close> digits, read back as a number
  of units.\<close>

lemma dec_val_zeros: "dec_val 0 (replicate k (digit_c 0) @ s) = dec_val 0 s"
proof (induction k)
  case (Suc k)
  have "digit_val (digit_c 0) = 0" by code_simp
  with Suc show ?case by simp
qed simp

lemma fixed_reads_back:
  assumes "0 \<le> x" "0 < d"
  shows "\<exists>whole part. fixed d x = whole @ ''.'' @ part \<and> length part = d \<and>
    \<bar>(of_nat (dec_val 0 whole) * 10 ^ d + of_nat (dec_val 0 part)) - x * 10 ^ d\<bar> \<le> (1 / 2 :: rat)"
proof -
  define u where "u = units d x"
  have printed: "fixed d x = nat_str (u div 10 ^ d) @ ''.'' @ zero_pad d (nat_str (u mod 10 ^ d))"
    using assms by (simp add: fixed_def u_def)
  have part: "length (zero_pad d (nat_str (u mod 10 ^ d))) = d"
    using assms(2) by (intro length_zero_pad) simp_all
  have vals: "dec_val 0 (nat_str (u div 10 ^ d)) = u div 10 ^ d" "dec_val 0 (zero_pad d (nat_str (u mod 10 ^ d))) = u mod 10 ^ d"
    by (simp_all only: zero_pad_def dec_val_zeros dec_val_nat_str)
  have sum: "(of_nat (u div 10 ^ d) * 10 ^ d + of_nat (u mod 10 ^ d) :: rat) = of_nat u"
    using arg_cong [OF div_mult_mod_eq [of u "10 ^ d"], of "of_nat :: nat \<Rightarrow> rat"]
    by (simp only: of_nat_add of_nat_mult of_nat_power of_nat_numeral)
  have near: "\<bar>of_nat u - x * 10 ^ d\<bar> \<le> 1 / 2"
    using units_near [of d x] assms(1) by (simp only: u_def abs_of_nonneg)
  show ?thesis
  proof (intro exI conjI)
    show "fixed d x = nat_str (u div 10 ^ d) @ ''.'' @ zero_pad d (nat_str (u mod 10 ^ d))" by (rule printed)
    show "length (zero_pad d (nat_str (u mod 10 ^ d))) = d" by (rule part)
    show "\<bar>of_nat (dec_val 0 (nat_str (u div 10 ^ d))) * 10 ^ d +
        of_nat (dec_val 0 (zero_pad d (nat_str (u mod 10 ^ d)))) - x * 10 ^ d\<bar> \<le> (1 / 2 :: rat)"
      unfolding vals sum by (rule near)
  qed
qed

end
