(* ===== verification/Audit_Trail.thy ===== *)
theory Audit_Trail
  imports Statistics_Thread
begin

text \<open>
  What the access log is worth as an audit trail. \<open>log_extends\<close> says that a log is an earlier
  one with whole lines added; every run of \<open>handle_ready\<close> extends the log by at least one line
  for every request it counts, the flushes of the statistics thread lose nothing, and the end
  of \<open>main\<close> in \<open>src/server_phase5.cpp\<close> (\<open>shut_down\<close>) writes out what is still buffered.
\<close>

section \<open>Logs that grow by lines\<close>

definition log_extends :: "bytes list \<Rightarrow> access_log \<Rightarrow> access_log \<Rightarrow> bool" where
  "log_extends ls a b \<longleftrightarrow> lg_file_open b = lg_file_open a \<and> lg_to_stdout b = lg_to_stdout a \<and>
     lg_lines b = lg_lines a + of_nat (length ls) \<and>
     (if lg_file_open a then lg_file b @ lg_buf b = lg_file a @ lg_buf a @ text_of ls else lg_file b = lg_file a) \<and>
     lg_stdout b = lg_stdout a @ (if lg_to_stdout a then text_of (map c_str ls) else [])"

lemma log_extends_refl: "log_extends [] a a"
  by (simp add: log_extends_def)

lemma log_extends_trans: "log_extends ls a b \<Longrightarrow> log_extends ms b c \<Longrightarrow> log_extends (ls @ ms) a c"
  by (auto simp: log_extends_def)

lemma flush_extends: "log_extends [] a (log_flush a)"
  by (simp add: log_extends_def log_flush_def flush_locked_file) (simp add: flush_locked_def)

lemma write_extends: "log_extends [log_line (fst (log_stamp now a)) e] a (log_write now e a)"
proof -
  obtain ts b where s: "log_stamp now a = (ts, b)" by fastforce
  with log_stamp_frame [of now a] have f: "lg_file_open b = lg_file_open a" "lg_to_stdout b = lg_to_stdout a"
    "lg_lines b = lg_lines a" "lg_buf b = lg_buf a" "lg_file b = lg_file a" "lg_stdout b = lg_stdout a" by simp_all
  have "\<not> lg_file_open b \<Longrightarrow> lg_file (log_append l b) = lg_file b" for l by (simp add: log_append_def Let_def)
  with f log_append_file [of b] show ?thesis by (simp add: log_extends_def log_write_def s)
qed

text \<open>A request writes one line.\<close>

lemma finish_log: "sv_log sv = lg \<Longrightarrow> \<exists>now e'. sv_log (finish e st n cs sv) = log_write now e' lg"
  by (cases "sv_clock sv (sv_ticks sv)") (auto simp: finish_def Let_def simp del: split_paired_Ex)

lemma serve_log:
  assumes "serve_one_request sv c req n = (keep, c', sv')"
  shows "\<exists>now e. sv_log sv' = log_write now e (sv_log sv)"
  using assms
proof (cases rule: serve_one_request_cases)
  case (denied resp ent)
  show ?thesis unfolding denied(4) by (rule finish_log) simp
next
  case (hit v ent)
  show ?thesis unfolding hit(5) by (rule finish_log) simp
next
  case (fetched ent)
  from fetched(3) show ?thesis
  proof (cases rule: forward_cases)
    case (failed ur sv1 resp)
    have "sv_log sv1 = sv_log sv" using failed(1) by (simp add: call_upstream_def Let_def, auto)
    then show ?thesis unfolding failed(5) by (intro finish_log) simp
  next
    case (forwarded ur sv1)
    have "sv_log sv1 = sv_log sv" using forwarded(1) by (simp add: call_upstream_def Let_def, auto)
    then show ?thesis unfolding forwarded(4) by (intro finish_log) simp
  qed
qed

section \<open>A run of a worker\<close>

text \<open>The lines a run adds are at least as many as the requests it counts.\<close>

definition audited_run :: "server \<times> conn \<Rightarrow> server \<times> conn \<Rightarrow> bool" where
  "audited_run x y \<longleftrightarrow> (\<exists>ls k. k \<le> length ls \<and> log_extends ls (sv_log (fst x)) (sv_log (fst y)) \<and>
     st_total_requests (sv_stats (fst y)) = st_total_requests (sv_stats (fst x)) + of_nat k)"

lemma auditedI: "log_extends ls (sv_log sv) (sv_log sv') \<Longrightarrow> k \<le> length ls \<Longrightarrow>
    st_total_requests (sv_stats sv') = st_total_requests (sv_stats sv) + of_nat k \<Longrightarrow> audited_run (sv, c) (sv', c')"
  by (auto simp: audited_run_def)

lemma audited_quiet: "sv_log sv' = sv_log sv \<Longrightarrow> st_total_requests (sv_stats sv') = st_total_requests (sv_stats sv) \<Longrightarrow>
    audited_run (sv, c) (sv', c')"
  using log_extends_refl by (auto intro!: auditedI [of "[]" _ _ 0])

interpretation audited: worker_relation audited_run
proof
  fix x y z assume xy: "audited_run x y" and yz: "audited_run y z"
  from xy obtain ls k where 1: "k \<le> length ls" "log_extends ls (sv_log (fst x)) (sv_log (fst y))"
    "st_total_requests (sv_stats (fst y)) = st_total_requests (sv_stats (fst x)) + of_nat k" by (auto simp: audited_run_def)
  from yz obtain ms m where 2: "m \<le> length ms" "log_extends ms (sv_log (fst y)) (sv_log (fst z))"
    "st_total_requests (sv_stats (fst z)) = st_total_requests (sv_stats (fst y)) + of_nat m" by (auto simp: audited_run_def)
  show "audited_run x z"
    unfolding audited_run_def using 1 2 log_extends_trans [OF 1(2) 2(2)]
    by (intro exI [of _ "ls @ ms"] exI [of _ "k + m"]) simp
next
  fix sv :: server and c :: conn and now e
  show "audited_run (sv, c) (sv\<lparr>sv_log := log_write now e (sv_log sv), sv_ticks := sv_ticks sv + 1\<rparr>, c)"
    by (rule auditedI [of "[log_line (fst (log_stamp now (sv_log sv))) e]" _ _ 0]) (simp_all add: write_extends)
next
  fix c c' :: conn and sv sv' :: server and need keep
  assume s: "serve_one_request sv c (parse_request (cn_inbuf c)) need = (keep, c', sv')"
  obtain now e where l: "sv_log sv' = log_write now e (sv_log sv)" using serve_log [OF s] by blast
  show "audited_run (sv, c) (sv', after_serving need c')"
    by (rule auditedI [of "[log_line (fst (log_stamp now (sv_log sv))) e]" _ _ 1]) (simp_all add: l write_extends serve_answered(1) [OF s])
next
  fix x show "audited_run x x" by (cases x) (simp add: audited_quiet)
qed (auto intro!: audited_quiet)

section \<open>The server\<close>

definition audited :: "server \<Rightarrow> server \<Rightarrow> bool" where
  "audited sv sv' \<longleftrightarrow> (\<exists>c c'. audited_run (sv, c) (sv', c'))"

lemma accept_conn_quiet:
  "sv_log (lp_server (accept_conn s ip added l)) = sv_log (lp_server l)"
  "st_total_requests (sv_stats (lp_server (accept_conn s ip added l))) = st_total_requests (sv_stats (lp_server l))"
  by (simp_all add: accept_conn_def Let_def)

lemma accept_all_quiet:
  "sv_log (lp_server (accept_all as l)) = sv_log (lp_server l) \<and>
   st_total_requests (sv_stats (lp_server (accept_all as l))) = st_total_requests (sv_stats (lp_server l))"
  by (induction as l rule: accept_all.induct) (simp_all add: accept_conn_quiet)

lemma step_audited: "loop_step l l' \<Longrightarrow> audited_run (lp_server l, c) (lp_server l', c)"
proof (induction rule: loop_step.induct)
  case (accept l as)
  show ?case using accept_all_quiet [of as l] by (intro audited_quiet) simp_all
next
  case (run i l c1 r)
  obtain st c2 sv' where r: "r = (st, c2, sv')" by (cases r)
  from audited.handle_ready_rel [OF run(3) [unfolded r]] show ?case
    by (simp add: audited_run_def r finish_run_def Let_def)
next
  case (flush l)
  show ?case by (rule auditedI [of "[]" _ _ 0]) (simp_all add: flush_extends)
qed (auto intro!: audited_quiet simp: report_ready_def dispatch_def stop_loop_def split: list.split)

lemma reachable_audited: "reachable sv l \<Longrightarrow> audited_run (sv, c) (lp_server l, c)"
proof (induction rule: reachable.induct)
  case start
  show ?case by (simp add: start_loop_def audited.refl)
next
  case (step l l')
  then show ?case using audited.trans step_audited by blast
qed

section \<open>The end of main\<close>

text \<open>After the loop: the workers and the statistics thread are joined (\<open>None\<close>: \<open>join\<close> still
  waits), then the log is flushed for the last time.\<close>

definition shut_down :: "loop \<Rightarrow> ticker \<Rightarrow> loop option" where
  "shut_down l t =
     (let l = stop_loop l in
      if tq_tasks (lp_tasks l) \<noteq> [] \<or> lp_busy l \<noteq> [] then None
      else if t \<noteq> Returned then None
      else Some (flush_log l))"

text \<open>C9: The access log survives the shutdown whole. Take any server that was started, let
  it run in any interleaving with its statistics thread, and let \<open>main\<close> end. Then what was
  appended to the log file is a sequence of whole lines, as many as the counter of lines says
  and at least one for every request counted, and nothing is left in the buffer; standard
  output got the same lines if it was on.\<close>

theorem audit_trail_survives:
  assumes "booted env sv" "housekept workers sv l t out" "shut_down l t = Some l'"
  shows "\<exists>ls k. k \<le> length ls \<and> st_total_requests (sv_stats (lp_server l')) = of_nat k \<and>
    lg_lines (sv_log (lp_server l')) = of_nat (length ls) \<and> lg_buf (sv_log (lp_server l')) = [] \<and>
    lg_file (sv_log (lp_server l')) = (if lg_file_open (sv_log sv) then text_of ls else []) \<and>
    lg_stdout (sv_log (lp_server l')) = (if lg_to_stdout (sv_log sv) then text_of (map c_str ls) else [])"
proof -
  obtain ls k where 1: "k \<le> length ls" "log_extends ls (sv_log sv) (sv_log (lp_server l))"
    "st_total_requests (sv_stats (lp_server l)) = st_total_requests (sv_stats sv) + of_nat k"
    using reachable_audited [OF housekept_reachable [OF assms(2)]] by (auto simp: audited_run_def)
  have "sv_log sv = snd (log_open (be_can_open env) (opt_log_path (sv_opt sv)) (opt_log_stdout (sv_opt sv))
      (opt_log_immediate (sv_opt sv)) new_access_log)"
    using assms(1) by (simp add: booted_def)
  then have new: "lg_file (sv_log sv) = []" "lg_buf (sv_log sv) = []" "lg_lines (sv_log sv) = 0" "lg_stdout (sv_log sv) = []"
    by (simp_all add: log_open_def new_access_log_def Let_def)
  have l': "lp_server l' = (lp_server l)\<lparr>sv_log := log_flush (sv_log (lp_server l))\<rparr>"
    using assms(3) by (auto simp: shut_down_def flush_log_def stop_loop_def Let_def split: if_splits)
  have "st_total_requests (sv_stats sv) = 0" using assms(1) by (simp add: booted_def new_stats_def)
  with 1 new log_extends_trans [OF 1(2) flush_extends] show ?thesis
    by (intro exI [of _ ls] exI [of _ k]) (auto simp: l' log_extends_def log_flush_def)
qed

text \<open>A server that is stopped at once.\<close>

definition demo_end :: loop where
  "demo_end = flush_log (stop_loop (stop_loop (start_loop demo_server)))"

theorem audit_trail_survives_witness:
  "\<exists>ls k. k \<le> length ls \<and> st_total_requests (sv_stats (lp_server demo_end)) = of_nat k \<and>
    lg_lines (sv_log (lp_server demo_end)) = of_nat (length ls) \<and> lg_buf (sv_log (lp_server demo_end)) = [] \<and>
    lg_file (sv_log (lp_server demo_end)) = (if lg_file_open (sv_log demo_server) then text_of ls else []) \<and>
    lg_stdout (sv_log (lp_server demo_end)) = (if lg_to_stdout (sv_log demo_server) then text_of (map c_str ls) else [])"
proof (rule audit_trail_survives [OF demo_booted])
  let ?l = "stop_loop (start_loop demo_server)"
  have "loop_step (start_loop demo_server) ?l" by (rule loop_step.stop) (simp_all add: start_loop_def)
  with housekept.start have "housekept 4 demo_server ?l At_top []" by (rule housekept.server)
  then show "housekept 4 demo_server ?l Returned ([] @ [])"
    by (rule housekept.thread) (simp add: stop_loop_def)
  show "shut_down ?l Returned = Some demo_end"
    by (simp add: shut_down_def demo_end_def stop_loop_def start_loop_def new_task_queue_def tq_stop_def)
qed

end
