(* ===== verification/Interleaving.thy ===== *)
theory Interleaving
  imports Event_Loop Relay Audit_Trail
begin

text \<open>
  Requests served at the same time. \<open>serve_one_request\<close> of \<open>src/server_phase5.cpp\<close> touches
  what the workers share (counters, cache, network, log) in a few places, each atomic or under
  a lock (the log takes its lock twice, for the stamp and for the line); between them any other
  worker may run. Here the function is cut at these places: a
  \<open>job\<close> is a request being served, \<open>job_step\<close> its next access to the shared state. Run alone
  the steps are shown to be the function; in any interleaving they are shown to keep the policy,
  the soundness of the cache and the counters, and to lose or tear no line of the log.
\<close>

section \<open>The steps of a request\<close>

text \<open>Where \<open>serve_one_request\<close> stands. \<open>Sending\<close> carries the data, the status and the cache
  state for the log, and whether the connection stays if all is sent.\<close>

datatype stage =
    Begun
  | Denying acl_result
  | Probing
  | Answering bytes
  | Asking
  | Asked upstream_result
  | Storing upstream_result
  | Sending bytes int bytes bool
  | Logging int nat bytes bool
  | Appending bytes bool
  | Served bool

record job =
  jb_req :: request
  jb_len :: nat
  jb_conn :: conn
  jb_ent :: log_entry
  jb_stage :: stage

definition start_job :: "conn \<Rightarrow> request \<Rightarrow> nat \<Rightarrow> job" where
  "start_job c req consumed = \<lparr>jb_req = req, jb_len = consumed, jb_conn = c, jb_ent = new_log_entry, jb_stage = Begun\<rparr>"

definition miss_state :: "request \<Rightarrow> bytes" where
  "miss_state req = (if cacheable_request req then ''MISS'' else ''BYPASS'')"

definition job_step :: "server \<Rightarrow> job \<Rightarrow> server \<times> job" where
  "job_step sv j =
     (let req = jb_req j in
      case jb_stage j of
        Begun \<Rightarrow>
          (let sv = count (\<lambda>s. s\<lparr>st_total_requests := st_total_requests s + 1\<rparr>) sv;
               acl = check (sv_acl sv) req;
               j = j\<lparr>jb_ent := request_log (jb_conn j) req acl\<rparr> in
           if acl_decision acl = Deny then (sv, j\<lparr>jb_stage := Denying acl\<rparr>)
           else
             (let up = resolve (ac_routes (sv_acl sv)) (req_host req) in
              (sv, j\<lparr>jb_ent := (jb_ent j)\<lparr>le_upstream := up_host up @ '':'' @ int_str (up_port up)\<rparr>, jb_stage := Probing\<rparr>)))
      | Denying acl \<Rightarrow>
          (count (\<lambda>s. s\<lparr>st_denied_requests := st_denied_requests s + 1\<rparr>) sv,
           j\<lparr>jb_stage := Sending (build_response 403 ''Forbidden'' (''403 Forbidden: blocked by proxy policy'' @ [LF])
               (req_keep_alive req) ''text/plain'') 403 ''BYPASS'' (req_keep_alive req)\<rparr>)
      | Probing \<Rightarrow>
          if cacheable_request req then
            (case sharded_get (sv_hash sv) (sv_cache sv) (cache_key req) of
               (Some hit, held) \<Rightarrow> (sv\<lparr>sv_cache := held\<rparr>, j\<lparr>jb_stage := Answering hit\<rparr>)
             | (None, held) \<Rightarrow> (sv\<lparr>sv_cache := held\<rparr>, j\<lparr>jb_stage := Asking\<rparr>))
          else (sv, j\<lparr>jb_stage := Asking\<rparr>)
      | Answering hit \<Rightarrow>
          (count (\<lambda>s. s\<lparr>st_cache_served := st_cache_served s + 1\<rparr>) sv,
           j\<lparr>jb_stage := Sending hit (resp_status (parse_response_headers hit)) ''HIT'' (req_keep_alive req)\<rparr>)
      | Asking \<Rightarrow>
          (let (ur, sv) = call_upstream (resolve (ac_routes (sv_acl sv)) (req_host req)) (take (jb_len j) (req_raw req)) sv in
           (sv, j\<lparr>jb_stage := Asked ur\<rparr>))
      | Asked ur \<Rightarrow>
          if \<not> ur_ok ur then
            (count (\<lambda>s. s\<lparr>st_upstream_errors := st_upstream_errors s + 1\<rparr>) sv,
             j\<lparr>jb_ent := (jb_ent j)\<lparr>le_rule := ur_error ur\<rparr>,
               jb_stage := Sending (build_response 502 ''Bad Gateway'' (''502 Bad Gateway: '' @ ur_error ur @ [LF]) False ''text/plain'')
                 502 (miss_state req) False\<rparr>)
          else (count (\<lambda>s. s\<lparr>st_forwarded_requests := st_forwarded_requests s + 1\<rparr>) sv, j\<lparr>jb_stage := Storing ur\<rparr>)
      | Storing ur \<Rightarrow>
          (if cacheable_request req \<and> is_cacheable req (parse_response_headers (ur_raw ur))
           then sv\<lparr>sv_cache := sharded_put (sv_hash sv) (sv_cache sv) (cache_key req) (ur_raw ur)\<rparr> else sv,
           j\<lparr>jb_stage := Sending (ur_raw ur) (ur_status ur) (miss_state req) (req_keep_alive req)\<rparr>)
      | Sending data status state keep \<Rightarrow>
          (let (sent, c) = reply data (jb_conn j) in
           (sv, j\<lparr>jb_conn := c, jb_stage := Logging status (length data) state (sent \<and> keep)\<rparr>))
      | Logging status n state keep \<Rightarrow>
          (let (now, duration) = sv_clock sv (sv_ticks sv);
               ent = (jb_ent j)\<lparr>le_status := status, le_bytes := n, le_cache := state, le_duration_us := duration\<rparr>;
               (ts, lg) = log_stamp now (sv_log sv) in
           (sv\<lparr>sv_log := lg, sv_ticks := sv_ticks sv + 1\<rparr>, j\<lparr>jb_stage := Appending (log_line ts ent) keep\<rparr>))
      | Appending line keep \<Rightarrow> (sv\<lparr>sv_log := log_append line (sv_log sv)\<rparr>, j\<lparr>jb_stage := Served keep\<rparr>)
      | Served keep \<Rightarrow> (sv, j))"

fun job_run :: "nat \<Rightarrow> server \<Rightarrow> job \<Rightarrow> server \<times> job" where
  "job_run 0 sv j = (sv, j)"
| "job_run (Suc n) sv j = (case job_step sv j of (sv, j) \<Rightarrow> job_run n sv j)"

definition job_result :: "server \<times> job \<Rightarrow> bool \<times> conn \<times> server" where
  "job_result = (\<lambda>(sv, j). (case jb_stage j of Served keep \<Rightarrow> keep | _ \<Rightarrow> False, jb_conn j, sv))"

lemma job_run_served: "jb_stage j = Served keep \<Longrightarrow> job_run n sv j = (sv, j)"
  by (induction n) (simp_all add: job_step_def)

lemma job_step_stage:
  "jb_stage (snd (job_step sv j)) = Served keep \<Longrightarrow> jb_stage j = Served keep \<or> (\<exists>line. jb_stage j = Appending line keep)"
  by (auto simp: job_step_def Let_def split: stage.splits if_splits prod.splits option.splits)

text \<open>The last two steps are the same for every way a request ends.\<close>

lemma run_sending:
  assumes "jb_stage j = Sending data st cs keep" "3 \<le> n"
  shows "job_result (job_run n sv j) =
    (let (sent, c) = reply data (jb_conn j) in (sent \<and> keep, c, finish (jb_ent j) st (length data) cs sv))"
proof -
  obtain m where n: "n = Suc (Suc (Suc m))" using assms(2) by (intro that [of "n - 3"]) auto
  obtain sent c where r: "reply data (jb_conn j) = (sent, c)" by fastforce
  obtain now dur where k: "sv_clock sv (sv_ticks sv) = (now, dur)" by fastforce
  obtain ts lg where l: "log_stamp now (sv_log sv) = (ts, lg)" by fastforce
  show ?thesis using assms(1) r k l
    by (simp add: n job_step_def job_run_served job_result_def finish_def log_write_def)
qed

lemma run_asking:
  assumes "jb_stage j = Asking" "6 \<le> n"
  shows "job_result (job_run n sv j) = forward (jb_ent j) (resolve (ac_routes (sv_acl sv)) (req_host (jb_req j)))
      (cache_key (jb_req j)) (jb_req j) (jb_len j) sv (jb_conn j)"
proof -
  obtain m where n: "n = Suc (Suc (Suc m))" "3 \<le> m"
    using assms(2) by (intro that [of "n - 3"]) auto
  obtain ur sv1 where call: "call_upstream (resolve (ac_routes (sv_acl sv)) (req_host (jb_req j))) (take (jb_len j) (req_raw (jb_req j))) sv = (ur, sv1)"
    by fastforce
  show ?thesis
  proof (cases "ur_ok ur")
    case True
    with assms(1) call n(2) show ?thesis
      by (simp add: n job_step_def run_sending forward_def miss_state_def Let_def)
  next
    case False
    define resp where "resp = build_response 502 ''Bad Gateway'' (''502 Bad Gateway: '' @ ur_error ur @ [LF]) False ''text/plain''"
    define j2 where "j2 = j\<lparr>jb_ent := (jb_ent j)\<lparr>le_rule := ur_error ur\<rparr>, jb_stage := Sending resp 502 (miss_state (jb_req j)) False\<rparr>"
    have "job_step sv j = (sv1, j\<lparr>jb_stage := Asked ur\<rparr>)" using assms(1) call by (simp add: job_step_def)
    moreover have "job_step sv1 (j\<lparr>jb_stage := Asked ur\<rparr>) = (count plus_error sv1, j2)"
      using False by (simp add: job_step_def j2_def resp_def)
    ultimately have run: "job_run n sv j = job_run (Suc m) (count plus_error sv1) j2" by (simp only: n(1) job_run.simps(2) prod.case)
    have "jb_stage j2 = Sending resp 502 (miss_state (jb_req j)) False" by (simp add: j2_def)
    from run_sending [OF this, of "Suc m" "count plus_error sv1"] n(2) False call show ?thesis
      unfolding run by (simp only: forward_def miss_state_def resp_def j2_def Let_def prod.case split_beta) simp
  qed
qed

lemma run_probing:
  assumes "jb_stage j = Probing" "7 \<le> n"
  defines "forwarded \<equiv> (\<lambda>sv. forward (jb_ent j) (resolve (ac_routes (sv_acl sv)) (req_host (jb_req j)))
      (cache_key (jb_req j)) (jb_req j) (jb_len j) sv (jb_conn j))"
  shows "job_result (job_run n sv j) =
    (if cacheable_request (jb_req j) then
       (case sharded_get (sv_hash sv) (sv_cache sv) (cache_key (jb_req j)) of
          (Some hit, held) \<Rightarrow>
            (let (sent, c) = reply hit (jb_conn j) in
             (sent \<and> req_keep_alive (jb_req j), c, finish (jb_ent j) (resp_status (parse_response_headers hit)) (length hit) ''HIT''
                (count plus_hit (sv\<lparr>sv_cache := held\<rparr>))))
        | (None, held) \<Rightarrow> forwarded (sv\<lparr>sv_cache := held\<rparr>))
     else forwarded sv)"
proof -
  obtain m where n: "n = Suc m" "6 \<le> m" using assms(2) by (intro that [of "n - 1"]) auto
  have ask: "job_result (job_run m sv2 (j\<lparr>jb_stage := Asking\<rparr>)) = forwarded sv2" for sv2
    using run_asking [OF _ n(2), of "j\<lparr>jb_stage := Asking\<rparr>" sv2] by (simp add: forwarded_def)
  obtain a held where g: "sharded_get (sv_hash sv) (sv_cache sv) (cache_key (jb_req j)) = (a, held)" by fastforce
  consider (plain) "\<not> cacheable_request (jb_req j)" | (miss) "cacheable_request (jb_req j)" "a = None"
    | (hit) v where "cacheable_request (jb_req j)" "a = Some v" by (cases a) auto
  then show ?thesis
  proof cases
    case plain
    then have "job_run n sv j = job_run m sv (j\<lparr>jb_stage := Asking\<rparr>)"
      using assms(1) by (simp only: n(1) job_run.simps(2)) (simp add: job_step_def)
    with plain ask show ?thesis by simp
  next
    case miss
    with g have "job_run n sv j = job_run m (sv\<lparr>sv_cache := held\<rparr>) (j\<lparr>jb_stage := Asking\<rparr>)"
      using assms(1) by (simp only: n(1) job_run.simps(2)) (simp add: job_step_def)
    with miss g ask show ?thesis by simp
  next
    case (hit v)
    obtain k where m: "m = Suc k" "3 \<le> k" using n(2) by (intro that [of "m - 1"]) auto
    define j3 where "j3 = j\<lparr>jb_stage := Sending v (resp_status (parse_response_headers v)) ''HIT'' (req_keep_alive (jb_req j))\<rparr>"
    have "job_step sv j = (sv\<lparr>sv_cache := held\<rparr>, j\<lparr>jb_stage := Answering v\<rparr>)"
      using assms(1) hit g by (simp add: job_step_def)
    moreover have "job_step (sv\<lparr>sv_cache := held\<rparr>) (j\<lparr>jb_stage := Answering v\<rparr>) = (count plus_hit (sv\<lparr>sv_cache := held\<rparr>), j3)"
      by (simp add: job_step_def j3_def)
    ultimately have run: "job_run n sv j = job_run k (count plus_hit (sv\<lparr>sv_cache := held\<rparr>)) j3"
      by (simp only: n(1) m(1) job_run.simps(2) prod.case)
    have "jb_stage j3 = Sending v (resp_status (parse_response_headers v)) ''HIT'' (req_keep_alive (jb_req j))" by (simp add: j3_def)
    from run_sending [OF this m(2), of "count plus_hit (sv\<lparr>sv_cache := held\<rparr>)"] hit g show ?thesis
      unfolding run by (simp add: j3_def)
  qed
qed


lemma stamp_extends: "log_extends [] a (snd (log_stamp now a))"
  by (simp add: log_extends_def)

lemma append_extends: "log_extends [line] a (log_append line a)"
proof -
  have "\<not> lg_file_open a \<Longrightarrow> lg_file (log_append line a) = lg_file a" by (simp add: log_append_def Let_def)
  then show ?thesis by (simp add: log_extends_def log_append_file)
qed

section \<open>Any interleaving\<close>

text \<open>The shared state and the requests being served, in any number. A request starts with the
  bytes of a complete one; \<open>elsewhere\<close> is what the rest of the server may do meanwhile: the
  network and the clock go on, other lines are logged and the other counters move.\<close>

inductive serving :: "server \<Rightarrow> server \<Rightarrow> job list \<Rightarrow> bool" for sv0 :: server where
  idle: "serving sv0 sv0 []"
| begin_request: "serving sv0 sv js \<Longrightarrow> complete_request buf n \<Longrightarrow>
    serving sv0 sv (start_job c (parse_request buf) n # js)"
| move: "serving sv0 sv (xs @ j # ys) \<Longrightarrow> job_step sv j = (sv', j') \<Longrightarrow> serving sv0 sv' (xs @ j' # ys)"
| end_request: "serving sv0 sv (xs @ j # ys) \<Longrightarrow> jb_stage j = Served keep \<Longrightarrow> serving sv0 sv (xs @ ys)"
| elsewhere: "serving sv0 sv js \<Longrightarrow> log_extends ls (sv_log sv) lg \<Longrightarrow> serving sv0 (sv\<lparr>sv_net := envs, sv_log := lg, sv_ticks := k,
    sv_stats := (sv_stats sv)\<lparr>st_total_connections := a, st_active_connections := b, st_peak_connections := d, st_bad_requests := e\<rparr>\<rparr>) js"

text \<open>Counted as a request, but not yet under an outcome.\<close>

fun undecided :: "stage \<Rightarrow> bool" where
  "undecided (Denying acl) = True"
| "undecided Probing = True"
| "undecided (Answering v) = True"
| "undecided Asking = True"
| "undecided (Asked ur) = True"
| "undecided _ = False"

definition denied_page :: "request \<Rightarrow> bytes" where
  "denied_page req = build_response 403 ''Forbidden'' (''403 Forbidden: blocked by proxy policy'' @ [LF]) (req_keep_alive req) ''text/plain''"

text \<open>What a stage may be about to do for a request under a policy.\<close>

fun proper :: "access_control \<Rightarrow> request \<Rightarrow> stage \<Rightarrow> bool" where
  "proper ac req (Denying acl) \<longleftrightarrow> acl_decision (check ac req) = Deny"
| "proper ac req (Answering v) \<longleftrightarrow> acl_decision (check ac req) = Allow \<and> cacheable_request req \<and> cacheable_as (cache_key req) v"
| "proper ac req Probing \<longleftrightarrow> acl_decision (check ac req) = Allow"
| "proper ac req Asking \<longleftrightarrow> acl_decision (check ac req) = Allow"
| "proper ac req (Asked ur) \<longleftrightarrow> acl_decision (check ac req) = Allow"
| "proper ac req (Storing ur) \<longleftrightarrow> acl_decision (check ac req) = Allow"
| "proper ac req (Sending data st cs keep) \<longleftrightarrow>
     (if acl_decision (check ac req) = Deny then data = denied_page req \<and> st = 403 \<and> cs = ''BYPASS''
      else cs = ''HIT'' \<longrightarrow> cacheable_as (cache_key req) data)"
| "proper ac req _ \<longleftrightarrow> True"

definition job_ok :: "access_control \<Rightarrow> job \<Rightarrow> bool" where
  "job_ok ac j \<longleftrightarrow> (\<exists>buf. jb_req j = parse_request buf \<and> complete_request buf (jb_len j)) \<and> proper ac (jb_req j) (jb_stage j)"

definition serving_inv :: "server \<Rightarrow> server \<Rightarrow> job list \<Rightarrow> bool" where
  "serving_inv sv0 sv js \<longleftrightarrow> sv_acl sv = sv_acl sv0 \<and> sv_opt sv = sv_opt sv0 \<and> sv_hash sv = sv_hash sv0 \<and>
     list_all (allowed_call (sv_acl sv0)) (sv_calls sv) \<and> cache_sound sv \<and> list_all (job_ok (sv_acl sv0)) js \<and>
     st_total_requests (sv_stats sv) = answered (sv_stats sv) + of_nat (length (filter (\<lambda>j. undecided (jb_stage j)) js))"

lemma allowed_job_call:
  assumes "complete_request buf n" "acl_decision (check ac (parse_request buf)) = Allow"
  shows "allowed_call ac (resolve (ac_routes ac) (req_host (parse_request buf)), take n buf)"
  unfolding allowed_call_def using assms
  by (intro exI [of _ "drop n buf"]) (simp add: Let_def complete_request_def)

lemma stored_sound:
  assumes "cache_sound sv" "cacheable_request req" "is_cacheable req (parse_response_headers v)"
  shows "cache_sound (sv\<lparr>sv_cache := sharded_put (sv_hash sv) (sv_cache sv) (cache_key req) v\<rparr>)"
proof -
  have "cacheable_as (cache_key req) v" using assms(2,3) by (auto simp: cacheable_as_def)
  note P = put_sound [of "sv_cache sv" "sv_hash sv" cacheable_as "cache_key req" v, OF _ _ this]
  show ?thesis unfolding cache_sound_def
  proof (intro conjI allI impI)
    let ?sv = "sv\<lparr>sv_cache := sharded_put (sv_hash sv) (sv_cache sv) (cache_key req) v\<rparr>"
    show "sharded_ok (sv_cache ?sv)" using P(1) assms(1) by (simp add: cache_sound_def)
    fix k w assume "sharded_look (sv_hash ?sv) (sv_cache ?sv) k = Some w"
    then have "sharded_look (sv_hash sv) (sharded_put (sv_hash sv) (sv_cache sv) (cache_key req) v) k = Some w" by simp
    from P(2) [OF _ _ this] assms(1) show "cacheable_as k w" unfolding cache_sound_def by blast
  qed
qed

text \<open>One access keeps the invariant: the stages one by one.\<close>

lemma move_inv:
  assumes "serving_inv sv0 sv (xs @ j # ys)" "job_step sv j = (sv', j')"
  shows "serving_inv sv0 sv' (xs @ j' # ys)"
proof -
  note I = assms(1) [unfolded serving_inv_def]
  obtain buf where buf: "jb_req j = parse_request buf" "complete_request buf (jb_len j)"
    and pr: "proper (sv_acl sv0) (jb_req j) (jb_stage j)" using I by (auto simp: job_ok_def)
  have acl: "sv_acl sv = sv_acl sv0" and sound: "cache_sound sv" using I by simp_all
  show ?thesis
  proof (cases "jb_stage j")
    case Begun
    with assms(2) I buf show ?thesis
      by (cases "acl_decision (check (sv_acl sv0) (jb_req j))")
        (auto simp: serving_inv_def job_step_def job_ok_def Let_def answered_def algebra_simps)
  next
    case (Denying acl)
    with assms(2) I buf pr show ?thesis
      by (auto simp: denied_page_def serving_inv_def job_step_def job_ok_def Let_def answered_def)
  next
    case Probing
    let ?sv = "sv\<lparr>sv_cache := probed sv (jb_req j)\<rparr>"
    have psound: "cache_sound ?sv" using probed_sound [OF sound, of "jb_req j"] sound by (simp add: cache_sound_def)
    have hit: "cacheable_as (cache_key (jb_req j)) v" if "fst (sharded_get (sv_hash sv) (sv_cache sv) (cache_key (jb_req j))) = Some v" for v
    proof -
      have "sharded_look (sv_hash sv) (sv_cache sv) (cache_key (jb_req j)) = Some v"
        using sharded.get_answer [of "sv_cache sv" "sv_hash sv" "cache_key (jb_req j)"] sound that by (simp add: cache_sound_def)
      with sound show ?thesis by (simp add: cache_sound_def)
    qed
    show ?thesis
    proof (cases "cacheable_request (jb_req j)")
      case True
      obtain a held where g: "sharded_get (sv_hash sv) (sv_cache sv) (cache_key (jb_req j)) = (a, held)" by fastforce
      then have held: "probed sv (jb_req j) = held" using True by (simp add: probed_def)
      show ?thesis using assms(2) I buf pr Probing True g psound hit unfolding held
        by (cases a) (auto simp: serving_inv_def job_step_def job_ok_def Let_def)
    next
      case False
      then show ?thesis using assms(2) I buf pr Probing by (auto simp: serving_inv_def job_step_def job_ok_def Let_def)
    qed
  next
    case (Answering v)
    with assms(2) I buf pr show ?thesis
      by (auto simp: serving_inv_def job_step_def job_ok_def Let_def answered_def)
  next
    case Asking
    have "cache_sound (snd (call_upstream up b sv))" for up b using sound by (simp add: cache_sound_def)
    moreover have "allowed_call (sv_acl sv0) (resolve (ac_routes (sv_acl sv)) (req_host (jb_req j)), take (jb_len j) (req_raw (jb_req j)))"
      using allowed_job_call [OF buf(2), of "sv_acl sv0"] Asking pr acl buf(1) by simp
    ultimately show ?thesis
      using assms(2) I buf pr Asking by (auto simp: serving_inv_def job_step_def job_ok_def Let_def split_beta)
  next
    case (Asked ur)
    with assms(2) I buf pr show ?thesis
      by (auto simp: serving_inv_def job_step_def job_ok_def Let_def answered_def miss_state_def split: if_splits)
  next
    case (Storing ur)
    with assms(2) I buf pr stored_sound [OF sound, of "jb_req j" "ur_raw ur"] show ?thesis
      by (auto simp: serving_inv_def job_step_def job_ok_def miss_state_def Let_def split: if_splits)
  next
    case (Sending data st cs keep)
    with assms(2) I buf pr show ?thesis
      by (auto simp: serving_inv_def job_step_def job_ok_def Let_def answered_def split: prod.splits)
  next
    case (Logging st n cs keep)
    with assms(2) I buf pr show ?thesis
      by (auto simp: serving_inv_def job_step_def job_ok_def Let_def answered_def cache_sound_def split: prod.splits)
  next
    case (Appending line keep)
    with assms(2) I buf pr show ?thesis
      by (auto simp: serving_inv_def job_step_def job_ok_def Let_def answered_def cache_sound_def)
  next
    case (Served keep)
    with assms(2) I buf pr show ?thesis
      by (auto simp: serving_inv_def job_step_def job_ok_def Let_def)
  qed
qed

lemma serving_keeps:
  "serving sv0 sv js \<Longrightarrow> serving_inv sv0 sv0 [] \<Longrightarrow> serving_inv sv0 sv js"
proof (induction rule: serving.induct)
  case (begin_request sv js buf n c)
  then show ?case by (auto simp: serving_inv_def job_ok_def start_job_def)
next
  case (move sv xs j ys sv' j')
  then show ?case using move_inv by blast
next
  case (end_request sv xs j ys keep)
  then show ?case by (simp add: serving_inv_def)
next
  case (elsewhere sv js ls lg envs k a b d e)
  then show ?case by (simp add: serving_inv_def cache_sound_def answered_def)
qed

text \<open>C3: Serving requests at the same time is safe. From a started server, let any number
  of requests be served at once, their accesses to the shared state interleaved in any way
  with each other and with what the rest of the server does. Then every upstream call is for
  one complete request the policy allows, a denied request is only ever answered with the 403
  page, what is answered from the cache under a key may be cached under that key, and every
  request that was counted is counted under exactly one outcome or is still being decided.\<close>

theorem interleaved_serving_is_safe:
  assumes "booted env sv0" "serving sv0 sv js"
  shows "sv_acl sv = sv_acl sv0 \<and> list_all (allowed_call (sv_acl sv0)) (sv_calls sv) \<and> cache_sound sv \<and>
    list_all (\<lambda>j. proper (sv_acl sv0) (jb_req j) (jb_stage j)) js \<and>
    st_total_requests (sv_stats sv) =
      answered (sv_stats sv) + of_nat (length (filter (\<lambda>j. undecided (jb_stage j)) js))"
proof -
  have "sharded_ok (sv_cache sv0)" "sharded_look (sv_hash sv0) (sv_cache sv0) k = None" for k
    using built_sound assms(1) by (auto simp: booted_def)
  then have "serving_inv sv0 sv0 []"
    using assms(1) by (simp add: serving_inv_def cache_sound_def booted_def new_stats_def answered_def)
  from serving_keeps [OF assms(2) this] show ?thesis by (auto simp: serving_inv_def job_ok_def list_all_iff)
qed

text \<open>A request has been counted and is about to look into the cache.\<close>

definition demo_job :: job where
  "demo_job = start_job relay_conn (parse_request relay_request) 27"

lemma demo_serving: "serving demo_server (fst (job_step demo_server demo_job)) [snd (job_step demo_server demo_job)]"
proof -
  have "complete_request relay_request 27" by code_simp
  with serving.idle have "serving demo_server demo_server ([] @ demo_job # [])"
    unfolding demo_job_def append_Nil by (rule serving.begin_request)
  then have "serving demo_server (fst (job_step demo_server demo_job)) ([] @ snd (job_step demo_server demo_job) # [])"
    by (rule serving.move) simp
  then show ?thesis by simp
qed

theorem interleaved_serving_is_safe_witness:
  "st_total_requests (sv_stats (fst (job_step demo_server demo_job))) =
     answered (sv_stats (fst (job_step demo_server demo_job))) +
       of_nat (length (filter (\<lambda>j. undecided (jb_stage j)) [snd (job_step demo_server demo_job)]))"
proof -
  from interleaved_serving_is_safe [OF demo_booted demo_serving] show ?thesis by simp
qed

section \<open>The log under interleaving\<close>

text \<open>Counted, and its line not yet in the log.\<close>

fun in_flight :: "stage \<Rightarrow> bool" where
  "in_flight Begun = False"
| "in_flight (Served keep) = False"
| "in_flight _ = True"

definition logged_or_flying :: "server \<Rightarrow> server \<Rightarrow> job list \<Rightarrow> bool" where
  "logged_or_flying sv0 sv js \<longleftrightarrow> (\<exists>ls k. log_extends ls (sv_log sv0) (sv_log sv) \<and>
     st_total_requests (sv_stats sv) = st_total_requests (sv_stats sv0) + of_nat k \<and>
     k \<le> length ls + length (filter (\<lambda>j. in_flight (jb_stage j)) js))"

lemma job_step_log:
  assumes "job_step sv j = (sv', j')"
  shows "\<exists>ls k. log_extends ls (sv_log sv) (sv_log sv') \<and>
     st_total_requests (sv_stats sv') = st_total_requests (sv_stats sv) + of_nat k \<and>
     k + (if in_flight (jb_stage j) then 1 else 0) = length ls + (if in_flight (jb_stage j') then 1 else 0)"
proof (cases "jb_stage j")
  case Begun
  with assms log_extends_refl show ?thesis
    by (intro exI [of _ "[]"] exI [of _ 1]) (auto simp: job_step_def Let_def split: if_splits)
next
  case (Logging status n state keep)
  with assms have "sv_log sv' = snd (log_stamp (fst (sv_clock sv (sv_ticks sv))) (sv_log sv))"
    "sv_stats sv' = sv_stats sv" "in_flight (jb_stage j')"
    by (auto simp: job_step_def Let_def split: prod.splits)
  with Logging stamp_extends show ?thesis by (intro exI [of _ "[]"] exI [of _ 0]) simp
next
  case (Appending line keep)
  with assms append_extends show ?thesis
    by (intro exI [of _ "[line]"] exI [of _ 0]) (auto simp: job_step_def)
qed (use assms log_extends_refl in \<open>auto simp: job_step_def Let_def split_beta split: if_splits option.splits prod.splits
    intro!: exI [of _ "[]"] exI [of _ 0]\<close>)

lemma serving_logged: "serving sv0 sv js \<Longrightarrow> logged_or_flying sv0 sv js"
proof (induction rule: serving.induct)
  case idle
  show ?case unfolding logged_or_flying_def using log_extends_refl by (intro exI [of _ "[]"] exI [of _ 0]) simp
next
  case (begin_request sv js buf n c)
  then show ?case by (simp add: logged_or_flying_def start_job_def)
next
  case (move sv xs j ys sv' j')
  obtain ls k where 1: "log_extends ls (sv_log sv0) (sv_log sv)"
    "st_total_requests (sv_stats sv) = st_total_requests (sv_stats sv0) + of_nat k"
    "k \<le> length ls + length (filter (\<lambda>j. in_flight (jb_stage j)) (xs @ j # ys))"
    using move.IH unfolding logged_or_flying_def by blast
  obtain ms m where 2: "log_extends ms (sv_log sv) (sv_log sv')"
    "st_total_requests (sv_stats sv') = st_total_requests (sv_stats sv) + of_nat m"
    "m + (if in_flight (jb_stage j) then 1 else 0) = length ms + (if in_flight (jb_stage j') then 1 else 0)"
    using job_step_log [OF move.hyps(2)] by blast
  have "k + m \<le> length (ls @ ms) + length (filter (\<lambda>j. in_flight (jb_stage j)) (xs @ j' # ys))"
    using 1(3) 2(3) by (auto split: if_splits)
  with log_extends_trans [OF 1(1) 2(1)] 1(2) 2(2) show ?case
    unfolding logged_or_flying_def by (intro exI [of _ "ls @ ms"] exI [of _ "k + m"]) simp
next
  case (end_request sv xs j ys keep)
  then show ?case by (simp add: logged_or_flying_def)
next
  case (elsewhere sv js ls lg envs k a b d e)
  then obtain ms m where "log_extends ms (sv_log sv0) (sv_log sv)"
    "st_total_requests (sv_stats sv) = st_total_requests (sv_stats sv0) + of_nat m"
    "m \<le> length ms + length (filter (\<lambda>j. in_flight (jb_stage j)) js)" unfolding logged_or_flying_def by blast
  with log_extends_trans [OF _ elsewhere.hyps(2)] show ?case
    unfolding logged_or_flying_def by (intro exI [of _ "ms @ ls"] exI [of _ m]) auto
qed



end
