(* ===== verification/Replies.thy ===== *)
theory Replies
  imports Event_Loop
begin

text \<open>
  What a client sees of a run of \<open>handle_ready\<close> of \<open>src/server_phase5.cpp\<close>: replies one after
  the other. A reply that could not be sent whole is the last thing on the connection, so a
  client never takes the beginning of one reply and the rest of another for one response.
\<close>

text \<open>What the server may send: a page of its own, what it fetched, or what it cached.\<close>

definition server_reply :: "bytes \<Rightarrow> bool" where
  "server_reply r \<longleftrightarrow> own_page r \<or>
     (\<exists>opt msg env request. ur_ok (fst (fetch_upstream opt msg env request)) \<and> r = ur_raw (fst (fetch_upstream opt msg env request))) \<or>
     (\<exists>k. cacheable_as k r)"

lemma own_page_reply [intro]: "own_page r \<Longrightarrow> server_reply r"
  by (simp add: server_reply_def)

lemma serve_sends:
  assumes "serve_one_request sv c req n = (keep, c', sv')" "cache_sound sv"
  shows "\<exists>data. c' = snd (reply data c) \<and> (keep \<longrightarrow> fst (reply data c)) \<and> server_reply data"
  using assms(1)
proof (cases rule: serve_one_request_cases)
  case (denied resp ent)
  then show ?thesis by (intro exI [of _ resp]) auto
next
  case (hit v ent)
  have "sharded_look (sv_hash sv) (sv_cache sv) (cache_key req) = Some v"
    using sharded.get_answer [of "sv_cache sv" "sv_hash sv" "cache_key req"] assms(2) hit(3) by (simp add: cache_sound_def)
  then have "cacheable_as (cache_key req) v" using assms(2) by (simp add: cache_sound_def)
  then have "server_reply v" by (auto simp: server_reply_def)
  with hit show ?thesis by (intro exI [of _ v]) auto
next
  case (fetched ent)
  from fetched(3) show ?thesis
  proof (cases rule: forward_cases)
    case (failed ur sv1 resp)
    then show ?thesis by (intro exI [of _ resp]) auto
  next
    case (forwarded ur sv1)
    obtain opt msg env b where "ur = fst (fetch_upstream opt msg env b)"
      using forwarded(1) by (simp add: call_upstream_def Let_def) blast
    then have "server_reply (ur_raw ur)" using forwarded(2) unfolding server_reply_def by blast
    with forwarded show ?thesis by (intro exI [of _ "ur_raw ur"]) auto
  qed
qed

text \<open>The wire gained whole replies and then at most the beginning of one more; on a connection
  that stays open nothing more, and one reply for each request served.\<close>

definition replied_whole :: "conn_state \<Rightarrow> conn \<Rightarrow> conn \<Rightarrow> bool" where
  "replied_whole st c c' \<longleftrightarrow> (\<exists>rs torn. sk_wire (cn_sock c') = sk_wire (cn_sock c) @ concat rs @ torn \<and>
     list_all server_reply rs \<and> (\<exists>r. server_reply r \<and> prefix torn r) \<and>
     (st = Armed \<longrightarrow> torn = [] \<and> cn_requests_served c' = cn_requests_served c + of_nat (length rs)))"

lemma some_reply: "\<exists>r. server_reply r \<and> prefix [] r"
  using own_page by (blast intro: Nil_prefix)

lemma replied_none: "sk_wire (cn_sock c') = sk_wire (cn_sock c) \<Longrightarrow> cn_requests_served c' = cn_requests_served c \<Longrightarrow> replied_whole st c c'"
  unfolding replied_whole_def using some_reply by (intro exI [of _ "[]"]) simp

lemma replied_last:
  assumes "sk_wire (cn_sock c') = sk_wire (cn_sock (snd (reply data c)))" "server_reply data"
  shows "replied_whole Closed c c'"
proof -
  obtain m where "sk_wire (cn_sock c') = sk_wire (cn_sock c) @ take m data" using assms(1) by (metis reply_wire)
  then show ?thesis
    unfolding replied_whole_def using assms(2) take_is_prefix by (intro exI [of _ "[]"] exI [of _ "take m data"]) auto
qed

lemma replied_trans:
  assumes "replied_whole Armed c c1" "replied_whole st c1 c'"
  shows "replied_whole st c c'"
proof -
  obtain rs where 1: "sk_wire (cn_sock c1) = sk_wire (cn_sock c) @ concat rs" "list_all server_reply rs"
    "cn_requests_served c1 = cn_requests_served c + of_nat (length rs)" using assms(1) by (auto simp: replied_whole_def)
  obtain ss torn where 2: "sk_wire (cn_sock c') = sk_wire (cn_sock c1) @ concat ss @ torn"
    "list_all server_reply ss" "\<exists>r. server_reply r \<and> prefix torn r"
    "st = Armed \<Longrightarrow> torn = [] \<and> cn_requests_served c' = cn_requests_served c1 + of_nat (length ss)"
    using assms(2) by (auto simp: replied_whole_def)
  show ?thesis unfolding replied_whole_def
    using 1 2 by (intro exI [of _ "rs @ ss"] exI [of _ torn]) simp
qed

lemma replied_request:
  assumes "serve_one_request sv c req n = (True, c1, sv1)" "cache_sound sv"
  shows "replied_whole Armed c (after_serving need c1)"
proof -
  obtain data where d: "c1 = snd (reply data c)" "fst (reply data c)" "server_reply data" using serve_sends [OF assms] by blast
  obtain m where m: "sk_wire (cn_sock c1) = sk_wire (cn_sock c) @ take m data" "m = length data"
    using d by (metis reply_wire)
  then show ?thesis
    unfolding replied_whole_def using d some_reply by (intro exI [of _ "[data]"] exI [of _ "[]"]) simp
qed

lemma replied_weak: "replied_whole Armed c c' \<Longrightarrow> replied_whole st c c'"
  unfolding replied_whole_def by blast

lemma serve_buffered_whole: "serve_buffered sv c b = Some (st, b', c', sv') \<Longrightarrow> cache_sound sv \<longrightarrow> replied_whole st c c'"
proof (induction rule: serve_buffered_ind)
  case (idle sv c b)
  show ?case by (simp add: replied_none)
next
  case (long sv c b data)
  then show ?case by (auto intro: replied_last)
next
  case (bad sv c b data now e)
  then show ?case by (auto intro: replied_last)
next
  case (stop sv c b need c1 sv1)
  show ?case
  proof
    assume "cache_sound sv"
    from serve_sends [OF stop(2) this] obtain data where "c1 = snd (reply data c)" "server_reply data" by blast
    then show "replied_whole Closed c (after_serving need c1)" by (intro replied_last [of _ data]) simp_all
  qed
next
  case (go sv c b need c1 sv1 st b' c' sv')
  then show ?case using replied_trans [OF replied_request [OF go(2)]] serve_sound [OF go(2)] by blast
qed

lemma drained_none: "drain opt c = (d, c') \<Longrightarrow> replied_whole st c c'"
  using drain_effect [of opt c d c'] by (intro replied_none) simp_all


text \<open>A client that sends a request without a host, to a server just started.\<close>

definition hostless :: conn where
  "hostless = new_conn \<lparr>sk_rx = [Recv (''GET / HTTP/1.1'' @ crlf @ crlf)], sk_tx = [Sent 10, Sent 1000], sk_poll = [],
     sk_wire = [], sk_errno = EAGAIN\<rparr> ''10.0.0.1''"


end
