(* ===== verification/Wakeups.thy ===== *)
theory Wakeups
  imports Prelude
begin

text \<open>
  The sleeping and waking of pool workers: the mutex and the condition variable of the task
  queues, step by step. The predicate of \<open>cv.wait\<close> is tested while the mutex is held, and
  only giving the mutex up and going to sleep is atomic; \<open>notify\<close> is sent after the mutex
  was released. In \<open>src/server_phase5.cpp\<close> and \<open>src/origin_server.cpp\<close> \<open>stop\<close> takes the
  mutex to set the flag (\<open>locked\<close>), in \<open>src/server_phase3.cpp\<close> and
  \<open>src/server_phase4.cpp\<close> it does not. Workers are counted by what they are doing. The
  invariant shows that with the lock no wakeup is ever lost and \<open>join\<close> returns; without it a
  worker can sleep through the shutdown.
\<close>

section \<open>The machine\<close>

text \<open>\<open>wk_holder\<close>: a worker holds the mutex, has found the predicate false and is about to
  sleep. \<open>wk_due\<close> and \<open>wk_due_all\<close>: notifications decided on but not sent yet.\<close>

record wakeups =
  wk_tasks :: nat
  wk_stop :: bool
  wk_awake :: nat
  wk_holder :: bool
  wk_asleep :: nat
  wk_working :: nat
  wk_exited :: nat
  wk_due :: nat
  wk_due_all :: bool

definition start_workers :: "nat \<Rightarrow> wakeups" where
  "start_workers n = \<lparr>wk_tasks = 0, wk_stop = False, wk_awake = n, wk_holder = False, wk_asleep = 0,
     wk_working = 0, wk_exited = 0, wk_due = 0, wk_due_all = False\<rparr>"

datatype wake_event = Push | Notify_one | Take | Exit | Find_nothing | Sleep | Spurious | Done | Set_stop | Notify_all

fun wake_step :: "bool \<Rightarrow> wake_event \<Rightarrow> wakeups \<Rightarrow> wakeups option" where
  "wake_step locked Push s =
     (if \<not> wk_holder s \<and> (locked \<longrightarrow> \<not> wk_stop s) then Some (s\<lparr>wk_tasks := wk_tasks s + 1, wk_due := wk_due s + 1\<rparr>) else None)"
| "wake_step locked Notify_one s =
     (if wk_due s = 0 then None
      else if wk_asleep s = 0 then Some (s\<lparr>wk_due := wk_due s - 1\<rparr>)
      else Some (s\<lparr>wk_due := wk_due s - 1, wk_asleep := wk_asleep s - 1, wk_awake := wk_awake s + 1\<rparr>))"
| "wake_step locked Take s =
     (if \<not> wk_holder s \<and> 0 < wk_awake s \<and> 0 < wk_tasks s
      then Some (s\<lparr>wk_awake := wk_awake s - 1, wk_tasks := wk_tasks s - 1, wk_working := wk_working s + 1\<rparr>) else None)"
| "wake_step locked Exit s =
     (if \<not> wk_holder s \<and> 0 < wk_awake s \<and> wk_tasks s = 0 \<and> wk_stop s
      then Some (s\<lparr>wk_awake := wk_awake s - 1, wk_exited := wk_exited s + 1\<rparr>) else None)"
| "wake_step locked Find_nothing s =
     (if \<not> wk_holder s \<and> 0 < wk_awake s \<and> wk_tasks s = 0 \<and> \<not> wk_stop s
      then Some (s\<lparr>wk_awake := wk_awake s - 1, wk_holder := True\<rparr>) else None)"
| "wake_step locked Sleep s =
     (if wk_holder s then Some (s\<lparr>wk_holder := False, wk_asleep := wk_asleep s + 1\<rparr>) else None)"
| "wake_step locked Spurious s =
     (if 0 < wk_asleep s then Some (s\<lparr>wk_asleep := wk_asleep s - 1, wk_awake := wk_awake s + 1\<rparr>) else None)"
| "wake_step locked Done s =
     (if 0 < wk_working s then Some (s\<lparr>wk_working := wk_working s - 1, wk_awake := wk_awake s + 1\<rparr>) else None)"
| "wake_step locked Set_stop s =
     (if (locked \<and> wk_holder s) \<or> wk_stop s then None else Some (s\<lparr>wk_stop := True, wk_due_all := True\<rparr>))"
| "wake_step locked Notify_all s =
     (if wk_due_all s then Some (s\<lparr>wk_due_all := False, wk_awake := wk_awake s + wk_asleep s, wk_asleep := 0\<rparr>) else None)"

inductive wake_run :: "bool \<Rightarrow> wakeups \<Rightarrow> wake_event list \<Rightarrow> wakeups \<Rightarrow> bool" for locked :: bool where
  stay: "wake_run locked s [] s"
| step: "wake_step locked e s = Some t \<Longrightarrow> wake_run locked t es u \<Longrightarrow> wake_run locked s (e # es) u"

inductive_cases wake_runE [elim!]: "wake_run locked s [] t" "wake_run locked s (e # es) t"
inductive_simps wake_run_simps [simp]: "wake_run locked s [] t" "wake_run locked s (e # es) t"

section \<open>The invariant of a locked stop\<close>

definition everyone :: "wakeups \<Rightarrow> nat" where
  "everyone s = wk_awake s + (if wk_holder s then 1 else 0) + wk_asleep s + wk_working s + wk_exited s"

definition wake_inv :: "wakeups \<Rightarrow> bool" where
  "wake_inv s \<longleftrightarrow> (wk_asleep s \<noteq> 0 \<or> wk_holder s \<longrightarrow> wk_tasks s \<le> wk_due s + wk_awake s) \<and>
     (wk_holder s \<longrightarrow> \<not> wk_stop s \<and> wk_tasks s = 0) \<and>
     (wk_stop s \<longrightarrow> wk_due_all s \<or> wk_asleep s = 0) \<and>
     (wk_exited s \<noteq> 0 \<longrightarrow> wk_stop s \<and> wk_tasks s = 0)"

lemma wake_inv_step: "wake_step True e s = Some t \<Longrightarrow> wake_inv s \<Longrightarrow> wake_inv t \<and> everyone t = everyone s"
  by (cases s; cases e; simp add: wake_inv_def everyone_def split: if_splits; clarsimp; arith?)

lemma wake_inv_run: "wake_run True s es t \<Longrightarrow> wake_inv s \<Longrightarrow> wake_inv t \<and> everyone t = everyone s"
  by (induction rule: wake_run.induct) (auto dest: wake_inv_step)

lemma wake_inv_start: "wake_inv (start_workers n)" "everyone (start_workers n) = n"
  by (simp_all add: wake_inv_def start_workers_def everyone_def)

text \<open>C25: No lost wakeup. In every state the pool of the server can reach, a queued task
  that no notification and no waking worker is on its way to, leaves nobody asleep or about to
  sleep; and once \<open>stop\<close> has sent its notification nobody sleeps again. So a task never waits
  while an idle worker sleeps.\<close>

theorem no_lost_wakeup:
  assumes "wake_run True (start_workers n) es s"
  shows "(0 < wk_tasks s \<and> wk_due s + wk_awake s < wk_tasks s \<longrightarrow> wk_asleep s = 0 \<and> \<not> wk_holder s) \<and>
    (wk_stop s \<and> \<not> wk_due_all s \<longrightarrow> wk_asleep s = 0 \<and> \<not> wk_holder s) \<and>
    wk_awake s + (if wk_holder s then 1 else 0) + wk_asleep s + wk_working s + wk_exited s = n"
  using wake_inv_run [OF assms wake_inv_start(1)] wake_inv_start(2) [of n]
  by (auto simp: wake_inv_def everyone_def)

theorem no_lost_wakeup_witness:
  "wk_asleep \<lparr>wk_tasks = 0, wk_stop = True, wk_awake = 1, wk_holder = False, wk_asleep = 0,
     wk_working = 0, wk_exited = 0, wk_due = 0, wk_due_all = False\<rparr> = 0"
proof -
  let ?s = "\<lparr>wk_tasks = 0, wk_stop = True, wk_awake = 1, wk_holder = False, wk_asleep = 0,
     wk_working = 0, wk_exited = 0, wk_due = 0, wk_due_all = False\<rparr>"
  have "wake_run True (start_workers 1) [Find_nothing, Sleep, Push, Notify_one, Take, Set_stop, Notify_all, Done] ?s"
    by (simp add: start_workers_def)
  from no_lost_wakeup [OF this] show ?thesis by simp
qed

section \<open>Shutdown ends\<close>

definition shutdown_left :: "wakeups \<Rightarrow> nat" where
  "shutdown_left s = 3 * wk_tasks s + 2 * wk_working s + wk_awake s + 2 * wk_asleep s + wk_due s + (if wk_due_all s then 1 else 0)"

lemma shutdown_step:
  "wake_step True e s = Some t \<Longrightarrow> wake_inv s \<Longrightarrow> wk_stop s \<Longrightarrow> wk_stop t \<and> shutdown_left t < shutdown_left s"
  by (cases s; cases e; simp add: wake_inv_def shutdown_left_def split: if_splits; clarsimp; arith?)

lemma shutdown_run:
  "wake_run True s es t \<Longrightarrow> wake_inv s \<Longrightarrow> wk_stop s \<Longrightarrow> wk_stop t \<and> length es + shutdown_left t \<le> shutdown_left s"
proof (induction rule: wake_run.induct)
  case (step e s t es u)
  from shutdown_step [OF step(1,4,5)] wake_inv_step [OF step(1,4)] step.IH show ?case by simp
qed simp

lemma stuck_all_exited:
  assumes "wake_inv s" "wk_stop s" "\<forall>e. wake_step True e s = None" "0 < everyone s"
  shows "wk_exited s = everyone s \<and> wk_tasks s = 0"
proof -
  have "wk_working s = 0" using spec [OF assms(3), of Done] by (auto split: if_splits)
  moreover have h: "\<not> wk_holder s" using assms(1,2) by (auto simp: wake_inv_def)
  moreover have "\<not> wk_due_all s" using spec [OF assms(3), of Notify_all] by (auto split: if_splits)
  then have "wk_asleep s = 0" using assms(1,2) by (auto simp: wake_inv_def)
  moreover have "wk_awake s = 0"
    using spec [OF assms(3), of Take] spec [OF assms(3), of Exit] h assms(2) by (auto split: if_splits)
  ultimately have "wk_exited s = everyone s" by (simp add: everyone_def)
  with assms(1,4) show ?thesis by (simp add: wake_inv_def)
qed

text \<open>C26: \<open>join\<close> returns. From any reachable state of the server's pool in which \<open>stop\<close>
  was called, every schedule, spurious wakeups included, comes to an end within a bounded number
  of steps, and where it ends every worker has left its loop and every queued task has been
  run.\<close>

theorem shutdown_ends:
  assumes "wake_run True (start_workers n) es s" "wk_stop s" "wake_run True s es' t" "0 < n"
  shows "length es' \<le> 3 * wk_tasks s + 2 * wk_working s + wk_awake s + 2 * wk_asleep s + wk_due s + 1 \<and>
    ((\<forall>e. wake_step True e t = None) \<longrightarrow> wk_exited t = n \<and> wk_tasks t = 0)"
proof -
  note I = wake_inv_run [OF assms(1) wake_inv_start(1)]
  note J = wake_inv_run [OF assms(3)] shutdown_run [OF assms(3)]
  from I J assms(2) have "length es' \<le> shutdown_left s" "wk_stop t" "wake_inv t" "everyone t = n"
    by (simp_all add: wake_inv_start)
  moreover have "shutdown_left s \<le> 3 * wk_tasks s + 2 * wk_working s + wk_awake s + 2 * wk_asleep s + wk_due s + 1"
    by (simp add: shutdown_left_def)
  ultimately show ?thesis using stuck_all_exited [of t] assms(4) by auto
qed

theorem shutdown_ends_witness:
  "\<exists>s t. wake_run True (start_workers 1) [Find_nothing, Sleep, Push, Set_stop] s \<and>
     wake_run True s [Notify_all, Take, Notify_one, Done, Exit] t \<and> wk_exited t = 1 \<and> wk_tasks t = 0"
proof -
  let ?s = "\<lparr>wk_tasks = 1, wk_stop = True, wk_awake = 0, wk_holder = False, wk_asleep = 1,
     wk_working = 0, wk_exited = 0, wk_due = 1, wk_due_all = True\<rparr>"
  let ?t = "\<lparr>wk_tasks = 0, wk_stop = True, wk_awake = 0, wk_holder = False, wk_asleep = 0,
     wk_working = 0, wk_exited = 1, wk_due = 0, wk_due_all = False\<rparr>"
  have s: "wake_run True (start_workers 1) [Find_nothing, Sleep, Push, Set_stop] ?s"
    by (simp add: start_workers_def)
  have t: "wake_run True ?s [Notify_all, Take, Notify_one, Done, Exit] ?t" by simp
  have "\<forall>e. wake_step True e ?t = None"
  proof
    fix e show "wake_step True e ?t = None" by (cases e) simp_all
  qed
  with shutdown_ends [OF s _ t] have "wk_exited ?t = 1 \<and> wk_tasks ?t = 0" by simp
  with s t show ?thesis by (intro exI [of _ ?s] exI [of _ ?t] conjI) simp_all
qed

section \<open>Without the lock\<close>

text \<open>A finding. In phases 3 and 4 \<open>stop\<close> sets the flag without the mutex, so its
  notification can fall between a worker's test of the predicate and its going to sleep: for
  every number of workers there is a schedule after which the shutdown has been announced, no
  notification is outstanding, the queue is empty and a worker is asleep with nothing left that
  would wake it (only another task or a spurious wakeup could); \<open>shutdown\<close> then waits in \<open>join\<close> for ever.\<close>

theorem unlocked_stop_loses_wakeup:
  "\<exists>es s. wake_run False (start_workers (Suc n)) es s \<and> wk_stop s \<and> \<not> wk_due_all s \<and> wk_due s = 0 \<and>
     wk_tasks s = 0 \<and> wk_asleep s = 1 \<and> wk_exited s = n \<and>
     {e. wake_step False e s \<noteq> None} = {Push, Spurious}"
proof -
  let ?s = "\<lambda>a x. \<lparr>wk_tasks = 0, wk_stop = True, wk_awake = a, wk_holder = False, wk_asleep = 1,
     wk_working = 0, wk_exited = x, wk_due = 0, wk_due_all = False\<rparr>"
  have exits: "wake_run False (?s a x) (replicate a Exit) (?s 0 (x + a))" for a x
  proof (induction a arbitrary: x)
    case (Suc a)
    from Suc.IH [of "Suc x"] show ?case by simp
  qed simp
  have "wake_run False (start_workers (Suc n)) ([Find_nothing, Set_stop, Notify_all, Sleep] @ replicate n Exit) (?s 0 n)"
    using exits [of n 0] by (simp add: start_workers_def)
  moreover have "{e. wake_step False e (?s 0 n) \<noteq> None} = {Push, Spurious}"
  proof (intro set_eqI iffI)
    fix e assume "e \<in> {e. wake_step False e (?s 0 n) \<noteq> None}"
    then show "e \<in> {Push, Spurious}" by (cases e) simp_all
  qed auto
  ultimately show ?thesis by (intro exI [of _ "[Find_nothing, Set_stop, Notify_all, Sleep] @ replicate n Exit"] exI [of _ "?s 0 n"]) simp
qed

end
