(* ===== verification/Early_Pools.thy ===== *)
theory Early_Pools
  imports Task_Queue Cpp_Numbers
begin

text \<open>
  The thread pools of \<open>src/server_phase3.cpp\<close> and \<open>src/server_phase4.cpp\<close>, and the queue of
  the latter. Their workers look at a flag before every pop, which \<open>shutdown\<close> clears before it
  stops the queue. The pool is a transition system of its workers, the pushes and the shutdown:
  tasks are started once and in order, but a shutdown drops what is still queued, which the
  final server no longer does.
\<close>

section \<open>The queue of phase 4\<close>

record 't queue4 =
  q4_tasks :: "'t list"
  q4_shutdown :: bool

definition new_queue4 :: "'t queue4" where
  "new_queue4 = \<lparr>q4_tasks = [], q4_shutdown = False\<rparr>"

definition q4_push :: "'t \<Rightarrow> 't queue4 \<Rightarrow> 't queue4" where
  "q4_push task q = q\<lparr>q4_tasks := q4_tasks q @ [task]\<rparr>"

definition q4_pop :: "'t queue4 \<Rightarrow> ('t option \<times> 't queue4) option" where
  "q4_pop q =
     (if \<not> (q4_tasks q \<noteq> [] \<or> q4_shutdown q) then None
      else if q4_shutdown q \<and> q4_tasks q = [] then Some (None, q)
      else Some (Some (hd (q4_tasks q)), q\<lparr>q4_tasks := tl (q4_tasks q)\<rparr>))"

definition q4_stop :: "'t queue4 \<Rightarrow> 't queue4" where
  "q4_stop q = q\<lparr>q4_shutdown := True\<rparr>"

interpretation q4: task_fifo q4_tasks q4_shutdown q4_push q4_pop q4_stop
  by unfold_locales (auto simp: q4_push_def q4_pop_def q4_stop_def)

section \<open>The pool of phase 3\<close>

text \<open>The workers that are about to test \<open>running\<close>, those that found it set and are in \<open>pop\<close>,
  the tasks started so far, and what the workers printed.\<close>

record 't pool3 =
  pl_queue :: "'t queue3"
  pl_running :: bool
  pl_testing :: "nat list"
  pl_popping :: "nat list"
  pl_started :: "'t list"
  pl_out :: bytes

text \<open>The constructor and the workers' first lines, in the order in which they start.\<close>

definition start_pool3 :: "nat \<Rightarrow> 't queue3 \<Rightarrow> 't pool3" where
  "start_pool3 num_workers q = \<lparr>pl_queue = q, pl_running = True, pl_testing = [0..<num_workers], pl_popping = [],
     pl_started = [], pl_out = concat (map (\<lambda>i. ''[worker '' @ nat_str i @ ''] started'' @ [LF]) [0..<num_workers])\<rparr>"

text \<open>A worker tests the flag: it goes on to \<open>pop\<close> or leaves.\<close>

definition test_running :: "nat \<Rightarrow> 't pool3 \<Rightarrow> 't pool3" where
  "test_running i p =
     (let p = p\<lparr>pl_testing := remove1 i (pl_testing p)\<rparr> in
      if pl_running p then p\<lparr>pl_popping := i # pl_popping p\<rparr>
      else p\<lparr>pl_out := pl_out p @ ''[worker '' @ nat_str i @ ''] exiting'' @ [LF]\<rparr>)"

text \<open>A worker returns from \<open>pop\<close> (\<open>None\<close>: it waits) and runs the task or leaves.\<close>

definition run_task :: "nat \<Rightarrow> 't pool3 \<Rightarrow> 't pool3 option" where
  "run_task i p =
     (case q3_pop (pl_queue p) of
        None \<Rightarrow> None
      | Some (None, q) \<Rightarrow> Some (p\<lparr>pl_queue := q, pl_popping := remove1 i (pl_popping p),
          pl_out := pl_out p @ ''[worker '' @ nat_str i @ ''] exiting'' @ [LF]\<rparr>)
      | Some (Some task, q) \<Rightarrow> Some (p\<lparr>pl_queue := q, pl_popping := remove1 i (pl_popping p),
          pl_testing := i # pl_testing p, pl_started := pl_started p @ [task]\<rparr>))"

definition shutdown_pool3 :: "'t pool3 \<Rightarrow> 't pool3" where
  "shutdown_pool3 p = (let p = p\<lparr>pl_running := False\<rparr> in p\<lparr>pl_queue := q3_stop (pl_queue p)\<rparr>)"

text \<open>\<open>shutdown\<close> returns when every worker has left.\<close>

definition pool3_joined :: "'t pool3 \<Rightarrow> bool" where
  "pool3_joined p \<longleftrightarrow> pl_testing p = [] \<and> pl_popping p = []"

inductive pool3_run :: "'t pool3 \<Rightarrow> 't list \<Rightarrow> 't pool3 \<Rightarrow> bool" for p0 :: "'t pool3" where
  start: "pool3_run p0 [] p0"
| push: "pool3_run p0 ts p \<Longrightarrow> pool3_run p0 (ts @ [t]) (p\<lparr>pl_queue := q3_push t (pl_queue p)\<rparr>)"
| test: "pool3_run p0 ts p \<Longrightarrow> i \<in> set (pl_testing p) \<Longrightarrow> pool3_run p0 ts (test_running i p)"
| task: "pool3_run p0 ts p \<Longrightarrow> i \<in> set (pl_popping p) \<Longrightarrow> run_task i p = Some p' \<Longrightarrow> pool3_run p0 ts p'"
| shutdown: "pool3_run p0 ts p \<Longrightarrow> pool3_run p0 ts (shutdown_pool3 p)"

text \<open>Tasks are started once each, in the order of the pushes.\<close>

theorem pool3_in_order:
  "pool3_run p0 ts p \<Longrightarrow> pl_started p @ q3_tasks (pl_queue p) = pl_started p0 @ q3_tasks (pl_queue p0) @ ts"
proof (induction rule: pool3_run.induct)
  case (task ts p i p')
  then show ?case
    by (cases "q3_tasks (pl_queue p)") (auto simp: run_task_def q3_pop_def split: if_splits)
qed (simp_all add: q3_push_def test_running_def shutdown_pool3_def q3_stop_def Let_def)

text \<open>After a shutdown every worker starts at most the one task it was already waiting for: what
  else is queued is dropped, however long \<open>shutdown\<close> waits for the workers. The pool of
  \<open>src/server_phase5.cpp\<close> drains its queue (\<open>worker_drains\<close>).\<close>

theorem pool3_shutdown_drops:
  assumes "pool3_run p0 ts p" "\<not> pl_running p0"
  shows "length (pl_started p) + length (pl_popping p) \<le> length (pl_started p0) + length (pl_popping p0)"
proof -
  have "\<not> pl_running p \<and> length (pl_started p) + length (pl_popping p) \<le> length (pl_started p0) + length (pl_popping p0)"
    using assms
  proof (induction rule: pool3_run.induct)
    case (task ts p i p')
    then have "Suc (length (pl_popping p) - 1) = length (pl_popping p)" using length_pos_if_in_set by fastforce
    with task show ?case
      by (auto simp: run_task_def length_remove1 split: option.splits prod.splits)
  qed (auto simp: test_running_def shutdown_pool3_def Let_def)
  then show ?thesis by simp
qed

section \<open>The pool of phase 4\<close>

text \<open>One worker, \<open>running\<close> being what its reads of the flag give: the tasks it runs, whether it
  left, and the queue.\<close>

fun p4_worker :: "bool list \<Rightarrow> 't queue4 \<Rightarrow> 't list \<times> bool \<times> 't queue4" where
  "p4_worker [] q = ([], False, q)"
| "p4_worker (running # rs) q =
     (if \<not> running then ([], True, q)
      else (case q4_pop q of
        None \<Rightarrow> ([], False, q)
      | Some (None, q) \<Rightarrow> ([], True, q)
      | Some (Some task, q) \<Rightarrow> (case p4_worker rs q of (ts, ended, q) \<Rightarrow> (task # ts, ended, q))))"

definition p4_shutdown :: "bool \<times> 't queue4 \<Rightarrow> bool \<times> 't queue4" where
  "p4_shutdown = (\<lambda>(running, q). (False, q4_stop q))"

end
