(* ===== verification/Phase4_Cache.thy ===== *)
theory Phase4_Cache
  imports Lru_Cache
begin

text \<open>
  \<open>LRUCache\<close> of \<open>src/server_phase4.cpp\<close>, the cache before the rewrite of
  \<open>src/lru_cache.hpp\<close>. Its \<open>get\<close> takes the lock twice, first shared to see whether the key is
  there and then exclusive to move the entry, so another thread can act between the two. A
  locked section is one step here. Whatever the interleaving, the cache is shown to do what
  \<open>lru_cache.hpp\<close> does on some sequence of whole operations.
\<close>

section \<open>The locked sections\<close>

record ('k, 'v) rw_lru =
  rw_capacity :: u64
  rw_items :: "('k, 'v) node list"
  rw_index :: "'k \<rightharpoonup> nat"
  rw_next :: nat
  rw_hits :: u64
  rw_misses :: u64

definition new_rw_lru :: "u64 \<Rightarrow> ('k, 'v) rw_lru" where
  "new_rw_lru cap = \<lparr>rw_capacity = cap, rw_items = [], rw_index = Map.empty, rw_next = 0, rw_hits = 0, rw_misses = 0\<rparr>"

text \<open>\<open>get\<close> under the shared lock: whether it goes on.\<close>

definition rw_probe :: "('k, 'v) rw_lru \<Rightarrow> 'k \<Rightarrow> bool \<times> ('k, 'v) rw_lru" where
  "rw_probe c k = (case rw_index c k of
     None \<Rightarrow> (False, c\<lparr>rw_misses := rw_misses c + 1\<rparr>)
   | Some n \<Rightarrow> (True, c))"

text \<open>\<open>get\<close> under the exclusive lock.\<close>

definition rw_take :: "('k, 'v) rw_lru \<Rightarrow> 'k \<Rightarrow> 'v option \<times> ('k, 'v) rw_lru" where
  "rw_take c k = (case rw_index c k of
     None \<Rightarrow> (None, c\<lparr>rw_misses := rw_misses c + 1\<rparr>)
   | Some n \<Rightarrow>
       let items = splice_front (rw_items c) n in
       (map_option node_val (deref items n), c\<lparr>rw_hits := rw_hits c + 1, rw_items := items\<rparr>))"

definition rw_get :: "('k, 'v) rw_lru \<Rightarrow> 'k \<Rightarrow> 'v option \<times> ('k, 'v) rw_lru" where
  "rw_get c k = (case rw_probe c k of (False, c) \<Rightarrow> (None, c) | (True, c) \<Rightarrow> rw_take c k)"

text \<open>\<open>None\<close>: \<open>back\<close> of an empty list, which is undefined; it takes a capacity of 0.\<close>

definition rw_put :: "('k, 'v) rw_lru \<Rightarrow> 'k \<Rightarrow> 'v \<Rightarrow> ('k, 'v) rw_lru option" where
  "rw_put c k v = (case rw_index c k of
     Some n \<Rightarrow> Some (c\<lparr>rw_items := splice_front (assign_val (rw_items c) n v) n\<rparr>)
   | None \<Rightarrow>
       (let full = length (rw_items c) \<ge> unat (rw_capacity c) in
        if full \<and> rw_items c = [] then None
        else
          let c = (if full
                   then c\<lparr>rw_index := (rw_index c)(node_key (last (rw_items c)) := None), rw_items := butlast (rw_items c)\<rparr>
                   else c) in
          Some (c\<lparr>rw_items := \<lparr>node_id = rw_next c, node_key = k, node_val = v\<rparr> # rw_items c,
                   rw_index := (rw_index c)(k \<mapsto> rw_next c), rw_next := rw_next c + 1\<rparr>)))"

definition rw_hit_rate :: "('k, 'v) rw_lru \<Rightarrow> rat" where
  "rw_hit_rate c = (let h = rw_hits c; m = rw_misses c in
     if h + m > 0 then of_nat (unat h) / of_nat (unat (h + m)) * 100 else 0)"

definition rw_reset_stats :: "('k, 'v) rw_lru \<Rightarrow> ('k, 'v) rw_lru" where
  "rw_reset_stats c = c\<lparr>rw_hits := 0, rw_misses := 0\<rparr>"

definition rw_size :: "('k, 'v) rw_lru \<Rightarrow> nat" where
  "rw_size c = length (rw_items c)"

definition rw_stats :: "('k, 'v) rw_lru \<Rightarrow> u64 \<times> u64" where
  "rw_stats c = (rw_hits c, rw_misses c)"

section \<open>Interleavings\<close>

text \<open>The locked sections of any number of threads, in the order they get the lock. A run
  yields the answers of the \<open>get\<close>s that ended, and the order of whole operations that
  explains it: a \<open>get\<close> counts where it ended.\<close>

datatype ('k, 'v) locked_section = Probe 'k | Take_front 'k | Store 'k 'v

fun rw_step :: "('k, 'v) locked_section \<Rightarrow> ('k, 'v) rw_lru \<Rightarrow> (('k, 'v) cache_op list \<times> 'v option list \<times> ('k, 'v) rw_lru) option" where
  "rw_step (Probe k) c = (case rw_probe c k of (False, c) \<Rightarrow> Some ([Get k], [None], c) | (True, c) \<Rightarrow> Some ([], [], c))"
| "rw_step (Take_front k) c = (case rw_take c k of (a, c) \<Rightarrow> Some ([Get k], [a], c))"
| "rw_step (Store k v) c = map_option (\<lambda>c. ([Put k v], [], c)) (rw_put c k v)"

fun rw_run :: "('k, 'v) locked_section list \<Rightarrow> ('k, 'v) rw_lru \<Rightarrow> (('k, 'v) cache_op list \<times> 'v option list \<times> ('k, 'v) rw_lru) option" where
  "rw_run [] c = Some ([], [], c)"
| "rw_run (e # es) c = (case rw_step e c of
     None \<Rightarrow> None
   | Some (ops, answers, c) \<Rightarrow> map_option (\<lambda>(ops', answers', c). (ops @ ops', answers @ answers', c)) (rw_run es c))"

fun lru_answers :: "('k, 'v) cache_op list \<Rightarrow> ('k, 'v) lru \<Rightarrow> 'v option list" where
  "lru_answers [] c = []"
| "lru_answers (Get k # ops) c = fst (lru_get c k) # lru_answers ops (snd (lru_get c k))"
| "lru_answers (a # ops) c = lru_answers ops (lru_op a c)"

text \<open>The two caches agree on everything but the count of evictions, which phase 4 lacks.\<close>

definition same_cache :: "('k, 'v) rw_lru \<Rightarrow> ('k, 'v) lru \<Rightarrow> bool" where
  "same_cache c d \<longleftrightarrow> rw_capacity c = lru_capacity d \<and> rw_items c = lru_items d \<and> rw_index c = lru_index d \<and>
     rw_next c = lru_next d \<and> rw_hits c = lru_hits d \<and> rw_misses c = lru_misses d"

lemma same_take:
  assumes "same_cache c d"
  shows "fst (rw_take c k) = fst (lru_get d k)" "same_cache (snd (rw_take c k)) (snd (lru_get d k))"
  using assms by (auto simp: same_cache_def rw_take_def lru_get_def Let_def split: option.split)

lemma same_put:
  assumes "same_cache c d" "lru_ok d"
  shows "\<exists>c'. rw_put c k v = Some c' \<and> same_cache c' (lru_put d k v)"
proof (cases "lru_index d k")
  case None
  have "unat (lru_capacity d) \<le> length (lru_items d) \<Longrightarrow> lru_items d \<noteq> []" using assms(2) by (auto simp: lru_ok_def)
  with assms(1) None show ?thesis
    by (simp add: same_cache_def rw_put_def lru_put_def Let_def evict_if_full_def push_front_def)
next
  case (Some n)
  with assms(1) show ?thesis by (simp add: same_cache_def rw_put_def lru_put_def)
qed

lemma lru_answers_append: "lru_answers (xs @ ys) c = lru_answers xs c @ lru_answers ys (fold lru_op xs c)"
  by (induction xs c rule: lru_answers.induct) simp_all

lemma same_step:
  assumes "same_cache c d" "lru_ok d"
  shows "\<exists>ops answers c'. rw_step e c = Some (ops, answers, c') \<and> same_cache c' (fold lru_op ops d) \<and>
      lru_ok (fold lru_op ops d) \<and> answers = lru_answers ops d"
proof (cases e)
  case (Probe k)
  with assms show ?thesis
    by (cases "lru_index d k") (auto simp: rw_probe_def same_cache_def lru_get_def)
next
  case (Take_front k)
  with same_take [OF assms(1), of k] lru_get_ok [OF assms(2), of k] show ?thesis
    by (cases "rw_take c k") auto
next
  case (Store k v)
  with same_put [OF assms, of k v] lru_put_ok [OF assms(2), of k v] show ?thesis by auto
qed

lemma same_run:
  "same_cache c d \<Longrightarrow> lru_ok d \<Longrightarrow> \<exists>ops answers c'. rw_run es c = Some (ops, answers, c') \<and>
     same_cache c' (fold lru_op ops d) \<and> answers = lru_answers ops d"
proof (induction es arbitrary: c d)
  case (Cons e es)
  obtain ops answers c1 where s: "rw_step e c = Some (ops, answers, c1)" "same_cache c1 (fold lru_op ops d)"
    "lru_ok (fold lru_op ops d)" "answers = lru_answers ops d"
    using same_step [OF Cons.prems, of e] by blast
  obtain ops2 answers2 c2 where "rw_run es c1 = Some (ops2, answers2, c2)"
    "same_cache c2 (fold lru_op ops2 (fold lru_op ops d))" "answers2 = lru_answers ops2 (fold lru_op ops d)"
    using Cons.IH [OF s(2,3)] by blast
  with s show ?case by (simp add: lru_answers_append)
qed simp

text \<open>C22: The two-lock \<open>get\<close> of phase 4 is linearisable. With a capacity other than 0, for every
  interleaving of the locked sections of any number of threads, no step is undefined, and
  there is an order of whole operations on which the cache of \<open>lru_cache.hpp\<close> gives the same
  answers and ends with the same entries, index and counters, each \<open>get\<close> counted once.\<close>

theorem phase4_cache_linearizable:
  assumes "cap \<noteq> 0"
  shows "\<exists>ops answers c. rw_run es (new_rw_lru cap) = Some (ops, answers, c) \<and>
      answers = lru_answers ops (new_lru cap) \<and>
      rw_items c = lru_items (lru_run cap ops) \<and> rw_index c = lru_index (lru_run cap ops) \<and>
      rw_stats c = (lru_hits (lru_run cap ops), lru_misses (lru_run cap ops)) \<and>
      rw_hits c + rw_misses c = of_nat (length answers)"
proof -
  have same: "same_cache (new_rw_lru cap) (new_lru cap :: ('a, 'b) lru)"
    using assms by (simp add: same_cache_def new_rw_lru_def new_lru_def)
  obtain ops answers c where r: "rw_run es (new_rw_lru cap) = Some (ops, answers, c)"
    "same_cache c (lru_run cap ops)" "answers = lru_answers ops (new_lru cap)"
    using same_run [OF same lru_ok_new, of es] unfolding lru_run_def by blast
  have "lru_hits (fold lru_op ops d) + lru_misses (fold lru_op ops d) = lru_hits d + lru_misses d + of_nat (length (lru_answers ops d))"
    if "lru_ok d" for d :: "('a, 'b) lru"
    using that
  proof (induction ops arbitrary: d)
    case (Cons a ops)
    have "lru_ok (lru_op a d)"
      using Cons.prems by (cases a) (simp_all add: lru_get_ok lru_put_ok lru_erase_refines(1))
    from Cons.IH [OF this] lru_op_counters [OF Cons.prems, of a] show ?case by (cases a) simp_all
  qed simp
  from this [OF lru_ok_new [of cap]]
  have "lru_hits (lru_run cap ops) + lru_misses (lru_run cap ops) = of_nat (length answers)"
    unfolding lru_run_def r(3) by (simp add: new_lru_def)
  with r show ?thesis by (auto simp: same_cache_def rw_stats_def)
qed

theorem phase4_cache_linearizable_witness:
  "\<exists>ops answers c. rw_run [Store ''a'' (1 :: nat), Probe ''a'', Store ''b'' 2, Take_front ''a''] (new_rw_lru 1) = Some (ops, answers, c) \<and>
     answers = lru_answers ops (new_lru 1)"
proof -
  have "(1 :: u64) \<noteq> 0" by simp
  from phase4_cache_linearizable [OF this, of "[Store ''a'' (1 :: nat), Probe ''a'', Store ''b'' 2, Take_front ''a'']"]
  show ?thesis by auto
qed

end
