(* ===== verification/Senders.thy ===== *)
theory Senders
  imports Sockets
begin

text \<open>
  The three functions that send a whole string: \<open>send_all\<close> of \<open>src/server_phase5.cpp\<close>, of
  \<open>src/origin_server.cpp\<close> and of \<open>src/benchmark.cpp\<close>. They differ in how they wait; the
  locale \<open>sender\<close> is the contract they share and what follows from it for a sequence of
  messages. Also \<open>recv\<close> into a buffer of any size.
\<close>

section \<open>The contract\<close>

locale sender =
  fixes transmit :: "bytes \<Rightarrow> sock \<Rightarrow> bool \<times> sock"
  assumes exact: "\<exists>m \<le> length data. sk_wire (snd (transmit data s)) = sk_wire s @ take m data \<and>
      fst (transmit data s) = (m = length data) \<and> sk_rx (snd (transmit data s)) = sk_rx s"
begin

text \<open>Messages one after the other, until one cannot be sent whole.\<close>

fun transmit_each :: "bytes list \<Rightarrow> sock \<Rightarrow> bool \<times> sock" where
  "transmit_each [] s = (True, s)"
| "transmit_each (d # ds) s = (case transmit d s of (sent, s) \<Rightarrow> if sent then transmit_each ds s else (False, s))"

lemma each_exact:
  "\<exists>m \<le> length (concat ds). sk_wire (snd (transmit_each ds s)) = sk_wire s @ take m (concat ds) \<and>
     fst (transmit_each ds s) = (m = length (concat ds))"
proof (induction ds arbitrary: s)
  case (Cons d ds)
  obtain sent s1 where t: "transmit d s = (sent, s1)" by fastforce
  obtain m where m: "m \<le> length d" "sk_wire s1 = sk_wire s @ take m d" "sent = (m = length d)"
    using exact [of d s] t by auto
  show ?case
  proof (cases sent)
    case True
    obtain k where "k \<le> length (concat ds)" "sk_wire (snd (transmit_each ds s1)) = sk_wire s1 @ take k (concat ds)"
      "fst (transmit_each ds s1) = (k = length (concat ds))"
      using Cons.IH [of s1] by blast
    with t m True show ?thesis by (intro exI [of _ "length d + k"]) simp
  next
    case False
    with t m show ?thesis by (intro exI [of _ m]) auto
  qed
qed simp

end

interpretation proxy_sender: sender send_all
proof
  fix data s
  show "\<exists>m \<le> length data. sk_wire (snd (send_all data s)) = sk_wire s @ take m data \<and>
      fst (send_all data s) = (m = length data) \<and> sk_rx (snd (send_all data s)) = sk_rx s"
    by (rule send_all_effect [of data s]) blast
qed

section \<open>The origin server\<close>

text \<open>As in the proxy, but without a limit on the number of stalls.\<close>

function origin_send_loop :: "bytes \<Rightarrow> nat \<Rightarrow> sock \<Rightarrow> bool \<times> sock" where
  "origin_send_loop data sent s =
     (if sent < length data then
        (case sys_send (drop sent data) s of
           (Inr n, s') \<Rightarrow> if n > 0 then origin_send_loop data (sent + n) s' else (False, s')
         | (Inl e, s') \<Rightarrow>
             if e = EAGAIN then
               (case sys_poll s' of
                  (True, s'') \<Rightarrow> origin_send_loop data sent s''
                | (False, s'') \<Rightarrow> (False, s''))
             else if e = EINTR then origin_send_loop data sent s'
             else (False, s'))
      else (True, s))"
  by pat_completeness auto
termination
proof (relation "measure (\<lambda>(data, sent, s). tx_left s)", goal_cases)
  case 2
  then show ?case by (auto dest!: sys_send_left(2) [OF sym] sys_poll_left [OF sym])
next
  case 3
  then show ?case by (auto dest!: sys_send_left(3) [OF sym])
next
  case 4
  then show ?case by (auto dest!: sys_send_left(1) [OF sym])
qed simp

declare origin_send_loop.simps [simp del]

definition origin_send_all :: "bytes \<Rightarrow> sock \<Rightarrow> bool \<times> sock" where
  "origin_send_all data s = origin_send_loop data 0 s"

text \<open>One step of such a loop keeps the account of what is on the wire.\<close>

definition accounted_send :: "bytes \<Rightarrow> nat \<Rightarrow> sock \<Rightarrow> bool \<times> sock \<Rightarrow> bool" where
  "accounted_send data sent s r \<longleftrightarrow> (\<exists>m. sent \<le> m \<and> m \<le> length data \<and>
     sk_wire (snd r) = sk_wire s @ take (m - sent) (drop sent data) \<and> fst r = (m = length data) \<and> sk_rx (snd r) = sk_rx s)"

lemma accounted_stop:
  "sent \<le> length data \<Longrightarrow> sk_wire s' = sk_wire s \<Longrightarrow> sk_rx s' = sk_rx s \<Longrightarrow> ok = (sent = length data) \<Longrightarrow>
     accounted_send data sent s (ok, s')"
  by (auto simp: accounted_send_def intro!: exI [of _ sent])

lemma accounted_same:
  "accounted_send data sent s1 r \<Longrightarrow> sk_wire s1 = sk_wire s \<Longrightarrow> sk_rx s1 = sk_rx s \<Longrightarrow> accounted_send data sent s r"
  by (simp add: accounted_send_def)

lemma accounted_more:
  assumes "accounted_send data (sent + n) s1 r" "sk_wire s1 = sk_wire s @ take n (drop sent data)" "sk_rx s1 = sk_rx s"
  shows "accounted_send data sent s r"
proof -
  obtain m where m: "sent + n \<le> m" "m \<le> length data" "sk_wire (snd r) = sk_wire s1 @ take (m - (sent + n)) (drop (sent + n) data)"
    "fst r = (m = length data)" "sk_rx (snd r) = sk_rx s1"
    using assms(1) by (auto simp: accounted_send_def)
  have "m - sent = n + (m - (sent + n))" using m(1) by simp
  then have "take (m - sent) (drop sent data) = take n (drop sent data) @ take (m - (sent + n)) (drop (sent + n) data)"
    by (simp only: take_add drop_drop add.commute [of n sent])
  with m assms(2,3) show ?thesis unfolding accounted_send_def by (intro exI [of _ m]) simp
qed

lemma origin_send_loop_effect: "sent \<le> length data \<Longrightarrow> accounted_send data sent s (origin_send_loop data sent s)"
proof (induction data sent s rule: origin_send_loop.induct)
  case (1 data sent s)
  show ?case
  proof (cases "sent < length data")
    case False
    with "1.prems" show ?thesis by (subst origin_send_loop.simps) (simp add: accounted_stop)
  next
    case less: True
    obtain r s1 where r: "sys_send (drop sent data) s = (r, s1)" by fastforce
    note E = sys_send_effect [OF r]
    show ?thesis
    proof (cases r)
      case (Inr n)
      have eq: "origin_send_loop data sent s = (if n > 0 then origin_send_loop data (sent + n) s1 else (False, s1))"
        using less r Inr by (subst origin_send_loop.simps) simp
      show ?thesis
      proof (cases "n > 0")
        case True
        have "sent + n \<le> length data" using E Inr less by auto
        from accounted_more [OF "1.IH"(3) [OF less r [symmetric] Inr True this]] E Inr True eq
        show ?thesis by simp
      next
        case False
        with E Inr eq less show ?thesis by (simp add: accounted_stop)
      qed
    next
      case (Inl e)
      obtain w s2 where p: "sys_poll s1 = (w, s2)" by fastforce
      note P = sys_poll_effect [OF p]
      have eq: "origin_send_loop data sent s =
          (if e = EAGAIN then (if w then origin_send_loop data sent s2 else (False, s2))
           else if e = EINTR then origin_send_loop data sent s1 else (False, s1))"
        using less r Inl p by (subst origin_send_loop.simps) simp
      show ?thesis
        using "1.IH"(1) [OF less r [symmetric] Inl _ p [symmetric] _ "1.prems"]
          "1.IH"(2) [OF less r [symmetric] Inl _ _ "1.prems"] E P Inl less
        unfolding eq by (auto intro: accounted_stop accounted_same)
    qed
  qed
qed

lemma sender_of_accounted:
  "(\<And>data s. accounted_send data 0 s (f data s)) \<Longrightarrow> sender f"
  by unfold_locales (auto simp: accounted_send_def)

interpretation origin_sender: sender origin_send_all
  by (rule sender_of_accounted) (simp add: origin_send_all_def origin_send_loop_effect)

section \<open>The load generator\<close>

text \<open>Its sockets block, so there is nothing to wait for.\<close>

function bench_send_loop :: "bytes \<Rightarrow> nat \<Rightarrow> sock \<Rightarrow> bool \<times> sock" where
  "bench_send_loop data sent s =
     (if sent < length data then
        (case sys_send (drop sent data) s of
           (Inr n, s') \<Rightarrow> if n > 0 then bench_send_loop data (sent + n) s' else (False, s')
         | (Inl e, s') \<Rightarrow> if e = EINTR then bench_send_loop data sent s' else (False, s'))
      else (True, s))"
  by pat_completeness auto
termination
proof (relation "measure (\<lambda>(data, sent, s). tx_left s)", goal_cases)
  case 2
  then show ?case by (auto dest!: sys_send_left(3) [OF sym])
next
  case 3
  then show ?case by (auto dest!: sys_send_left(1) [OF sym])
qed simp

declare bench_send_loop.simps [simp del]

definition bench_send_all :: "bytes \<Rightarrow> sock \<Rightarrow> bool \<times> sock" where
  "bench_send_all data s = bench_send_loop data 0 s"

lemma bench_send_loop_effect: "sent \<le> length data \<Longrightarrow> accounted_send data sent s (bench_send_loop data sent s)"
proof (induction data sent s rule: bench_send_loop.induct)
  case (1 data sent s)
  show ?case
  proof (cases "sent < length data")
    case False
    with "1.prems" show ?thesis by (subst bench_send_loop.simps) (simp add: accounted_stop)
  next
    case less: True
    obtain r s1 where r: "sys_send (drop sent data) s = (r, s1)" by fastforce
    note E = sys_send_effect [OF r]
    show ?thesis
    proof (cases r)
      case (Inr n)
      have eq: "bench_send_loop data sent s = (if n > 0 then bench_send_loop data (sent + n) s1 else (False, s1))"
        using less r Inr by (subst bench_send_loop.simps) simp
      show ?thesis
      proof (cases "n > 0")
        case True
        have "sent + n \<le> length data" using E Inr less by auto
        from accounted_more [OF "1.IH"(2) [OF less r [symmetric] Inr True this]] E Inr True eq
        show ?thesis by simp
      next
        case False
        with E Inr eq less show ?thesis by (simp add: accounted_stop)
      qed
    next
      case (Inl e)
      have eq: "bench_send_loop data sent s = (if e = EINTR then bench_send_loop data sent s1 else (False, s1))"
        using less r Inl by (subst bench_send_loop.simps) simp
      show ?thesis
        using "1.IH"(1) [OF less r [symmetric] Inl _ "1.prems"] E Inl less
        unfolding eq by (auto intro: accounted_stop accounted_same)
    qed
  qed
qed

interpretation bench_sender: sender bench_send_all
  by (rule sender_of_accounted) (simp add: bench_send_all_def bench_send_loop_effect)

section \<open>Receiving into a buffer of a given size\<close>

definition recv_upto :: "nat \<Rightarrow> sock \<Rightarrow> (errno + bytes) \<times> sock" where
  "recv_upto size_max s = (case sk_rx s of
     [] \<Rightarrow> (Inl EAGAIN, s\<lparr>sk_errno := EAGAIN\<rparr>)
   | Recv_fail e # r \<Rightarrow> (Inl e, s\<lparr>sk_rx := r, sk_errno := e\<rparr>)
   | Recv bs # r \<Rightarrow>
       if bs = [] then (Inr [], s)
       else if length bs \<le> size_max then (Inr bs, s\<lparr>sk_rx := r\<rparr>)
       else (Inr (take size_max bs), s\<lparr>sk_rx := Recv (drop size_max bs) # r\<rparr>))"

lemma sys_recv_upto: "sys_recv s = recv_upto recv_max s"
  by (simp add: sys_recv_def recv_upto_def)

end
