(* ===== verification/Origin_Server.thy ===== *)
theory Origin_Server
  imports Senders Relay
begin

text \<open>
  The origin of the benchmarks, \<open>src/origin_server.cpp\<close>: how it handles a readable
  connection, the response it sends, and its command line. Its task queue is in
  \<open>Task_Queue\<close>, its \<open>send_all\<close> in \<open>Senders\<close>. Its responses are shown to be what the proxy
  needs: framed, cacheable, different for different paths, and fetched byte for byte.
\<close>

section \<open>The state\<close>

record origin =
  og_requests :: u64
  og_body_size :: nat
  og_keep_alive :: bool

definition new_origin :: origin where
  "new_origin = \<lparr>og_requests = 0, og_body_size = 512, og_keep_alive = True\<rparr>"

record origin_conn =
  oc_sock :: sock
  oc_inbuf :: bytes
  oc_rearm_ok :: bool

section \<open>handle\<close>

lemma recv_upto_left:
  "recv_upto n s = (Inr bs, s') \<Longrightarrow> bs \<noteq> [] \<Longrightarrow> 0 < n \<Longrightarrow> rx_left s' < rx_left s"
  "recv_upto n s = (Inl EINTR, s') \<Longrightarrow> rx_left s' < rx_left s"
  by (auto simp: recv_upto_def rx_left_def split: list.splits recv_answer.splits if_splits)

text \<open>The first loop; \<open>None\<close> means that the connection failed, \<open>Some\<close> carries
  \<open>peer_closed\<close>.\<close>

function origin_drain :: "origin_conn \<Rightarrow> bool option \<times> origin_conn" where
  "origin_drain c =
     (case recv_upto 8192 (oc_sock c) of
        (Inr bs, s) \<Rightarrow>
          if bs \<noteq> [] then origin_drain (c\<lparr>oc_sock := s, oc_inbuf := oc_inbuf c @ bs\<rparr>)
          else (Some True, c\<lparr>oc_sock := s\<rparr>)
      | (Inl e, s) \<Rightarrow>
          if e = EINTR then origin_drain (c\<lparr>oc_sock := s\<rparr>)
          else if e = EAGAIN then (Some False, c\<lparr>oc_sock := s\<rparr>)
          else (None, c\<lparr>oc_sock := s\<rparr>))"
  by pat_completeness auto
termination
  by (relation "measure (\<lambda>c. rx_left (oc_sock c))") (auto dest!: recv_upto_left [OF sym])

declare origin_drain.simps [simp del]

definition target_between :: "bytes \<Rightarrow> bytes" where
  "target_between head =
     (case str_find head '' '' 0 of
        None \<Rightarrow> ''/''
      | Some sp1 \<Rightarrow>
          (case str_find head '' '' (sp1 + 1) of
             None \<Rightarrow> ''/''
           | Some sp2 \<Rightarrow> substr head (sp1 + 1) (sp2 - sp1 - 1)))"

text \<open>Padded with \<open>x\<close> or cut to the configured size.\<close>

definition origin_body :: "nat \<Rightarrow> bytes \<Rightarrow> bytes" where
  "origin_body n path =
     (let body = ''origin-response path='' @ path @ '' '' in
      take n (body @ replicate (n - length body) (CHR ''x'')))"

definition origin_response :: "bool \<Rightarrow> bytes \<Rightarrow> bytes" where
  "origin_response keep body =
     ''HTTP/1.1 200 OK'' @ crlf @
     ''Content-Type: text/plain'' @ crlf @
     ''Content-Length: '' @ nat_str (length body) @ crlf @
     ''Cache-Control: max-age=60'' @ crlf @
     ''Connection: '' @ (if keep then ''keep-alive'' else ''close'') @ crlf @
     crlf @ body"

text \<open>The second loop: one response for every header block in the buffer. The result says
  whether the connection is still open.\<close>

function origin_serve :: "origin \<Rightarrow> origin_conn \<Rightarrow> bool \<Rightarrow> bool \<times> origin \<times> origin_conn" where
  "origin_serve og c client_wants_close =
     (case str_find (oc_inbuf c) (crlf @ crlf) 0 of
        None \<Rightarrow> (True, og, c)
      | Some hend \<Rightarrow>
          let head = substr (oc_inbuf c) 0 hend;
              c = c\<lparr>oc_inbuf := drop (hend + 4) (oc_inbuf c)\<rparr>;
              path = target_between head;
              client_wants_close = (client_wants_close \<or> str_contains (to_lower head) ''connection: close'');
              body = origin_body (og_body_size og) path;
              keep = (og_keep_alive og \<and> \<not> client_wants_close);
              resp = origin_response keep body;
              og = og\<lparr>og_requests := og_requests og + 1\<rparr>;
              (sent, s) = origin_send_all resp (oc_sock c);
              c = c\<lparr>oc_sock := s\<rparr> in
          if \<not> sent then (False, og, c)
          else if \<not> keep then (False, og, c)
          else origin_serve og c client_wants_close)"
  by pat_completeness auto
termination
proof (relation "measure (\<lambda>(og, c, w). length (oc_inbuf c))", goal_cases)
  case (2 og c w hend)
  then have "str_find (oc_inbuf c) (crlf @ crlf) 0 = Some hend" by simp
  from str_find_SomeD(2) [OF this] 2 show ?case by auto
qed simp

declare origin_serve.simps [simp del]

definition origin_handle :: "origin \<Rightarrow> origin_conn \<Rightarrow> conn_state \<times> origin \<times> origin_conn" where
  "origin_handle og c =
     (case origin_drain c of
        (None, c) \<Rightarrow> (Closed, og, c)
      | (Some peer_closed, c) \<Rightarrow>
          (case origin_serve og c False of
             (still_open, og, c) \<Rightarrow>
               if \<not> still_open then (Closed, og, c)
               else if peer_closed then (Closed, og, c)
               else if oc_rearm_ok c then (Armed, og, c) else (Closed, og, c)))"

section \<open>The command line\<close>

fun origin_options :: "bytes list \<Rightarrow> int \<times> int \<times> u64 \<times> bool \<Rightarrow> (int \<times> int \<times> u64 \<times> bool) option" where
  "origin_options [] opt = Some opt"
| "origin_options (a # rest) (port, workers, size_b, keep) =
     (if a = ''-p'' \<and> rest \<noteq> [] then origin_options (tl rest) (atoi (hd rest), workers, size_b, keep)
      else if a = ''-w'' \<and> rest \<noteq> [] then origin_options (tl rest) (port, atoi (hd rest), size_b, keep)
      else if a = ''-b'' \<and> rest \<noteq> [] then origin_options (tl rest) (port, workers, of_int (fst (strtol (c_str (hd rest)))), keep)
      else if a = ''--close'' then origin_options rest (port, workers, size_b, False)
      else None)"

definition origin_args :: "bytes list \<Rightarrow> (int \<times> int \<times> u64 \<times> bool) option" where
  "origin_args args = origin_options args (19000, 8, 512, True)"

section \<open>The response\<close>

definition origin_fields :: "bool \<Rightarrow> bytes \<Rightarrow> (bytes \<times> bytes) list" where
  "origin_fields keep body = [(''Content-Type'', ''text/plain''), (''Content-Length'', nat_str (length body)),
     (''Cache-Control'', ''max-age=60''), (''Connection'', if keep then ''keep-alive'' else ''close'')]"

lemma origin_response_print:
  "origin_response keep body = print_response ''HTTP/1.1'' 200 ''OK'' (origin_fields keep body) @ body"
proof -
  have "nat_str 200 = ''200''" by code_simp
  then show ?thesis
    by (simp add: origin_response_def print_response_def response_lines_def origin_fields_def header_line_def)
qed

lemma origin_body_length [simp]: "length (origin_body n path) = n"
  by (simp add: origin_body_def Let_def)

lemma origin_fields_ok: "response_printable ''HTTP/1.1'' 200 ''OK'' (origin_fields keep body)"
proof -
  have "field_ok (''Content-Type'', ''text/plain'')" "field_ok (''Cache-Control'', ''max-age=60'')"
    "field_ok (''Connection'', ''keep-alive'')" "field_ok (''Connection'', ''close'')" "word_ok ''HTTP/1.1''"
    "token ''Content-Length''" by code_simp+
  moreover have "field_ok (''Content-Length'', nat_str (length body))"
    using \<open>token ''Content-Length''\<close> nat_str_free [of CR "length body"] nat_str_free [of LF "length body"]
    by (simp add: field_ok_def trim_nat_str)
  ultimately show ?thesis by (auto simp: response_printable_def origin_fields_def)
qed

lemma origin_fields_values:
  "last_value (origin_fields keep body) ''content-length'' = Some (nat_str (length body))"
  "last_value (origin_fields keep body) ''cache-control'' = Some ''max-age=60''"
  "last_value (origin_fields keep body) ''transfer-encoding'' = None"
  "last_value (origin_fields keep body) ''set-cookie'' = None"
proof -
  have l: "to_lower ''Content-Type'' = ''content-type''" "to_lower ''Content-Length'' = ''content-length''"
    "to_lower ''Cache-Control'' = ''cache-control''" "to_lower ''Connection'' = ''connection''" by code_simp+
  show "last_value (origin_fields keep body) ''content-length'' = Some (nat_str (length body))"
    "last_value (origin_fields keep body) ''cache-control'' = Some ''max-age=60''"
    "last_value (origin_fields keep body) ''transfer-encoding'' = None"
    "last_value (origin_fields keep body) ''set-cookie'' = None"
    by (simp_all add: last_value_def field_values_def origin_fields_def l)
qed

lemma origin_framed:
  assumes "length body < 2 ^ 63"
  shows "well_framed (origin_fields keep body) body"
  using assms by (simp add: well_framed_def says_chunked_def origin_fields_values LONG_MAX_def)

lemma origin_cacheable:
  assumes "cacheable_request req"
  shows "is_cacheable req (parse_response_headers (origin_response keep body))"
proof -
  have "\<not> forbids_caching ''max-age=60''" by code_simp
  with response_head_facts [OF origin_fields_ok, of keep body body "''cache-control''"]
    response_head_facts [OF origin_fields_ok, of keep body body "''set-cookie''"] assms
  show ?thesis
    by (simp add: is_cacheable_conj cacheable_request_def origin_response_print origin_fields_values)
qed

text \<open>Proxy and origin fit together. Whatever the origin answers (any path, body size and
  keep-alive mode within the proxy's limits), cut into segments in any way and with
  interruptions: the proxy's fetch succeeds with exactly the bytes of the origin's response and
  status 200, takes nothing of what follows, and the response is cacheable for every GET and
  HEAD without credentials.\<close>

theorem origin_response_fetched:
  assumes "length (origin_response keep (origin_body n path)) \<le> opt_max_body_bytes opt"
    and "length (origin_response keep (origin_body n path)) \<le> opt_max_header_bytes opt + n"
    and "length (origin_response keep (origin_body n path)) < 2 ^ 63"
    and "ue_dns env = 0" "ue_socket env = None" "ue_connect env = None" "fst (send_all request_bytes (ue_sock env))"
    and "sk_rx (ue_sock env) = pre @ rest" "\<forall>a \<in> set pre. calm a"
    and "concat (map answer_bytes pre) = origin_response keep (origin_body n path)"
    and "cacheable_request req"
  shows "fst (fetch_upstream opt msg env request_bytes) =
      \<lparr>ur_raw = origin_response keep (origin_body n path), ur_status = 200, ur_ok = True, ur_error = []\<rparr> \<and>
    rx_bytes (snd (snd (fetch_upstream opt msg env request_bytes))) = concat (map answer_bytes rest) \<and>
    is_cacheable req (parse_response_headers (origin_response keep (origin_body n path)))"
proof -
  let ?body = "origin_body n path"
  let ?head = "print_response ''HTTP/1.1'' 200 ''OK'' (origin_fields keep ?body)"
  note P = origin_response_print [of keep ?body]
  have len: "length ?head + n = length (origin_response keep ?body)" by (simp add: P)
  have fits: "fits opt ?head ?body" using assms(1,2) len by (simp add: fits_def)
  have "length ?body < 2 ^ 63" using assms(3) len by simp
  note framed = origin_framed [OF this, of keep]
  have short: "length (?head @ ?body) < 2 ^ 63" using assms(3) len by simp
  from fetch_message [OF origin_fields_ok framed fits short assms(4-9) assms(10) [unfolded P], of msg]
    origin_cacheable [OF assms(11), of keep ?body]
  show ?thesis by (simp add: P)
qed

theorem origin_response_fetched_witness:
  "ur_raw (fst (fetch_upstream new_options \<lparr>msg_errno = (\<lambda>_. []), msg_gai = (\<lambda>_. [])\<rparr>
     (demo_env [Recv (take 20 (origin_response True (origin_body 30 ''/''))), Recv_fail EINTR,
       Recv (drop 20 (origin_response True (origin_body 30 ''/'')))]) ''x'')) = origin_response True (origin_body 30 ''/'')"
proof -
  let ?r = "origin_response True (origin_body 30 ''/'')"
  let ?pre = "[Recv (take 20 ?r), Recv_fail EINTR, Recv (drop 20 ?r)]"
  have len: "length ?r = 146" by code_simp
  then have bounds: "length ?r \<le> opt_max_body_bytes new_options" "length ?r \<le> opt_max_header_bytes new_options + 30"
    "length ?r < 2 ^ 63" by (simp_all add: new_options_def)
  have "take 20 ?r \<noteq> []" "drop 20 ?r \<noteq> []" using len by auto
  then have calm: "\<forall>a \<in> set ?pre. calm a" by simp
  have env: "ue_dns (demo_env ?pre) = 0" "ue_socket (demo_env ?pre) = None" "ue_connect (demo_env ?pre) = None"
    "sk_rx (ue_sock (demo_env ?pre)) = ?pre @ []" by (simp_all add: demo_env_def)
  have cat: "concat (map answer_bytes ?pre) = ?r" by simp
  from origin_response_fetched [OF bounds env(1-3) demo_facts(4) env(4) calm cat relay_facts(1),
      of "\<lparr>msg_errno = (\<lambda>_. []), msg_gai = (\<lambda>_. [])\<rparr>"]
  show ?thesis by simp
qed

text \<open>The body tells the paths apart. As the comment in the code promises, responses to
  different targets differ (so a cache that replayed one for the other would be caught), as
  long as the configured body size leaves room for the target.\<close>

theorem origin_bodies_differ:
  assumes "p \<noteq> q" "CHR '' '' \<notin> set p" "CHR '' '' \<notin> set q" "length p + 22 \<le> n" "length q + 22 \<le> n"
  shows "origin_body n p \<noteq> origin_body n q"
proof
  assume eq: "origin_body n p = origin_body n q"
  have b: "origin_body n r = ''origin-response path='' @ r @ '' '' @ replicate (n - (length r + 22)) (CHR ''x'')"
    if "length r + 22 \<le> n" for r
    using that by (simp add: origin_body_def Let_def)
  have "p @ CHR '' '' # replicate (n - (length p + 22)) (CHR ''x'') = q @ CHR '' '' # replicate (n - (length q + 22)) (CHR ''x'')"
    using eq b [OF assms(4)] b [OF assms(5)] by simp
  then have "takeWhile (\<lambda>c. c \<noteq> CHR '' '') (p @ CHR '' '' # replicate (n - (length p + 22)) (CHR ''x'')) =
      takeWhile (\<lambda>c. c \<noteq> CHR '' '') (q @ CHR '' '' # replicate (n - (length q + 22)) (CHR ''x''))" by simp
  moreover have "takeWhile (\<lambda>c. c \<noteq> CHR '' '') (r @ CHR '' '' # z) = r" if "CHR '' '' \<notin> set r" for r z
    using that by (induction r) auto
  ultimately show False using assms(1-3) by simp
qed

theorem origin_bodies_differ_witness: "origin_body 512 ''/a'' \<noteq> origin_body 512 ''/b''"
  by (rule origin_bodies_differ) simp_all

section \<open>Pipelined requests\<close>

definition origin_reply :: "origin \<Rightarrow> bytes \<Rightarrow> bytes" where
  "origin_reply og head = origin_response (og_keep_alive og \<and> \<not> str_contains (to_lower head) ''connection: close'')
     (origin_body (og_body_size og) (target_between head))"

definition whole_head :: "bytes \<Rightarrow> bool" where
  "whole_head h \<longleftrightarrow> str_find (h @ crlf @ crlf) (crlf @ crlf) 0 = Some (length h)"

lemma origin_serve_head:
  assumes "oc_inbuf c = h @ crlf @ crlf @ rest" "whole_head h"
    and "origin_send_all (origin_reply og h) (oc_sock c) = (sent, s)"
  shows "origin_serve og c False =
    (let og1 = og\<lparr>og_requests := og_requests og + 1\<rparr>; c1 = c\<lparr>oc_inbuf := rest, oc_sock := s\<rparr> in
     if sent \<and> og_keep_alive og \<and> \<not> str_contains (to_lower h) ''connection: close'' then origin_serve og1 c1 False
     else (False, og1, c1))"
proof -
  have "str_find ((h @ crlf @ crlf) @ rest) (crlf @ crlf) 0 = Some (length h)"
    by (rule str_find_append [OF assms(2) [unfolded whole_head_def]]) simp
  then have f: "str_find (oc_inbuf c) (crlf @ crlf) 0 = Some (length h)" by (simp add: assms(1))
  have "substr (oc_inbuf c) 0 (length h) = h" "drop (length h + 4) (oc_inbuf c) = rest"
    by (simp_all add: assms(1) substr_def)
  with f assms(3) show ?thesis
    by (subst origin_serve.simps) (auto simp: origin_reply_def Let_def)
qed

text \<open>C31: The origin answers a pipeline in order. If the buffer holds any number of complete
  request heads, none of which asks to close, and everything can be sent, the origin sends the
  response to each, in the order of the requests, counts them, keeps the connection and leaves
  what is not yet complete in the buffer.\<close>

theorem origin_answers_pipeline:
  assumes "\<forall>h \<in> set heads. whole_head h \<and> \<not> str_contains (to_lower h) ''connection: close''" "og_keep_alive og"
    and "oc_inbuf c = concat (map (\<lambda>h. h @ crlf @ crlf) heads) @ partial" "str_find partial (crlf @ crlf) 0 = None"
    and "fst (origin_sender.transmit_each (map (origin_reply og) heads) (oc_sock c))"
  shows "\<exists>s. origin_serve og c False = (True, og\<lparr>og_requests := og_requests og + of_nat (length heads)\<rparr>,
      c\<lparr>oc_inbuf := partial, oc_sock := s\<rparr>) \<and>
    sk_wire s = sk_wire (oc_sock c) @ concat (map (origin_reply og) heads)"
proof -
  obtain sent s where t: "origin_sender.transmit_each (map (origin_reply og) heads) (oc_sock c) = (sent, s)" by fastforce
  have "origin_serve og c False = (True, og\<lparr>og_requests := og_requests og + of_nat (length heads)\<rparr>,
      c\<lparr>oc_inbuf := partial, oc_sock := s\<rparr>)"
    using assms t
  proof (induction heads arbitrary: og c)
    case Nil
    then show ?case by (subst origin_serve.simps) simp
  next
    case (Cons h heads)
    obtain sent1 s1 where s1: "origin_send_all (origin_reply og h) (oc_sock c) = (sent1, s1)" by fastforce
    let ?og = "og\<lparr>og_requests := og_requests og + 1\<rparr>" and ?c = "c\<lparr>oc_inbuf := concat (map (\<lambda>h. h @ crlf @ crlf) heads) @ partial, oc_sock := s1\<rparr>"
    have r: "origin_reply ?og = origin_reply og" by (simp add: origin_reply_def fun_eq_iff)
    have sent1: sent1 using Cons.prems(5,6) s1 by (cases sent1) simp_all
    have "origin_serve og c False = origin_serve ?og ?c False"
      using origin_serve_head [OF _ _ s1, of "concat (map (\<lambda>h. h @ crlf @ crlf) heads) @ partial"] Cons.prems(1-3) sent1
      by (simp add: Let_def)
    also have "\<dots> = (True, ?og\<lparr>og_requests := og_requests ?og + of_nat (length heads)\<rparr>, ?c\<lparr>oc_inbuf := partial, oc_sock := s\<rparr>)"
      using Cons.prems s1 sent1 by (intro Cons.IH) (simp_all add: r)
    finally show ?case by (simp add: add.assoc)
  qed
  moreover obtain m where "sk_wire s = sk_wire (oc_sock c) @ take m (concat (map (origin_reply og) heads))"
    "m = length (concat (map (origin_reply og) heads))"
    using origin_sender.each_exact [of "map (origin_reply og) heads" "oc_sock c"] t assms(5) by auto
  ultimately show ?thesis by (intro exI [of _ s]) simp
qed

theorem origin_answers_pipeline_witness:
  "\<exists>s. origin_serve new_origin \<lparr>oc_sock = \<lparr>sk_rx = [], sk_tx = [Sent 999, Sent 999], sk_poll = [], sk_wire = [], sk_errno = EAGAIN\<rparr>,
       oc_inbuf = concat (map (\<lambda>h. h @ crlf @ crlf) [''GET /a '', ''GET /b '']) @ ''GE'', oc_rearm_ok = True\<rparr> False =
     (True, new_origin\<lparr>og_requests := 2\<rparr>, \<lparr>oc_sock = s, oc_inbuf = ''GE'', oc_rearm_ok = True\<rparr>) \<and>
     sk_wire s = concat (map (origin_reply new_origin) [''GET /a '', ''GET /b ''])"
proof -
  let ?heads = "[''GET /a '', ''GET /b '']"
  let ?s = "\<lparr>sk_rx = [], sk_tx = [Sent 999, Sent 999], sk_poll = [], sk_wire = [], sk_errno = EAGAIN\<rparr>"
  let ?c = "\<lparr>oc_sock = ?s, oc_inbuf = concat (map (\<lambda>h. h @ crlf @ crlf) ?heads) @ ''GE'', oc_rearm_ok = True\<rparr>"
  have "whole_head ''GET /a ''" "whole_head ''GET /b ''" "\<not> str_contains (to_lower ''GET /a '') ''connection: close''"
    "\<not> str_contains (to_lower ''GET /b '') ''connection: close''" unfolding whole_head_def by code_simp+
  then have heads: "\<forall>h \<in> set ?heads. whole_head h \<and> \<not> str_contains (to_lower h) ''connection: close''" by simp
  have "length (origin_reply new_origin ''GET /a '') = 629" "length (origin_reply new_origin ''GET /b '') = 629" by code_simp+
  then have sent: "fst (origin_sender.transmit_each (map (origin_reply new_origin) ?heads) (oc_sock ?c))"
    by (simp add: origin_send_all_def origin_send_loop.simps sys_send_def)
  have keep: "og_keep_alive new_origin" and none: "str_find ''GE'' (crlf @ crlf) 0 = None" by code_simp+
  have buf: "oc_inbuf ?c = concat (map (\<lambda>h. h @ crlf @ crlf) ?heads) @ ''GE''" by simp
  from origin_answers_pipeline [OF heads keep buf none sent] show ?thesis
    by (simp add: new_origin_def)
qed

end
