(* ===== verification/Early_Servers.thy ===== *)
theory Early_Servers
  imports Phase4_Cache Origin_Server Task_Queue
begin

text \<open>
  The four servers that came before: \<open>src/server_base_version.cpp\<close> (one client, a greeting),
  \<open>src/server_phase2.cpp\<close> (a thread per client), \<open>src/server_phase3.cpp\<close> (a thread pool
  behind epoll) and \<open>src/server_phase4.cpp\<close> (the same with a cache in front of a simulated
  upstream). Their handlers read with one \<open>recv\<close> and answer with one \<open>send\<close>; what that
  costs is stated exactly. Their task queues are in \<open>Task_Queue\<close> and their condition
  variables in \<open>Wakeups\<close>.
\<close>

section \<open>The base version\<close>

lemma sys_send_rx_left: "sys_send data s = (r, s') \<Longrightarrow> rx_left s' = rx_left s"
  by (auto simp: sys_send_def rx_left_def Let_def split: list.splits send_answer.splits)

text \<open>The loop over one client: the exit status and what goes to standard output.\<close>

function base_loop :: "bytes \<Rightarrow> int \<Rightarrow> sock \<Rightarrow> int \<times> bytes \<times> sock" where
  "base_loop client_ip remote_port s =
     (case recv_upto 1023 s of
        (Inl e, s') \<Rightarrow> (1, [], s')
      | (Inr bs, s') \<Rightarrow>
          if bs = [] then
            (0, ''Client at '' @ client_ip @ '':'' @ int_str remote_port @ '' disconnected. '' @ [LF] @
               ''Shutting down the server. '' @ [LF], s')
          else
            let buffer = (if last bs = LF then butlast bs else bs);
                received = ''Received '' @ nat_str (length bs) @ '' bytes, Message reads : '' @ [CHR 0x22] @ c_str buffer @ [CHR 0x22, LF];
                response = ''Hello client at '' @ client_ip @ '':'' @ int_str remote_port @ '', We have received your message.'' @ [LF] in
            (case sys_send response s' of
               (Inl e, s'') \<Rightarrow> (1, received, s'')
             | (Inr n, s'') \<Rightarrow>
                 (case base_loop client_ip remote_port s'' of
                    (status, out, t) \<Rightarrow> (status, received @ ''Sent '' @ nat_str n @ '' bytes back to the client. '' @ [LF] @ out, t))))"
  by pat_completeness auto
termination
  by (relation "measure (\<lambda>(ip, p, s). rx_left s)") (auto dest!: recv_upto_left(1) [OF sym] sys_send_rx_left [OF sym])

declare base_loop.simps [simp del]

section \<open>Phase 2\<close>

definition hello_response :: bytes where
  "hello_response = ''HTTP/1.1 200 OK'' @ crlf @ ''Content-Type: text/plain'' @ crlf @ ''Content-Length: 13'' @ crlf @
     crlf @ ''Hello, World!''"

function client_loop :: "bytes \<Rightarrow> sock \<Rightarrow> bytes \<times> sock" where
  "client_loop peer s =
     (case recv_upto 1023 s of
        (Inl e, s') \<Rightarrow> ([], s')
      | (Inr bs, s') \<Rightarrow>
          if bs = [] then (''Client at '' @ peer @ '' disconnected.'' @ [LF], s')
          else
            let received = ''Received '' @ nat_str (length bs) @ '' bytes. Message: '' @ [CHR 0x22] @ c_str bs @ [CHR 0x22, LF] in
            (case sys_send hello_response s' of
               (Inl e, s'') \<Rightarrow> (received, s'')
             | (Inr n, s'') \<Rightarrow>
                 (case client_loop peer s'' of
                    (out, t) \<Rightarrow> (received @ ''Sent '' @ nat_str n @ '' bytes back to the client at '' @ peer @ [LF] @ out, t))))"
  by pat_completeness auto
termination
  by (relation "measure (\<lambda>(peer, s). rx_left s)") (auto dest!: recv_upto_left(1) [OF sym] sys_send_rx_left [OF sym])

declare client_loop.simps [simp del]

definition handle_client :: "bytes \<Rightarrow> int \<Rightarrow> sock \<Rightarrow> bytes \<times> sock" where
  "handle_client client_ip remote_port s =
     (let peer = client_ip @ '':'' @ int_str remote_port in
      case client_loop peer s of (out, t) \<Rightarrow> (''Connection accepted from '' @ peer @ [LF] @ out, t))"

section \<open>Phase 3\<close>

definition p3_build_response :: "bytes \<Rightarrow> bytes" where
  "p3_build_response body =
     ''HTTP/1.1 200 OK'' @ crlf @ ''Content-Type: text/plain'' @ crlf @ ''Content-Length: '' @ nat_str (length body) @ crlf @
     ''Connection: keep-alive'' @ crlf @ crlf @ body"

text \<open>Whether the descriptor was closed, standard output and the socket.\<close>

definition p3_handle_request :: "bytes \<Rightarrow> sock \<Rightarrow> bool \<times> bytes \<times> sock" where
  "p3_handle_request client_ip s =
     (case recv_upto 4095 s of
        (Inl e, s) \<Rightarrow> (True, [], s)
      | (Inr bs, s) \<Rightarrow>
          if bs = [] then (True, [], s)
          else
            let request = c_str bs;
                first_line = (case str_find request crlf 0 of Some n \<Rightarrow> substr request 0 n | None \<Rightarrow> request);
                out = ''['' @ client_ip @ ''] '' @ first_line @ [LF];
                response = p3_build_response (''Hello from thread pool server!'' @ [LF]) in
            (False, out, snd (sys_send response s)))"

section \<open>Phase 4\<close>

definition p4_build_response :: "bytes \<Rightarrow> bytes" where
  "p4_build_response body =
     ''HTTP/1.1 200 OK'' @ crlf @ ''Content-Type: text/plain'' @ crlf @ ''Content-Length: '' @ nat_str (length body) @ crlf @
     ''Connection: keep-alive'' @ crlf @ crlf @ body"

definition extract_path :: "bytes \<Rightarrow> bytes" where
  "extract_path request =
     (case str_find request '' '' 0 of
        None \<Rightarrow> ''/''
      | Some start \<Rightarrow>
          (case str_find request '' '' (start + 1) of
             None \<Rightarrow> ''/''
           | Some stop \<Rightarrow> substr request (start + 1) (stop - start - 1)))"

text \<open>\<open>now\<close> is the count of ticks the clock shows.\<close>

definition fetch_from_upstream :: "int \<Rightarrow> bytes \<Rightarrow> bytes" where
  "fetch_from_upstream now path = ''Response for: '' @ path @ '' (fetched at '' @ int_str now @ '')'' @ [LF]"

text \<open>The handler always closes the descriptor. \<open>None\<close>: the cache operation is undefined.\<close>

definition p4_handle_request :: "int \<Rightarrow> sock \<Rightarrow> (bytes, bytes) rw_lru \<Rightarrow> (sock \<times> (bytes, bytes) rw_lru) option" where
  "p4_handle_request now s response_cache =
     (case recv_upto 4095 s of
        (Inl e, s) \<Rightarrow> Some (s, response_cache)
      | (Inr bs, s) \<Rightarrow>
          if bs = [] then Some (s, response_cache)
          else
            let path = extract_path bs in
            (case (case rw_get response_cache path of
                     (Some cached, c) \<Rightarrow> Some (cached @ '' [CACHE HIT]'', c)
                   | (None, c) \<Rightarrow>
                       (let body = fetch_from_upstream now path in
                        map_option (\<lambda>c. (body @ '' [CACHE MISS]'', c)) (rw_put c path body))) of
               None \<Rightarrow> None
             | Some (body, c) \<Rightarrow> Some (snd (sys_send (p4_build_response body) s), c)))"

section \<open>The event loops of phases 3 and 4\<close>

text \<open>The descriptors registered with epoll, those waiting in the queue, those a worker has.\<close>

record early_loop =
  el_watched :: "nat list"
  el_queue :: "nat queue3"
  el_active :: "nat list"

definition start_early :: early_loop where
  "start_early = \<lparr>el_watched = [], el_queue = new_queue3, el_active = []\<rparr>"

definition early_accept :: "nat \<Rightarrow> early_loop \<Rightarrow> early_loop" where
  "early_accept client_fd st = st\<lparr>el_watched := client_fd # el_watched st\<rparr>"

text \<open>Phase 3 leaves the descriptor registered, phase 4 removes it first.\<close>

definition p3_dispatch :: "nat \<Rightarrow> early_loop \<Rightarrow> early_loop" where
  "p3_dispatch fd st = st\<lparr>el_queue := q3_push fd (el_queue st)\<rparr>"

definition p4_dispatch :: "nat \<Rightarrow> early_loop \<Rightarrow> early_loop" where
  "p4_dispatch fd st =
     (let st = st\<lparr>el_watched := filter (\<lambda>x. x \<noteq> fd) (el_watched st)\<rparr> in
      st\<lparr>el_queue := q3_push fd (el_queue st)\<rparr>)"

definition early_take :: "early_loop \<Rightarrow> early_loop" where
  "early_take st = (case q3_pop (el_queue st) of
     Some (Some fd, q) \<Rightarrow> st\<lparr>el_queue := q, el_active := fd # el_active st\<rparr>
   | _ \<Rightarrow> st)"

text \<open>A handler returns; a descriptor it closed leaves the set of epoll with it.\<close>

definition early_finish :: "nat \<Rightarrow> bool \<Rightarrow> early_loop \<Rightarrow> early_loop" where
  "early_finish fd closes st =
     (let st = st\<lparr>el_active := remove1 fd (el_active st)\<rparr> in
      if closes then st\<lparr>el_watched := filter (\<lambda>x. x \<noteq> fd) (el_watched st)\<rparr> else st)"

text \<open>The kernel reports only registered descriptors and hands out only descriptors that are
  not open; \<open>dispatch\<close> is the loop's and \<open>closes\<close> tells whether its handler may close.\<close>

inductive early_reachable :: "(nat \<Rightarrow> early_loop \<Rightarrow> early_loop) \<Rightarrow> (bool \<Rightarrow> bool) \<Rightarrow> early_loop \<Rightarrow> bool"
  for dispatch_fd may_close where
  started: "early_reachable dispatch_fd may_close start_early"
| accepted: "early_reachable dispatch_fd may_close st \<Longrightarrow>
    fd \<notin> set (el_watched st @ q3_tasks (el_queue st) @ el_active st) \<Longrightarrow>
    early_reachable dispatch_fd may_close (early_accept fd st)"
| dispatched: "early_reachable dispatch_fd may_close st \<Longrightarrow> fd \<in> set (el_watched st) \<Longrightarrow>
    early_reachable dispatch_fd may_close (dispatch_fd fd st)"
| taken: "early_reachable dispatch_fd may_close st \<Longrightarrow> early_reachable dispatch_fd may_close (early_take st)"
| finished: "early_reachable dispatch_fd may_close st \<Longrightarrow> fd \<in> set (el_active st) \<Longrightarrow> may_close closes \<Longrightarrow>
    early_reachable dispatch_fd may_close (early_finish fd closes st)"

lemma p4_single_owner:
  "early_reachable p4_dispatch may_close st \<Longrightarrow> distinct (el_watched st @ q3_tasks (el_queue st) @ el_active st)"
proof (induction rule: early_reachable.induct)
  case (taken st)
  then show ?case by (cases "q3_tasks (el_queue st)") (auto simp: early_take_def q3_pop_def)
qed (auto simp: start_early_def new_queue3_def early_accept_def p4_dispatch_def q3_push_def early_finish_def Let_def distinct_remove1)

text \<open>In phase 4 a connection is in one place. However accepts, readiness reports, workers
  and handlers interleave, a descriptor is registered with epoll, or waiting in the queue, or
  held by one worker, and never twice: removing it before the dispatch is what ensures it.\<close>

theorem phase4_one_owner:
  assumes "early_reachable p4_dispatch (\<lambda>closes. closes) st"
  shows "distinct (el_watched st @ q3_tasks (el_queue st) @ el_active st)"
  by (rule p4_single_owner [OF assms])

theorem phase4_one_owner_witness:
  "distinct (el_watched (early_take (p4_dispatch 5 (early_accept 5 start_early))) @
     q3_tasks (el_queue (early_take (p4_dispatch 5 (early_accept 5 start_early)))) @
     el_active (early_take (p4_dispatch 5 (early_accept 5 start_early))))"
proof (rule phase4_one_owner)
  have "early_reachable p4_dispatch (\<lambda>closes. closes) (early_accept 5 start_early)"
    by (intro accepted started) (simp add: start_early_def new_queue3_def)
  then show "early_reachable p4_dispatch (\<lambda>closes. closes) (early_take (p4_dispatch 5 (early_accept 5 start_early)))"
    by (intro taken dispatched) (simp_all add: early_accept_def)
qed

text \<open>A finding. Phase 3 leaves the descriptor registered while a worker has it, so new
  data dispatches it again: two workers can run the handler on one connection at once, and
  one can close the descriptor under the other.\<close>

theorem phase3_two_workers_on_one_connection:
  "\<exists>st. early_reachable p3_dispatch (\<lambda>_. True) st \<and> el_active st = [5, 5] \<and>
     early_reachable p3_dispatch (\<lambda>_. True) (early_finish 5 True st) \<and> el_active (early_finish 5 True st) = [5] \<and>
     5 \<notin> set (el_watched (early_finish 5 True st))"
proof -
  define st where "st = early_take (early_take (p3_dispatch 5 (p3_dispatch 5 (early_accept 5 start_early))))"
  have "early_reachable p3_dispatch (\<lambda>_. True) (early_accept 5 start_early)"
    by (intro accepted started) (simp add: start_early_def new_queue3_def)
  then have r: "early_reachable p3_dispatch (\<lambda>_. True) st"
    unfolding st_def by (intro taken dispatched) (simp_all add: early_accept_def p3_dispatch_def)
  moreover have a: "el_active st = [5, 5]" "el_active (early_finish 5 True st) = [5]"
    "5 \<notin> set (el_watched (early_finish 5 True st))" unfolding st_def by code_simp+
  ultimately show ?thesis using finished [OF r, of 5 True] by (intro exI [of _ st]) simp
qed

section \<open>What one recv and one send do\<close>

text \<open>Phase 2 answers segments. For any data cut in any way into segments of at most 1023
  bytes, when every send takes the whole response, the client gets one greeting for every
  segment: a request that arrives in two pieces is answered twice, two that arrive in one
  piece once.\<close>

theorem phase2_answers_every_segment:
  assumes "\<forall>bs \<in> set segs. bs \<noteq> [] \<and> length bs \<le> 1023"
  shows "sk_wire (snd (handle_client client_ip remote_port
      (s\<lparr>sk_rx := map Recv segs @ [Recv []], sk_tx := replicate (length segs) (Sent (length hello_response)) @ later\<rparr>))) =
    sk_wire s @ concat (replicate (length segs) hello_response)"
proof -
  have "sk_wire (snd (client_loop peer
      (s\<lparr>sk_rx := map Recv segs @ [Recv []], sk_tx := replicate (length segs) (Sent (length hello_response)) @ later\<rparr>))) =
    sk_wire s @ concat (replicate (length segs) hello_response)" for peer
    using assms
  proof (induction segs arbitrary: s)
    case Nil
    show ?case by (subst client_loop.simps) (simp add: recv_upto_def)
  next
    case (Cons b segs)
    let ?s = "s\<lparr>sk_wire := sk_wire s @ hello_response\<rparr>"
    have "snd (client_loop peer (s\<lparr>sk_rx := map Recv (b # segs) @ [Recv []],
        sk_tx := replicate (length (b # segs)) (Sent (length hello_response)) @ later\<rparr>)) =
      snd (client_loop peer (?s\<lparr>sk_rx := map Recv segs @ [Recv []],
        sk_tx := replicate (length segs) (Sent (length hello_response)) @ later\<rparr>))"
      using Cons.prems by (subst client_loop.simps, cases s) (simp add: recv_upto_def sys_send_def Let_def split: prod.split)
    with Cons.IH [of ?s] Cons.prems show ?case by simp
  qed
  then show ?thesis by (simp add: handle_client_def Let_def case_prod_unfold)
qed

theorem phase2_answers_every_segment_witness:
  "sk_wire (snd (handle_client ''127.0.0.1'' 4000
     (\<lparr>sk_rx = [], sk_tx = [], sk_poll = [], sk_wire = [], sk_errno = EAGAIN\<rparr>\<lparr>sk_rx := map Recv [''GET / HT'', ''TP/1.1''] @ [Recv []],
        sk_tx := replicate (length [''GET / HT'', ''TP/1.1'']) (Sent (length hello_response)) @ []\<rparr>))) =
   [] @ concat (replicate (length [''GET / HT'', ''TP/1.1'']) hello_response)"
  using phase2_answers_every_segment [of "[''GET / HT'', ''TP/1.1'']" "''127.0.0.1''" 4000
      "[]" "\<lparr>sk_rx = [], sk_tx = [], sk_poll = [], sk_wire = [], sk_errno = EAGAIN\<rparr>"] by simp

text \<open>A finding. Phase 3 registers its connections edge-triggered and reads each report once: when
  more than 4095 bytes have arrived, the rest stays in the socket after the handler returned,
  and epoll does not report it until the client sends more.\<close>

theorem phase3_leaves_bytes_unread:
  assumes "sk_rx s = Recv bs # later" "length bs > 4095"
  shows "\<exists>out s'. p3_handle_request client_ip s = (False, out, s') \<and> sk_rx s' = Recv (drop 4095 bs) # later"
proof -
  have "recv_upto 4095 s = (Inr (take 4095 bs), s\<lparr>sk_rx := Recv (drop 4095 bs) # later\<rparr>)" "take 4095 bs \<noteq> []"
    using assms by (auto simp: recv_upto_def)
  moreover have "sk_rx (snd (sys_send data t)) = sk_rx t" for data t
    by (simp add: sys_send_def Let_def split: list.split send_answer.split)
  ultimately show ?thesis by (simp add: p3_handle_request_def Let_def)
qed

lemma rw_get_same:
  assumes "same_cache c d" "lru_ok d"
  shows "fst (rw_get c k) = lru_look d k" "same_cache (snd (rw_get c k)) (snd (lru_get d k))"
proof -
  have "rw_get c k = rw_take c k"
    by (cases "rw_index c k") (simp_all add: rw_get_def rw_probe_def rw_take_def)
  then show "fst (rw_get c k) = lru_look d k" "same_cache (snd (rw_get c k)) (snd (lru_get d k))"
    using same_take [OF assms(1), of k] lru.get_answer [OF assms(2), of k] by simp_all
qed

lemma p4_handle:
  fixes now :: int
  assumes "same_cache c d" "lru_ok d" "recv_upto 4095 s = (Inr bs, s1)" "bs \<noteq> []"
  defines "body \<equiv> (case lru_look d (extract_path bs) of Some b \<Rightarrow> b | None \<Rightarrow> fetch_from_upstream now (extract_path bs))"
  shows "\<exists>c' d'. p4_handle_request now s c = Some (snd (sys_send (p4_build_response
        (body @ (if lru_look d (extract_path bs) = None then '' [CACHE MISS]'' else '' [CACHE HIT]''))) s1), c') \<and>
      same_cache c' d' \<and> lru_ok d' \<and> lru_look d' (extract_path bs) = Some body"
proof -
  let ?k = "extract_path bs"
  obtain a c1 where g: "rw_get c ?k = (a, c1)" by fastforce
  have a: "a = lru_look d ?k" "same_cache c1 (snd (lru_get d ?k))" using rw_get_same [OF assms(1,2), of ?k] g by simp_all
  note ok = lru.ok_get [OF assms(2), of ?k] and look = lru.look_get [OF assms(2), of ?k ?k]
  show ?thesis
  proof (cases a)
    case None
    obtain c2 where c2: "rw_put c1 ?k body = Some c2" "same_cache c2 (lru_put (snd (lru_get d ?k)) ?k body)"
      using same_put [OF a(2) ok, of ?k body] by blast
    moreover have "body = fetch_from_upstream now ?k" using None a(1) by (simp add: body_def)
    ultimately show ?thesis
      using None g a assms(3,4) lru.ok_put [OF ok, of ?k body] lru.look_put_same [OF ok, of ?k body]
      by (intro exI [of _ c2] exI [of _ "lru_put (snd (lru_get d ?k)) ?k body"]) (simp add: p4_handle_request_def Let_def)
  next
    case (Some b)
    then show ?thesis
      using g a assms(3,4) ok look
      by (intro exI [of _ c1] exI [of _ "snd (lru_get d ?k)"]) (simp add: p4_handle_request_def Let_def body_def)
  qed
qed

text \<open>The cache of phase 4 serves repeated paths. After any interleaving of cache
  operations, with a capacity other than 0: of two requests for one path handled one after the
  other, the second is answered from the cache with the body of the first, whatever the clock
  shows. The key is the path alone, so this holds for requests to different hosts too.\<close>

theorem phase4_second_request_hits:
  assumes "cap \<noteq> 0" "rw_run es (new_rw_lru cap) = Some (ops, answers, c)"
    and "recv_upto 4095 s = (Inr bs, s1)" "bs \<noteq> []" "recv_upto 4095 s' = (Inr bs', s1')" "bs' \<noteq> []"
    and "extract_path bs' = extract_path bs"
  shows "\<exists>body tag c1 c2. p4_handle_request now s c = Some (snd (sys_send (p4_build_response (body @ tag)) s1), c1) \<and>
      tag \<in> {'' [CACHE HIT]'', '' [CACHE MISS]''} \<and>
      p4_handle_request now' s' c1 = Some (snd (sys_send (p4_build_response (body @ '' [CACHE HIT]'')) s1'), c2)"
proof -
  have "same_cache (new_rw_lru cap) (new_lru cap :: (bytes, bytes) lru)"
    using assms(1) by (simp add: same_cache_def new_rw_lru_def new_lru_def)
  from same_run [OF this lru_ok_new, of es] assms(2)
  have same: "same_cache c (lru_run cap ops)" by (auto simp: lru_run_def)
  let ?d = "lru_run cap ops" and ?k = "extract_path bs"
  define body where "body = (case lru_look ?d ?k of Some b \<Rightarrow> b | None \<Rightarrow> fetch_from_upstream now ?k)"
  define tag where "tag = (if lru_look ?d ?k = None then '' [CACHE MISS]'' else '' [CACHE HIT]'')"
  obtain c1 d1 where one: "p4_handle_request now s c = Some (snd (sys_send (p4_build_response (body @ tag)) s1), c1)"
    "same_cache c1 d1" "lru_ok d1" "lru_look d1 ?k = Some body"
    using p4_handle [OF same lru_run_ok assms(3,4), of now] unfolding body_def tag_def by blast
  obtain c2 where "p4_handle_request now' s' c1 = Some (snd (sys_send (p4_build_response (body @ '' [CACHE HIT]'')) s1'), c2)"
    using p4_handle [OF one(2,3) assms(5,6), of now'] one(4) assms(7) by auto
  with one(1) show ?thesis by (intro exI [of _ body] exI [of _ tag] exI [of _ c1] exI [of _ c2]) (simp add: tag_def)
qed

theorem phase4_second_request_hits_witness:
  "\<exists>body tag c1 c2. p4_handle_request 1 \<lparr>sk_rx = [Recv ''GET /a HTTP/1.1''], sk_tx = [], sk_poll = [], sk_wire = [], sk_errno = EAGAIN\<rparr>
      (new_rw_lru 1000) = Some (snd (sys_send (p4_build_response (body @ tag))
        \<lparr>sk_rx = [], sk_tx = [], sk_poll = [], sk_wire = [], sk_errno = EAGAIN\<rparr>), c1) \<and>
      tag \<in> {'' [CACHE HIT]'', '' [CACHE MISS]''} \<and>
      p4_handle_request 2 \<lparr>sk_rx = [Recv ''PUT /a ''], sk_tx = [], sk_poll = [], sk_wire = [], sk_errno = EAGAIN\<rparr> c1 =
        Some (snd (sys_send (p4_build_response (body @ '' [CACHE HIT]''))
          \<lparr>sk_rx = [], sk_tx = [], sk_poll = [], sk_wire = [], sk_errno = EAGAIN\<rparr>), c2)"
proof -
  have "(1000 :: u64) \<noteq> 0" by simp
  moreover have "extract_path ''PUT /a '' = extract_path ''GET /a HTTP/1.1''" by code_simp
  ultimately show ?thesis
    by (intro phase4_second_request_hits [where es = "[]" and cap = 1000 and ops = "[]" and answers = "[]"
        and bs = "''GET /a HTTP/1.1''" and bs' = "''PUT /a ''"]) (simp_all add: recv_upto_def)
qed

end
