(* ===== verification/Early_Mains.thy ===== *)
theory Early_Mains
  imports Early_Servers Startup
begin

text \<open>
  The main programs around the handlers of \<open>Early_Servers\<close>: the start of
  \<open>src/server_base_version.cpp\<close>, \<open>src/server_phase2.cpp\<close>, \<open>src/server_phase3.cpp\<close> and
  \<open>src/server_phase4.cpp\<close>, their accept loops and the turns of their event loops. What the
  system answers is an argument; a loop that need not end is a partial function. The event
  loops are shown to stay within the transition system of \<open>Early_Servers\<close>; the other results
  are about the defects that made later phases differ.
\<close>

section \<open>Starting\<close>

text \<open>The calls that can fail, with the error they fail with. \<open>Ended\<close> is a process that ended
  with a status and its two output streams; \<open>Serves\<close> one that reached its loop, with the port
  it is bound to and standard output.\<close>

record main_env =
  me_socket :: "errno option"
  me_bind :: "errno option"
  me_listen :: "errno option"
  me_epoll :: "errno option"
  me_cores :: int

datatype start_outcome = Ended int bytes bytes | Serves int int bytes

text \<open>\<open>htons\<close> takes 16 bits of the port.\<close>

definition bound_port :: "int \<Rightarrow> int" where
  "bound_port port = port mod 65536"

definition base_usage :: "bytes \<Rightarrow> bytes" where
  "base_usage prog = ''You need to specify a port!'' @ [LF] @ ''Usage: '' @ prog @ '' {desired port number} '' @ [LF]"

text \<open>The base version serves the one client that \<open>accept\<close> gives and ends.\<close>

definition base_main :: "messages \<Rightarrow> main_env \<Rightarrow> bytes \<Rightarrow> bytes list \<Rightarrow> errno + bytes \<times> int \<times> sock \<Rightarrow> int \<times> bytes \<times> sock option" where
  "base_main msg env prog args accepted =
     (case args of
        [] \<Rightarrow> (0, base_usage prog, None)
      | p # _ \<Rightarrow>
          if me_bind env \<noteq> None then (1, [], None)
          else if me_listen env \<noteq> None then (1, [], None)
          else
            let waiting = ''Waiting for new connections ... '' @ [LF] in
            (case accepted of
               Inl e \<Rightarrow> (1, waiting, None)
             | Inr (client_ip, remote_port, s) \<Rightarrow>
                 let connected = ''Connection accepted from '' @ client_ip @ '':'' @ int_str remote_port @ [LF] in
                 (case base_loop client_ip remote_port s of
                    (status, out, s) \<Rightarrow> (status, waiting @ connected @ out, Some s))))"

text \<open>Phase 2 prints the address of the argument vector where the program's name was meant;
  \<open>argv\<close> is that address as a stream prints it.\<close>

definition p2_usage :: "bytes \<Rightarrow> bytes" where
  "p2_usage argv = ''You need to specify a port!'' @ [LF] @ ''Usage: '' @ argv @ '' {desired port number}'' @ [LF]"

definition p2_start :: "messages \<Rightarrow> main_env \<Rightarrow> bytes \<Rightarrow> bytes list \<Rightarrow> start_outcome" where
  "p2_start msg env argv args =
     (case args of
        [] \<Rightarrow> Ended 1 (p2_usage argv) []
      | p # _ \<Rightarrow>
          let port = atoi p in
          (case me_socket env of
             Some e \<Rightarrow> Ended 1 [] (perror msg ''Failed to create socket'' e)
           | None \<Rightarrow>
               (case me_bind env of
                  Some e \<Rightarrow> Ended 1 [] (perror msg ''Failed to bind'' e)
                | None \<Rightarrow>
                    (case me_listen env of
                       Some e \<Rightarrow> Ended 1 [] (perror msg ''Failed to listen'' e)
                     | None \<Rightarrow> Serves (bound_port port) 0 (''Server is listening on port '' @ int_str port @ ''...'' @ [LF])))))"

definition p3_usage :: "bytes \<Rightarrow> bytes" where
  "p3_usage prog = ''Usage: '' @ prog @ '' <port>'' @ [LF]"

text \<open>Phase 3 has 4 workers; what they print is in \<open>Early_Pools\<close>.\<close>

definition p3_start :: "messages \<Rightarrow> main_env \<Rightarrow> bytes \<Rightarrow> bytes list \<Rightarrow> start_outcome" where
  "p3_start msg env prog args =
     (case args of
        [] \<Rightarrow> Ended 1 [] (p3_usage prog)
      | p # _ \<Rightarrow>
          let port = atoi p; num_workers = 4 in
          (case me_socket env of
             Some e \<Rightarrow> Ended 1 [] (perror msg ''socket failed'' e)
           | None \<Rightarrow>
               (case me_bind env of
                  Some e \<Rightarrow> Ended 1 [] (perror msg ''bind failed'' e)
                | None \<Rightarrow>
                    (case me_listen env of
                       Some e \<Rightarrow> Ended 1 [] (perror msg ''listen failed'' e)
                     | None \<Rightarrow>
                         (case me_epoll env of
                            Some e \<Rightarrow> Ended 1 [] (perror msg ''epoll_create1 failed'' e)
                          | None \<Rightarrow> Serves (bound_port port) num_workers
                              (''Server listening on port '' @ int_str port @ '' with '' @ int_str num_workers @ '' workers'' @ [LF]))))))"

text \<open>Phase 4 looks only at the answer of \<open>bind\<close>.\<close>

definition p4_start :: "messages \<Rightarrow> main_env \<Rightarrow> bytes \<Rightarrow> bytes list \<Rightarrow> start_outcome" where
  "p4_start msg env prog args =
     (case args of
        [] \<Rightarrow> Ended 1 [] (p3_usage prog)
      | p # _ \<Rightarrow>
          let port = atoi p;
              num_workers = (if me_cores env = 0 then 4 else me_cores env);
              ready = ''[pool] '' @ int_str num_workers @ '' workers ready'' @ [LF] in
          (case me_bind env of
             Some e \<Rightarrow> Ended 1 ready (perror msg ''bind'' e)
           | None \<Rightarrow> Serves (bound_port port) num_workers
               (ready @ ''Server on port '' @ int_str port @ '' with '' @ int_str num_workers @ '' workers'' @ [LF] @
                ''Cache capacity: 1000 entries'' @ [LF, LF])))"

text \<open>A finding. The port is not checked: phases 2 to 4 say they listen on port 70000 and are
  bound to 4464.\<close>

theorem early_port_wraps:
  assumes "me_socket env = None" "me_bind env = None" "me_listen env = None" "me_epoll env = None"
  shows "p2_start msg env argv [''70000''] = Serves 4464 0 (''Server is listening on port 70000...'' @ [LF])"
    "p3_start msg env argv [''70000''] = Serves 4464 4 (''Server listening on port 70000 with 4 workers'' @ [LF])"
    "\<exists>n out. p4_start msg env argv [''70000''] = Serves 4464 n out"
proof -
  have d: "digit_c 7 = CHR ''7''" "digit_c 0 = CHR ''0''" "digit_c 4 = CHR ''4''" by code_simp+
  then have n: "nat_str 70000 = ''70000''" by (simp add: nat_str.simps)
  then have "atoi ''70000'' = 70000" using atoi_nat_str [of 70000] by (simp add: INT_MAX_def)
  moreover have "int_str 70000 = ''70000''" "int_str 4 = ''4''" by (simp_all add: int_str_def n nat_str.simps [of 4] d)
  ultimately show "p2_start msg env argv [''70000''] = Serves 4464 0 (''Server is listening on port 70000...'' @ [LF])"
    "p3_start msg env argv [''70000''] = Serves 4464 4 (''Server listening on port 70000 with 4 workers'' @ [LF])"
    "\<exists>n out. p4_start msg env argv [''70000''] = Serves 4464 n out"
    using assms by (simp_all add: p2_start_def p3_start_def p4_start_def bound_port_def Let_def)
qed

section \<open>Phase 2: one thread per client\<close>

text \<open>\<open>inet_ntoa\<close> writes to one buffer of the calling thread. The thread of a client is started
  with a pointer to it, and makes its own copy of the address only when it runs. Clients that
  were accepted and whose thread has not run yet are waiting with their port and socket.\<close>

record p2_state =
  p2_static :: bytes
  p2_waiting :: "(int \<times> sock) list"
  p2_out :: bytes

datatype p2_event = P2_accept bytes int sock | P2_accept_fails | P2_thread nat

definition p2_step :: "p2_event \<Rightarrow> p2_state \<Rightarrow> p2_state" where
  "p2_step ev st =
     (case ev of
        P2_accept ip port s \<Rightarrow>
          st\<lparr>p2_static := ip, p2_waiting := p2_waiting st @ [(port, s)],
             p2_out := p2_out st @ ''Spawned a new thread to handle the client at '' @ ip @ '':'' @ int_str port @ [LF]\<rparr>
      | P2_accept_fails \<Rightarrow> st
      | P2_thread i \<Rightarrow>
          if i < length (p2_waiting st) then
            (case p2_waiting st ! i of
               (port, s) \<Rightarrow>
                 st\<lparr>p2_waiting := take i (p2_waiting st) @ drop (i + 1) (p2_waiting st),
                    p2_out := p2_out st @ fst (handle_client (p2_static st) port s)\<rparr>)
          else st)"

text \<open>A finding. Two clients are accepted before the thread of the first runs: it is handled
  under the address of the second.\<close>

theorem phase2_misattributes_client:
  "p2_out (fold p2_step [P2_accept ''10.0.0.1'' 1 s, P2_accept ''10.0.0.2'' 2 s2, P2_thread 0] \<lparr>p2_static = [], p2_waiting = [], p2_out = []\<rparr>) =
     ''Spawned a new thread to handle the client at 10.0.0.1:1'' @ [LF] @
     ''Spawned a new thread to handle the client at 10.0.0.2:2'' @ [LF] @
     ''Connection accepted from 10.0.0.2:1'' @ [LF] @ fst (client_loop ''10.0.0.2:1'' s)"
proof -
  have n: "int_str 1 = ''1''" "int_str 2 = ''2''" by code_simp+
  show ?thesis by (simp add: p2_step_def handle_client_def Let_def n split: prod.split)
qed

section \<open>Phases 3 and 4: accepting\<close>

datatype accept_result = Connected nat bytes int | Not_accepted errno

text \<open>Phase 3 stops at every error. The answers end with \<open>EAGAIN\<close>.\<close>

fun p3_accept_all :: "messages \<Rightarrow> accept_result list \<Rightarrow> early_loop \<Rightarrow> early_loop \<times> bytes \<times> bytes" where
  "p3_accept_all msg [] st = (st, [], [])"
| "p3_accept_all msg (Not_accepted e # as) st = (st, [], if e = EAGAIN then [] else perror msg ''accept failed'' e)"
| "p3_accept_all msg (Connected client_fd client_ip port # as) st =
     (case p3_accept_all msg as (early_accept client_fd st) of
        (st, out, err) \<Rightarrow> (st, ''[new connection] '' @ client_ip @ '':'' @ int_str port @ [LF] @ out, err))"

text \<open>Phase 4 stops at \<open>EAGAIN\<close> only; \<open>answers i\<close> is what the \<open>i\<close>-th call gives.\<close>

partial_function (option) p4_accept_all :: "(nat \<Rightarrow> accept_result) \<Rightarrow> nat \<Rightarrow> early_loop \<Rightarrow> early_loop option" where
  "p4_accept_all answers i st =
     (case answers i of
        Not_accepted e \<Rightarrow> if e = EAGAIN then Some st else p4_accept_all answers (i + 1) st
      | Connected client_fd client_ip port \<Rightarrow> p4_accept_all answers (i + 1) (early_accept client_fd st))"

declare p4_accept_all.simps [simp del]

fun connected_fds :: "accept_result list \<Rightarrow> nat list" where
  "connected_fds [] = []"
| "connected_fds (Connected fd ip port # as) = fd # connected_fds as"
| "connected_fds (Not_accepted e # as) = connected_fds as"

lemma p4_accept_returns:
  "answers (i + n) = Not_accepted EAGAIN \<Longrightarrow> \<forall>m < n. answers (i + m) \<noteq> Not_accepted EAGAIN \<Longrightarrow>
     p4_accept_all answers i st = Some (fold early_accept (connected_fds (map answers [i..<i + n])) st)"
proof (induction n arbitrary: i st)
  case 0
  then show ?case by (subst p4_accept_all.simps) simp
next
  case (Suc n)
  have later: "answers (Suc i + n) = Not_accepted EAGAIN" "\<forall>m < n. answers (Suc i + m) \<noteq> Not_accepted EAGAIN"
    using Suc.prems by auto
  have "[i..<i + Suc n] = i # [Suc i..<Suc i + n]" by (simp add: upt_conv_Cons)
  moreover have "answers i \<noteq> Not_accepted EAGAIN" using Suc.prems(2) by (metis add_0_right zero_less_Suc)
  ultimately show ?case
    using Suc.IH [OF later] by (subst p4_accept_all.simps) (auto split: accept_result.split)
qed

lemma p4_accept_stays: "p4_accept_all answers i st = Some r \<Longrightarrow> \<exists>n \<ge> i. answers n = Not_accepted EAGAIN"
proof -
  assume "p4_accept_all answers i st = Some r"
  then show ?thesis
  proof (rule p4_accept_all.raw_induct [rotated, of answers i st r "\<lambda>answers i st r. \<exists>n \<ge> i. answers n = Not_accepted EAGAIN"], goal_cases)
    case (1 rec answers i st y)
    then show ?case by (fastforce split: accept_result.splits if_splits dest: Suc_leD)
  qed
qed

text \<open>When phase 4 returns from accepting. The loop ends exactly if some call answers
  \<open>EAGAIN\<close>; any other error is tried again at once. So as long as \<open>accept\<close> fails with
  anything else (no descriptors left, say) the event loop stays in it, and no connection that
  is already open is served: those that hold the descriptors are not even looked at.\<close>

theorem phase4_accept_returns_iff:
  "p4_accept_all answers i st \<noteq> None \<longleftrightarrow> (\<exists>n \<ge> i. answers n = Not_accepted EAGAIN)"
proof
  assume "\<exists>n \<ge> i. answers n = Not_accepted EAGAIN"
  then have "\<exists>m. answers (i + m) = Not_accepted EAGAIN" by (metis le_add_diff_inverse)
  then obtain m where "answers (i + m) = Not_accepted EAGAIN" "\<forall>k < m. answers (i + k) \<noteq> Not_accepted EAGAIN"
    using exists_least_iff [of "\<lambda>m. answers (i + m) = Not_accepted EAGAIN"] by blast
  from p4_accept_returns [OF this] show "p4_accept_all answers i st \<noteq> None" by simp
qed (use p4_accept_stays in blast)

section \<open>The turns of the event loops\<close>

text \<open>What \<open>epoll_wait\<close> reports: the listener, for which the answers of \<open>accept\<close> are given, or
  a client.\<close>

datatype 'a early_event = Listener 'a | Client nat

definition p3_event :: "messages \<Rightarrow> accept_result list early_event \<Rightarrow> early_loop \<Rightarrow> early_loop" where
  "p3_event msg ev st = (case ev of Listener as \<Rightarrow> fst (p3_accept_all msg as st) | Client fd \<Rightarrow> p3_dispatch fd st)"

definition p4_event :: "(nat \<Rightarrow> accept_result) early_event \<Rightarrow> early_loop \<Rightarrow> early_loop option" where
  "p4_event ev st = (case ev of Listener answers \<Rightarrow> p4_accept_all answers 0 st | Client fd \<Rightarrow> Some (p4_dispatch fd st))"

fun clients :: "'a early_event list \<Rightarrow> nat list" where
  "clients [] = []"
| "clients (Client fd # evs) = fd # clients evs"
| "clients (Listener a # evs) = clients evs"

definition early_owned :: "early_loop \<Rightarrow> nat list" where
  "early_owned st = el_watched st @ q3_tasks (el_queue st) @ el_active st"

text \<open>The kernel hands out descriptors that are not open, in every number of calls before the
  first \<open>EAGAIN\<close>.\<close>

fun fresh_fds :: "(nat \<Rightarrow> accept_result) early_event \<Rightarrow> early_loop \<Rightarrow> bool" where
  "fresh_fds (Client fd) st \<longleftrightarrow> True"
| "fresh_fds (Listener answers) st \<longleftrightarrow> (\<forall>n. (\<forall>m < n. answers m \<noteq> Not_accepted EAGAIN) \<longrightarrow>
     distinct (connected_fds (map answers [0..<n])) \<and> set (connected_fds (map answers [0..<n])) \<inter> set (early_owned st) = {})"

text \<open>The main thread of phase 4 with the events it has still to look at, its workers between
  any two of its steps. \<open>epoll_wait\<close> reports each registered descriptor at most once.\<close>

inductive p4_main :: "(nat \<Rightarrow> accept_result) early_event list \<Rightarrow> early_loop \<Rightarrow> bool" where
  started: "p4_main [] start_early"
| waited: "p4_main [] st \<Longrightarrow> distinct (clients evs) \<Longrightarrow> set (clients evs) \<subseteq> set (el_watched st) \<Longrightarrow> p4_main evs st"
| event: "p4_main (ev # evs) st \<Longrightarrow> fresh_fds ev st \<Longrightarrow> p4_event ev st = Some st' \<Longrightarrow> p4_main evs st'"
| taken: "p4_main evs st \<Longrightarrow> p4_main evs (early_take st)"
| finished: "p4_main evs st \<Longrightarrow> fd \<in> set (el_active st) \<Longrightarrow> p4_main evs (early_finish fd True st)"

lemma accepts_reachable:
  "early_reachable d c st \<Longrightarrow> distinct fds \<Longrightarrow> set fds \<inter> set (early_owned st) = {} \<Longrightarrow> early_reachable d c (fold early_accept fds st)"
proof (induction fds arbitrary: st)
  case (Cons fd fds)
  have "early_reachable d c (early_accept fd st)"
    using Cons.prems by (intro early_reachable.accepted) (auto simp: early_owned_def)
  moreover have "early_owned (early_accept fd st) = fd # early_owned st" by (simp add: early_owned_def early_accept_def)
  ultimately show ?case using Cons.IH [of "early_accept fd st"] Cons.prems by auto
qed simp

lemma accepts_watched: "el_watched (fold early_accept fds st) = rev fds @ el_watched st"
  by (induction fds arbitrary: st) (simp_all add: early_accept_def)

lemma p4_accepts:
  assumes "p4_accept_all answers 0 st = Some st'" "fresh_fds (Listener answers) st"
  obtains fds where "st' = fold early_accept fds st" "distinct fds" "set fds \<inter> set (early_owned st) = {}"
proof -
  have "\<exists>n. answers n = Not_accepted EAGAIN" using p4_accept_stays [OF assms(1)] by blast
  then obtain m where m: "answers (0 + m) = Not_accepted EAGAIN" "\<forall>k < m. answers (0 + k) \<noteq> Not_accepted EAGAIN"
    using exists_least_iff [of "\<lambda>m. answers (0 + m) = Not_accepted EAGAIN"] by auto
  define fds where "fds = connected_fds (map answers [0..<m])"
  have "distinct fds" "set fds \<inter> set (early_owned st) = {}" using assms(2) m(2) by (simp_all add: fds_def)
  moreover have "st' = fold early_accept fds st" using p4_accept_returns [OF m, of st] assms(1) by (simp add: fds_def)
  ultimately show thesis by (rule that [rotated])
qed

lemma p4_main_inv:
  "p4_main evs st \<Longrightarrow> early_reachable p4_dispatch (\<lambda>_. True) st \<and> distinct (clients evs) \<and> set (clients evs) \<subseteq> set (el_watched st)"
proof (induction rule: p4_main.induct)
  case started
  show ?case by (simp add: early_reachable.started)
next
  case (event ev evs st st')
  show ?case
  proof (cases ev)
    case (Client fd)
    with event have st': "st' = p4_dispatch fd st" "early_reachable p4_dispatch (\<lambda>_. True) st" "fd \<in> set (el_watched st)"
      by (simp_all add: p4_event_def)
    from early_reachable.dispatched [OF st'(2,3)] have "early_reachable p4_dispatch (\<lambda>_. True) st'" by (simp add: st'(1))
    moreover have "el_watched st' = filter (\<lambda>x. x \<noteq> fd) (el_watched st)" by (simp add: st'(1) p4_dispatch_def)
    ultimately show ?thesis using event.IH Client by auto
  next
    case (Listener answers)
    with event obtain fds where "st' = fold early_accept fds st" "distinct fds" "set fds \<inter> set (early_owned st) = {}"
      using p4_accepts [of answers st st'] by (auto simp: p4_event_def)
    with event Listener accepts_reachable [of p4_dispatch _ st fds] show ?thesis by (auto simp: accepts_watched)
  qed
next
  case (taken evs st)
  moreover have "el_watched (early_take st) = el_watched st" by (auto simp: early_take_def split: option.split prod.split)
  ultimately show ?case by (auto intro: early_reachable.taken)
next
  case (finished evs st fd)
  then have "fd \<notin> set (el_watched st)" using p4_single_owner by fastforce
  then have "el_watched (early_finish fd True st) = el_watched st"
    by (auto simp: early_finish_def Let_def filter_id_conv)
  with finished show ?case by (auto intro: early_reachable.finished)
qed auto

text \<open>C38: In phase 4 a connection is in one place. However the accepts, the reports, the
  dispatches and the workers interleave, a descriptor is registered with epoll, or waiting in
  the queue, or held by one worker, and never twice; and what \<open>epoll_wait\<close> has reported and
  the loop has not yet looked at is still registered. Removing the descriptor before the
  dispatch is what ensures it.\<close>

theorem phase4_loop_one_owner:
  assumes "p4_main evs st"
  shows "distinct (el_watched st @ q3_tasks (el_queue st) @ el_active st) \<and> distinct (clients evs) \<and>
    set (clients evs) \<subseteq> set (el_watched st)"
  using p4_main_inv [OF assms] p4_single_owner by blast

theorem phase4_loop_one_owner_witness:
  "distinct (el_watched (early_take (p4_dispatch 5 (early_accept 5 start_early))) @
     q3_tasks (el_queue (early_take (p4_dispatch 5 (early_accept 5 start_early)))) @
     el_active (early_take (p4_dispatch 5 (early_accept 5 start_early)))) \<and>
   distinct (clients ([] :: (nat \<Rightarrow> accept_result) early_event list)) \<and>
   set (clients ([] :: (nat \<Rightarrow> accept_result) early_event list)) \<subseteq> set (el_watched (early_take (p4_dispatch 5 (early_accept 5 start_early))))"
proof (rule phase4_loop_one_owner)
  define answers where "answers = (\<lambda>n :: nat. if n = 0 then Connected 5 [] 1 else Not_accepted EAGAIN)"
  have fresh: "fresh_fds (Listener answers) start_early"
    unfolding fresh_fds.simps
  proof (intro allI impI)
    fix n assume "\<forall>m < n. answers m \<noteq> Not_accepted EAGAIN"
    then have "\<not> 1 < n" by (auto simp: answers_def)
    then have "n = 0 \<or> n = 1" by arith
    then show "distinct (connected_fds (map answers [0..<n])) \<and>
        set (connected_fds (map answers [0..<n])) \<inter> set (early_owned start_early) = {}"
      by (elim disjE) (simp_all add: answers_def early_owned_def start_early_def new_queue3_def)
  qed
  have "p4_main [Listener answers] start_early" by (rule p4_main.waited [OF p4_main.started]) simp_all
  note event = p4_main.event [OF this fresh]
  have "p4_accept_all answers 0 start_early = Some (early_accept 5 start_early)"
    using p4_accept_returns [of answers 0 1 start_early] by (simp add: answers_def)
  then have "p4_main [] (early_accept 5 start_early)" by (intro event) (simp add: p4_event_def)
  then have "p4_main [Client 5] (early_accept 5 start_early)"
    by (rule p4_main.waited) (simp_all add: early_accept_def)
  then have "p4_main [] (p4_dispatch 5 (early_accept 5 start_early))"
    by (rule p4_main.event) (simp_all add: p4_event_def)
  then show "p4_main [] (early_take (p4_dispatch 5 (early_accept 5 start_early)))" by (rule p4_main.taken)
qed

section \<open>The statistics of phase 4\<close>

text \<open>\<open>stats_printer\<close> of phase 4; \<open>dbl\<close> is how a stream prints a double.\<close>

definition stats_printer_line :: "(rat \<Rightarrow> bytes) \<Rightarrow> (bytes, bytes) rw_lru \<Rightarrow> bytes" where
  "stats_printer_line dbl response_cache =
     (case rw_stats response_cache of
        (h, m) \<Rightarrow>
          ''[cache] hits: '' @ nat_str (unat h) @ '', misses: '' @ nat_str (unat m) @
          '', hit rate: '' @ dbl (rw_hit_rate response_cache) @ ''%'' @ '', size: '' @ nat_str (rw_size response_cache) @ [LF])"

end
