(* ===== verification/Origin_Loop.thy ===== *)
theory Origin_Loop
  imports Origin_Server Task_Queue Startup
begin

text \<open>
  The main program of the origin, \<open>src/origin_server.cpp\<close>: its start, its accept loop and its
  event loop over connections that one worker at a time handles. It is the loop of the proxy
  with fewer checks: every error ends the accept loop, and nothing is counted down. The
  transition system interleaves the main thread, the workers and the peers; its invariant is
  again that a connection has one owner.
\<close>

section \<open>The start\<close>

text \<open>\<open>Inl\<close>: the process ends with status 1 and this message.\<close>

definition origin_usage :: "bytes \<Rightarrow> bytes" where
  "origin_usage prog = ''Usage: '' @ prog @ '' [-p port] [-w workers] [-b body_bytes] [--close]'' @ [LF]"

definition origin_start_up :: "messages \<Rightarrow> boot_env \<Rightarrow> bytes \<Rightarrow> bytes list \<Rightarrow> bytes + origin \<times> nat \<times> bytes" where
  "origin_start_up msg env prog args =
     (case origin_args args of
        None \<Rightarrow> Inl (origin_usage prog)
      | Some (port, workers, body_size, keep_alive) \<Rightarrow>
          (case be_socket env of
             Some e \<Rightarrow> Inl (perror msg ''socket'' e)
           | None \<Rightarrow>
               (case be_bind env of
                  Some e \<Rightarrow> Inl (''origin bind(:'' @ int_str port @ ''): '' @ msg_errno msg e @ [LF])
                | None \<Rightarrow>
                    (case be_listen env of
                       Some e \<Rightarrow> Inl (perror msg ''listen'' e)
                     | None \<Rightarrow>
                         (case be_epoll env of
                            Some e \<Rightarrow> Inl (perror msg ''epoll_create1'' e)
                          | None \<Rightarrow>
                              Inr (new_origin\<lparr>og_body_size := unat body_size, og_keep_alive := keep_alive\<rparr>, nat workers,
                                ''origin on :'' @ int_str port @ '' workers='' @ int_str workers @ '' body='' @ nat_str (unat body_size) @
                                ''B keep-alive='' @ (if keep_alive then ''yes'' else ''no'') @ [LF]))))))"

section \<open>The loop\<close>

record origin_loop =
  ol_origin :: origin
  ol_conns :: "nat \<Rightarrow> origin_conn option"
  ol_next :: nat
  ol_armed :: "nat list"
  ol_ready :: "nat list"
  ol_queue :: "nat origin_queue"
  ol_busy :: "nat list"
  ol_connections :: u64

definition start_origin :: "origin \<Rightarrow> origin_loop" where
  "start_origin og = \<lparr>ol_origin = og, ol_conns = Map.empty, ol_next = 0, ol_armed = [], ol_ready = [],
     ol_queue = new_origin_queue, ol_busy = [], ol_connections = 0\<rparr>"

text \<open>The answers of \<open>accept\<close>, each with whether \<open>epoll_ctl\<close> takes the connection.\<close>

fun origin_accept_all :: "(errno + sock \<times> bool) list \<Rightarrow> origin_loop \<Rightarrow> origin_loop" where
  "origin_accept_all [] l = l"
| "origin_accept_all (Inl e # as) l = l"
| "origin_accept_all (Inr (s, added) # as) l =
     (let l = l\<lparr>ol_connections := ol_connections l + 1, ol_next := ol_next l + 1\<rparr>;
          i = ol_next l - 1 in
      origin_accept_all as
        (if added then
           l\<lparr>ol_conns := (ol_conns l)(i \<mapsto> \<lparr>oc_sock = s, oc_inbuf = [], oc_rearm_ok = True\<rparr>), ol_armed := ol_armed l @ [i]\<rparr>
         else l))"

definition origin_report :: "nat list \<Rightarrow> origin_loop \<Rightarrow> origin_loop" where
  "origin_report ids l = l\<lparr>ol_armed := filter (\<lambda>i. i \<notin> set ids) (ol_armed l), ol_ready := ids\<rparr>"

definition origin_dispatch :: "origin_loop \<Rightarrow> origin_loop" where
  "origin_dispatch l = (case ol_ready l of [] \<Rightarrow> l
     | i # ids \<Rightarrow> l\<lparr>ol_ready := ids, ol_queue := oq_push i (ol_queue l)\<rparr>)"

definition origin_finish :: "nat \<Rightarrow> conn_state \<times> origin \<times> origin_conn \<Rightarrow> origin_loop \<Rightarrow> origin_loop" where
  "origin_finish i r l =
     (let (st, og, c) = r; l = l\<lparr>ol_origin := og, ol_busy := remove1 i (ol_busy l)\<rparr> in
      if st = Closed then l\<lparr>ol_conns := (ol_conns l)(i := None)\<rparr>
      else l\<lparr>ol_conns := (ol_conns l)(i \<mapsto> c), ol_armed := ol_armed l @ [i]\<rparr>)"

inductive origin_step :: "origin_loop \<Rightarrow> origin_loop \<Rightarrow> bool" where
  accept: "\<not> oq_stop (ol_queue l) \<Longrightarrow> origin_step l (origin_accept_all as l)"
| report: "\<not> oq_stop (ol_queue l) \<Longrightarrow> ol_ready l = [] \<Longrightarrow> distinct ids \<Longrightarrow> set ids \<subseteq> set (ol_armed l) \<Longrightarrow>
    origin_step l (origin_report ids l)"
| dispatch: "\<not> oq_stop (ol_queue l) \<Longrightarrow> origin_step l (origin_dispatch l)"
| take: "oq_pop (ol_queue l) = Some (Some i, q) \<Longrightarrow> origin_step l (l\<lparr>ol_queue := q, ol_busy := i # ol_busy l\<rparr>)"
| run: "i \<in> set (ol_busy l) \<Longrightarrow> ol_conns l i = Some c \<Longrightarrow> origin_step l (origin_finish i (origin_handle (ol_origin l) c) l)"
| peer: "ol_conns l i = Some c \<Longrightarrow>
    origin_step l (l\<lparr>ol_conns := (ol_conns l)(i \<mapsto> c\<lparr>oc_sock := s, oc_rearm_ok := b\<rparr>)\<rparr>)"
| fail: "ol_ready l = [] \<Longrightarrow> origin_step l (l\<lparr>ol_queue := oq_halt (ol_queue l)\<rparr>)"

inductive origin_reachable :: "origin \<Rightarrow> origin_loop \<Rightarrow> bool" for og :: origin where
  start: "origin_reachable og (start_origin og)"
| step: "origin_reachable og l \<Longrightarrow> origin_step l l' \<Longrightarrow> origin_reachable og l'"

section \<open>One owner\<close>

definition origin_owned :: "origin_loop \<Rightarrow> nat list" where
  "origin_owned l = ol_armed l @ ol_ready l @ oq_tasks (ol_queue l) @ ol_busy l"

definition origin_inv :: "origin_loop \<Rightarrow> bool" where
  "origin_inv l \<longleftrightarrow> distinct (origin_owned l) \<and> set (origin_owned l) = dom (ol_conns l) \<and>
     (\<forall>i \<in> dom (ol_conns l). i < ol_next l) \<and> ol_connections l = of_nat (ol_next l) \<and> (oq_stop (ol_queue l) \<longrightarrow> ol_ready l = [])"

lemma origin_accept_inv: "origin_inv l \<Longrightarrow> origin_inv (origin_accept_all as l)"
proof (induction as l rule: origin_accept_all.induct)
  case (3 s added as l)
  have "ol_next l \<notin> set (origin_owned l)" using 3(2) by (auto simp: origin_inv_def)
  with 3(2) have "origin_inv (if added then
       l\<lparr>ol_connections := ol_connections l + 1, ol_next := ol_next l + 1,
         ol_conns := (ol_conns l)(ol_next l \<mapsto> \<lparr>oc_sock = s, oc_inbuf = [], oc_rearm_ok = True\<rparr>), ol_armed := ol_armed l @ [ol_next l]\<rparr>
     else l\<lparr>ol_connections := ol_connections l + 1, ol_next := ol_next l + 1\<rparr>)"
    by (auto simp: origin_inv_def origin_owned_def less_Suc_eq)
  with 3(1) show ?case by (auto simp: Let_def split: if_splits)
qed simp_all

lemma origin_report_inv:
  assumes "origin_inv l" "ol_ready l = []" "distinct ids" "set ids \<subseteq> set (ol_armed l)" "\<not> oq_stop (ol_queue l)"
  shows "origin_inv (origin_report ids l)"
proof -
  have "set (filter (\<lambda>i. i \<notin> set ids) (ol_armed l) @ ids) = set (ol_armed l)" using assms(4) by auto
  with assms show ?thesis by (auto simp: origin_inv_def origin_owned_def origin_report_def)
qed

lemma origin_finish_inv:
  assumes "origin_inv l" "i \<in> set (ol_busy l)" "ol_conns l i = Some c"
  shows "origin_inv (origin_finish i r l)"
proof -
  obtain st og c' where r: "r = (st, og, c')" by (cases r)
  have "distinct (ol_busy l)" using assms(1) by (simp add: origin_inv_def origin_owned_def)
  then have rest: "set (remove1 i (ol_busy l)) = set (ol_busy l) - {i}" by simp
  have notin: "i \<notin> set (ol_armed l)" "i \<notin> set (ol_ready l)" "i \<notin> set (oq_tasks (ol_queue l))"
    using assms(1,2) by (auto simp: origin_inv_def origin_owned_def)
  show ?thesis
    using assms r rest notin by (cases st) (auto simp: origin_inv_def origin_owned_def origin_finish_def Let_def)
qed

lemma origin_inv_step: "origin_step l l' \<Longrightarrow> origin_inv l \<Longrightarrow> origin_inv l'"
proof (induction rule: origin_step.induct)
  case (accept l as)
  then show ?case by (simp add: origin_accept_inv)
next
  case (report l ids)
  then show ?case by (simp add: origin_report_inv)
next
  case (dispatch l)
  then show ?case
    by (cases "ol_ready l") (auto simp: origin_inv_def origin_owned_def origin_dispatch_def oq_push_def)
next
  case (take l i q)
  then show ?case
    by (cases "oq_tasks (ol_queue l)") (auto simp: origin_inv_def origin_owned_def oq_pop_def split: if_splits)
next
  case (run i l c)
  then show ?case by (simp add: origin_finish_inv)
next
  case (peer l i c s b)
  then show ?case by (auto simp: origin_inv_def origin_owned_def dom_def)
next
  case (fail l)
  then show ?case by (simp add: origin_inv_def origin_owned_def oq_halt_def)
qed

text \<open>A connection of the origin has one owner. In every state that the main thread, the
  workers and the peers can bring about, each open connection is armed in epoll, or reported,
  or queued, or with one worker, and nothing else is; so no two workers handle one connection
  and none is used after it was deleted.\<close>

theorem origin_one_owner:
  assumes "origin_reachable og l"
  shows "distinct (ol_armed l @ ol_ready l @ oq_tasks (ol_queue l) @ ol_busy l) \<and>
    set (ol_armed l @ ol_ready l @ oq_tasks (ol_queue l) @ ol_busy l) = dom (ol_conns l)"
proof -
  have "origin_inv l" using assms
  proof (induction rule: origin_reachable.induct)
    case start
    show ?case by (simp add: origin_inv_def origin_owned_def start_origin_def new_origin_queue_def)
  next
    case (step l l')
    then show ?case using origin_inv_step by blast
  qed
  then show ?thesis by (simp add: origin_inv_def origin_owned_def)
qed

end
