(* ===== verification/Benchmark.thy ===== *)
theory Benchmark
  imports Origin_Server Startup
begin

text \<open>
  The load generator, \<open>src/benchmark.cpp\<close>: its options, the choice of URLs, connecting,
  reading one response, a worker's loop over its requests and the percentiles. Real numbers are
  rationals here (the code's \<open>double\<close>s approximate them), powers and \<open>atof\<close> are
  arguments. Its reader is shown to take exactly one response of the origin off the stream, and
  a worker to count every request once.
\<close>

section \<open>Configuration\<close>

record config =
  cf_host :: bytes
  cf_port :: int
  cf_host_header :: bytes
  cf_num_threads :: int
  cf_requests_per_thread :: int
  cf_num_unique_urls :: int
  cf_zipf_alpha :: rat
  cf_think_time_ms :: int
  cf_keep_alive :: bool
  cf_source_ips :: int
  cf_verbose_errors :: bool

definition new_config :: config where
  "new_config = \<lparr>cf_host = ''127.0.0.1'', cf_port = 8080, cf_host_header = [], cf_num_threads = 10,
     cf_requests_per_thread = 100, cf_num_unique_urls = 50, cf_zipf_alpha = 1, cf_think_time_ms = 0,
     cf_keep_alive = False, cf_source_ips = 1, cf_verbose_errors = False\<rparr>"

text \<open>\<open>None\<close>: the process ends, for want of a value or with the usage.\<close>

fun bench_options :: "(bytes \<Rightarrow> rat) \<Rightarrow> bytes list \<Rightarrow> config \<Rightarrow> config option" where
  "bench_options atof [] cf = Some cf"
| "bench_options atof (a # rest) cf =
     (if a = ''-k'' then bench_options atof rest (cf\<lparr>cf_keep_alive := True\<rparr>)
      else if a = ''-v'' then bench_options atof rest (cf\<lparr>cf_verbose_errors := True\<rparr>)
      else if rest = [] then None
      else if a = ''-h'' then bench_options atof (tl rest) (cf\<lparr>cf_host := hd rest\<rparr>)
      else if a = ''-p'' then bench_options atof (tl rest) (cf\<lparr>cf_port := atoi (hd rest)\<rparr>)
      else if a = ''-H'' then bench_options atof (tl rest) (cf\<lparr>cf_host_header := hd rest\<rparr>)
      else if a = ''-t'' then bench_options atof (tl rest) (cf\<lparr>cf_num_threads := atoi (hd rest)\<rparr>)
      else if a = ''-n'' then bench_options atof (tl rest) (cf\<lparr>cf_requests_per_thread := atoi (hd rest)\<rparr>)
      else if a = ''-u'' then bench_options atof (tl rest) (cf\<lparr>cf_num_unique_urls := atoi (hd rest)\<rparr>)
      else if a = ''-a'' then bench_options atof (tl rest) (cf\<lparr>cf_zipf_alpha := atof (hd rest)\<rparr>)
      else if a = ''-d'' then bench_options atof (tl rest) (cf\<lparr>cf_think_time_ms := atoi (hd rest)\<rparr>)
      else if a = ''-i'' then bench_options atof (tl rest) (cf\<lparr>cf_source_ips := atoi (hd rest)\<rparr>)
      else None)"

definition bench_args :: "(bytes \<Rightarrow> rat) \<Rightarrow> bytes list \<Rightarrow> config option" where
  "bench_args atof args =
     (case bench_options atof args new_config of
        None \<Rightarrow> None
      | Some cf \<Rightarrow>
          let cf = (if cf_host_header cf = [] then cf\<lparr>cf_host_header := cf_host cf @ '':'' @ int_str (cf_port cf)\<rparr> else cf);
              cf = (if cf_num_unique_urls cf < 1 then cf\<lparr>cf_num_unique_urls := 1\<rparr> else cf) in
          Some cf)"

section \<open>Zipf\<close>

text \<open>The running sums of \<open>1 / (i + 1)^alpha\<close>, divided by the last.\<close>

fun running_sums :: "rat \<Rightarrow> rat list \<Rightarrow> rat list" where
  "running_sums acc [] = []"
| "running_sums acc (w # ws) = (acc + w) # running_sums (acc + w) ws"

definition zipf_cdf :: "(nat \<Rightarrow> rat \<Rightarrow> rat) \<Rightarrow> rat \<Rightarrow> nat \<Rightarrow> rat list" where
  "zipf_cdf pw alpha n =
     (let parts = running_sums 0 (map (\<lambda>i. 1 / pw (i + 1) alpha) [0..<n]) in
      map (\<lambda>v. v / sum_list (map (\<lambda>i. 1 / pw (i + 1) alpha) [0..<n])) parts)"

text \<open>\<open>lower_bound\<close>: the first position whose value is not below \<open>r\<close>.\<close>

definition zipf_draw :: "rat list \<Rightarrow> rat \<Rightarrow> nat" where
  "zipf_draw cdf r = length (takeWhile (\<lambda>v. v < r) cdf)"

lemma running_sums_props:
  "length (running_sums acc ws) = length ws" "ws \<noteq> [] \<Longrightarrow> last (running_sums acc ws) = acc + sum_list ws"
proof -
  show len: "length (running_sums acc ws) = length ws" for acc ws by (induction ws arbitrary: acc) auto
  show "ws \<noteq> [] \<Longrightarrow> last (running_sums acc ws) = acc + sum_list ws"
  proof (induction ws arbitrary: acc)
    case (Cons w ws)
    have "running_sums (acc + w) ws = [] \<longleftrightarrow> ws = []" using len [of "acc + w" ws] by (metis length_0_conv)
    with Cons show ?case by (cases "ws = []") (simp_all add: add.assoc)
  qed simp
qed

text \<open>A drawn URL exists. For every positive power function, every number of URLs and
  every draw \<open>r\<close> up to 1, the index that \<open>lower_bound\<close> finds is one of the URLs, since the
  last value of the distribution is exactly 1.\<close>

theorem zipf_draw_in_range:
  assumes "0 < n" "\<And>i. 0 < pw (i + 1) alpha" "r \<le> 1"
  shows "zipf_draw (zipf_cdf pw alpha n) r < n"
proof -
  let ?ws = "map (\<lambda>i. 1 / pw (i + 1) alpha) [0..<n]"
  let ?cdf = "zipf_cdf pw alpha n"
  have len: "length ?cdf = n" by (simp add: zipf_cdf_def Let_def running_sums_props)
  have ne: "?ws \<noteq> []" using assms(1) by simp
  have pos: "0 < sum_list ?ws"
  proof -
    have "n = Suc (n - 1)" using assms(1) by simp
    then have "?ws = map (\<lambda>i. 1 / pw (i + 1) alpha) [0..<n - 1] @ [1 / pw (n - 1 + 1) alpha]"
      by (metis (no_types, lifting) list.simps(8,9) map_append upt_Suc_append zero_le)
    moreover have "0 \<le> sum_list (map (\<lambda>i. 1 / pw (i + 1) alpha) [0..<n - 1])"
      using assms(2) by (intro sum_list_nonneg) (auto intro: less_imp_le)
    moreover have "0 < 1 / pw (n - 1 + 1) alpha" using assms(2) by simp
    ultimately show ?thesis by (simp only: sum_list_append sum_list.Cons sum_list.Nil add_0_right add_nonneg_pos)
  qed
  have "last ?cdf = last (running_sums 0 ?ws) / sum_list ?ws"
    using ne running_sums_props(1) [of 0 ?ws] by (subst zipf_cdf_def) (simp add: Let_def last_map length_0_conv [symmetric] del: length_0_conv)
  then have "last ?cdf = 1" using running_sums_props(2) [OF ne, of 0] pos by simp
  moreover have "?cdf \<noteq> []" using len assms(1) by auto
  ultimately have "\<exists>v \<in> set ?cdf. \<not> v < r" using assms(3) by (metis last_in_set leD)
  then have "takeWhile (\<lambda>v. v < r) ?cdf \<noteq> ?cdf" by (metis takeWhile_eq_all_conv)
  then have "length (takeWhile (\<lambda>v. v < r) ?cdf) < length ?cdf"
    by (metis append_Nil2 length_append length_takeWhile_le nat_less_le self_append_conv takeWhile_dropWhile_id length_0_conv add_cancel_right_right)
  then show ?thesis using len by (simp add: zipf_draw_def)
qed

theorem zipf_draw_in_range_witness: "zipf_draw (zipf_cdf (\<lambda>i alpha. of_nat i) 1 3) (9 / 10) < 3"
  by (rule zipf_draw_in_range) simp_all

section \<open>Connecting\<close>

record connect_env =
  ce_socket :: "errno option"
  ce_bind :: "errno option"
  ce_connect :: "errno option"
  ce_sock :: sock

definition source_address :: "config \<Rightarrow> int \<Rightarrow> bytes" where
  "source_address cf thread_id = ''127.0.0.'' @ int_str (1 + thread_id mod cf_source_ips cf)"

text \<open>The connected socket or the error, and what was opened and closed.\<close>

definition connect_to :: "config \<Rightarrow> messages \<Rightarrow> int \<Rightarrow> connect_env \<Rightarrow> (bytes + sock) \<times> resource list" where
  "connect_to cf msg thread_id env =
     (case ce_socket env of
        Some e \<Rightarrow> (Inl (''socket: '' @ msg_errno msg e), [])
      | None \<Rightarrow>
          (case (if cf_source_ips cf > 1 then ce_bind env else None) of
             Some e \<Rightarrow> (Inl (''bind('' @ source_address cf thread_id @ ''): '' @ msg_errno msg e), [Sock_open, Sock_close])
           | None \<Rightarrow>
               (case ce_connect env of
                  Some e \<Rightarrow> (Inl (''connect: '' @ msg_errno msg e), [Sock_open, Sock_close])
                | None \<Rightarrow> (Inr (ce_sock env), [Sock_open]))))"

section \<open>Reading one response\<close>

datatype read_result = Read_ok int nat | Read_error bytes

function drain_to_eof :: "sock \<Rightarrow> bytes \<times> sock" where
  "drain_to_eof s =
     (case sys_recv s of
        (Inr bs, s') \<Rightarrow> if bs \<noteq> [] then (let (more_bytes, s'') = drain_to_eof s' in (bs @ more_bytes, s'')) else ([], s')
      | (Inl e, s') \<Rightarrow> ([], s'))"
  by pat_completeness auto
termination
  by (relation "measure rx_left") (auto simp: sys_recv_upto recv_max_def dest!: recv_upto_left [OF sym])

declare drain_to_eof.simps [simp del]

text \<open>Status, Content-Length and total length as read off the head, once it is complete.\<close>

definition bench_head :: "bytes \<Rightarrow> (int \<times> int \<times> nat) option" where
  "bench_head buf =
     (case str_find buf (crlf @ crlf) 0 of
        None \<Rightarrow> None
      | Some hend \<Rightarrow>
          let st = (case str_find buf '' '' 0 of None \<Rightarrow> 0 | Some sp \<Rightarrow> atoi (drop (sp + 1) buf));
              head = substr buf 0 hend;
              clen = (case str_find (to_lower head) ''content-length:'' 0 of None \<Rightarrow> -1 | Some p \<Rightarrow> atoll (drop (p + 15) head));
              need = unat (of_nat (hend + 4) + (if clen > 0 then of_int clen else 0) :: u64) in
          Some (st, clen, need))"

definition bench_done :: "bytes \<Rightarrow> sock \<Rightarrow> (read_result \<times> bytes \<times> sock) option" where
  "bench_done buf s =
     (case bench_head buf of
        None \<Rightarrow> None
      | Some (st, clen, need) \<Rightarrow>
          if clen < 0 then (let (more_bytes, s) = drain_to_eof s in Some (Read_ok st (length (buf @ more_bytes)), [], s))
          else if length buf \<ge> need then Some (Read_ok st need, drop need buf, s)
          else None)"

function read_one_response :: "messages \<Rightarrow> bytes \<Rightarrow> sock \<Rightarrow> read_result \<times> bytes \<times> sock" where
  "read_one_response msg buf s =
     (case bench_done buf s of
        Some r \<Rightarrow> r
      | None \<Rightarrow>
          (case sys_recv s of
             (Inr bs, s') \<Rightarrow>
               if bs \<noteq> [] then read_one_response msg (buf @ bs) s'
               else (Read_error ''peer closed mid-response'', buf, s')
           | (Inl e, s') \<Rightarrow>
               if e = EINTR then read_one_response msg buf s'
               else (Read_error (''recv: '' @ msg_errno msg e), buf, s')))"
  by pat_completeness auto
termination
  by (relation "measure (\<lambda>(msg, buf, s). rx_left s)") (auto simp: sys_recv_upto recv_max_def dest!: recv_upto_left [OF sym])

declare read_one_response.simps [simp del]

text \<open>A response that \<open>bench_done\<close> recognises at its last byte and not before is taken off
  any segmentation.\<close>

lemma read_exact:
  assumes early: "\<And>m s. m < length resp \<Longrightarrow> bench_done (take m resp) s = None"
    and full: "\<And>later s. bench_done (resp @ later) s = Some (Read_ok st (length resp), later, s)"
  shows "sk_rx s = pre @ rest \<Longrightarrow> \<forall>a \<in> set pre. calm a \<Longrightarrow> buf @ concat (map answer_bytes pre) = resp @ extra \<Longrightarrow>
    \<exists>later s'. read_one_response msg buf s = (Read_ok st (length resp), later, s') \<and>
      later @ rx_bytes s' = extra @ concat (map answer_bytes rest)"
proof (induction msg buf s arbitrary: pre rule: read_one_response.induct)
  case (1 msg buf s)
  note prems = "1.prems"
  show ?case
  proof (cases "length resp \<le> length buf")
    case True
    then obtain later where l: "buf = resp @ later"
      using prems(3) by (metis append_eq_append_conv_if append_take_drop_id)
    with prems(1,3) have "later @ rx_bytes s = extra @ concat (map answer_bytes rest)" by (simp add: rx_bytes_def)
    moreover have "read_one_response msg buf s = (Read_ok st (length resp), later, s)"
      unfolding l by (subst read_one_response.simps) (simp add: full)
    ultimately show ?thesis by blast
  next
    case False
    then have "buf = take (length buf) resp"
      using prems(3) by (metis append_eq_append_conv_if linorder_not_le order_less_imp_le take_all_iff)
    with early [of "length buf" s] False have none: "bench_done buf s = None" by simp
    have "pre \<noteq> []" using False prems(3) by (metis append_Nil2 concat.simps(1) le_add1 length_append list.simps(8))
    then obtain a pre' where pre: "pre = a # pre'" by (cases pre) auto
    show ?thesis
    proof (cases a)
      case (Recv_fail e)
      with prems(2) pre have e: "e = EINTR" by simp
      let ?s = "s\<lparr>sk_rx := pre' @ rest, sk_errno := EINTR\<rparr>"
      have r: "sys_recv s = (Inl EINTR, ?s)" using prems(1) pre Recv_fail e by (simp add: sys_recv_def)
      have "read_one_response msg buf s = read_one_response msg buf ?s"
        using none r by (subst read_one_response.simps) simp
      with "1.IH"(1) [OF none r [symmetric] refl refl, of pre'] prems pre Recv_fail show ?thesis by simp
    next
      case (Recv bs)
      with prems(2) pre have bs: "bs \<noteq> []" by simp
      define pre2 where "pre2 = (if length bs \<le> recv_max then pre' else Recv (drop recv_max bs) # pre')"
      let ?s = "s\<lparr>sk_rx := pre2 @ rest\<rparr>" and ?b = "take recv_max bs"
      have r: "sys_recv s = (Inr ?b, ?s)" using prems(1) pre Recv bs by (simp add: sys_recv_def pre2_def)
      have ne: "?b \<noteq> []" using bs by (simp add: recv_max_def)
      have "read_one_response msg buf s = read_one_response msg (buf @ ?b) ?s"
        using none r ne by (subst read_one_response.simps) simp
      moreover have cut: "?b @ drop recv_max bs @ x = bs @ x" for x by (simp flip: append_assoc)
      have "(buf @ ?b) @ concat (map answer_bytes pre2) = resp @ extra" "\<forall>a \<in> set pre2. calm a"
        using prems(2,3) pre Recv by (auto simp: pre2_def cut)
      ultimately show ?thesis
        using "1.IH"(2) [OF none r [symmetric] refl ne, of pre2] by simp
    qed
  qed
qed

section \<open>Reading what the origin sends\<close>

lemma origin_head_length: "length (origin_response keep body) =
    length (print_response ''HTTP/1.1'' 200 ''OK'' (origin_fields keep body)) + length body"
  by (simp add: origin_response_print)

lemma origin_no_head:
  assumes "m < length (print_response ''HTTP/1.1'' 200 ''OK'' (origin_fields keep body))"
  shows "bench_head (take m (origin_response keep body)) = None"
  using no_header_end_inside [OF origin_fields_ok assms, of body]
  by (auto simp: origin_response_print find_header_end_def bench_head_def split: option.splits)

text \<open>The beginning of the head, up to the number.\<close>

definition origin_start :: bytes where
  "origin_start = ''HTTP/1.1 200 OK'' @ crlf @ ''Content-Type: text/plain'' @ crlf"

lemma origin_start_facts:
  "length origin_start = 43" "to_lower origin_start = ''http/1.1 200 ok'' @ crlf @ ''content-type: text/plain'' @ crlf"
  "str_find (to_lower origin_start @ ''content-length:'' @ x) ''content-length:'' 0 = Some 43"
  "str_find (origin_start @ x) '' '' 0 = Some 8"
proof -
  show l: "length origin_start = 43" and lower: "to_lower origin_start = ''http/1.1 200 ok'' @ crlf @ ''content-type: text/plain'' @ crlf"
    by code_simp+
  have "str_find (to_lower origin_start @ ''content-length:'') ''content-length:'' 0 = Some 43" by code_simp
  from str_find_append [OF this, of x] show "str_find (to_lower origin_start @ ''content-length:'' @ x) ''content-length:'' 0 = Some 43"
    by simp
  have "str_find origin_start '' '' 0 = Some 8" by code_simp
  from str_find_append [OF this, of x] show "str_find (origin_start @ x) '' '' 0 = Some 8" by simp
qed

lemma origin_bench_head:
  assumes "length (origin_response keep body) < 2 ^ 63"
    and "length (print_response ''HTTP/1.1'' 200 ''OK'' (origin_fields keep body)) \<le> m"
  shows "bench_head (take m (origin_response keep body @ later)) = Some (200, int (length body), length (origin_response keep body))"
proof -
  let ?ls = "response_lines ''HTTP/1.1'' 200 ''OK'' (origin_fields keep body)"
  let ?h = "print_response ''HTTP/1.1'' 200 ''OK'' (origin_fields keep body)"
  define tail where "tail = take (m - length ?h) (body @ later)"
  define after where "after = ''Cache-Control: max-age=60'' @ crlf @ ''Connection: '' @ (if keep then ''keep-alive'' else ''close'') @ crlf"
  have buf: "take m (origin_response keep body @ later) = ?h @ tail"
    using assms(2) by (simp add: origin_response_print tail_def)
  have lines: "crlf_lines ?ls = origin_start @ ''Content-Length: '' @ nat_str (length body) @ crlf @ after"
  proof -
    have "nat_str 200 = ''200''" by code_simp
    then show ?thesis by (simp add: response_lines_def origin_fields_def header_line_def origin_start_def after_def)
  qed
  have h: "?h = crlf_lines ?ls @ crlf" by (simp add: print_response_def)
  have "?ls \<noteq> []" by (simp add: response_lines_def)
  from str_find_terminator [OF this response_lines_plain [OF origin_fields_ok], of tail]
  have find: "str_find (?h @ tail) (crlf @ crlf) 0 = Some (length (crlf_lines ?ls) - 2)" by (simp add: h)
  define head where "head = substr (?h @ tail) 0 (length (crlf_lines ?ls) - 2)"
  have after: "2 \<le> length after" by (simp add: after_def)
  have head: "head = origin_start @ ''Content-Length: '' @ nat_str (length body) @ crlf @ take (length after - 2) after"
  proof -
    define cut where "cut = origin_start @ ''Content-Length: '' @ nat_str (length body) @ crlf @ take (length after - 2) after"
    have "crlf_lines ?ls = cut @ drop (length after - 2) after" by (simp add: lines cut_def)
    moreover have "length (drop (length after - 2) after) = 2" using after by simp
    ultimately have e: "?h @ tail = cut @ (drop (length after - 2) after @ crlf @ tail)" "length (crlf_lines ?ls) - 2 = length cut"
      by (simp_all add: h)
    have "head = substr (cut @ (drop (length after - 2) after @ crlf @ tail)) 0 (length cut)"
      by (simp only: head_def e)
    then have "head = cut" by (simp add: substr_def)
    then show ?thesis by (simp add: cut_def)
  qed
  have need: "length (crlf_lines ?ls) - 2 + 4 = length ?h" using length_crlf_lines_ge [of ?ls] \<open>?ls \<noteq> []\<close> by (simp add: h)
  have "str_find (to_lower head) ''content-length:'' 0 = Some 43"
  proof -
    have "to_lower ''Content-Length: '' = ''content-length:'' @ '' ''" by code_simp
    then have "to_lower head = to_lower origin_start @ ''content-length:'' @ '' '' @ to_lower (nat_str (length body) @ crlf @ take (length after - 2) after)"
      by (simp only: head to_lower_append append_assoc)
    then show ?thesis by (simp only: origin_start_facts(3))
  qed
  moreover have "drop 58 head = '' '' @ nat_str (length body) @ crlf @ take (length after - 2) after"
    by (simp add: head origin_start_facts(1))
  moreover have "atoll ('' '' @ nat_str (length body) @ crlf @ x) = int (length body)" if "NUL \<notin> set x" for x
  proof -
    have "int (length body) \<le> LONG_MAX" using assms(1) by (simp add: origin_head_length LONG_MAX_def)
    then have "strtol (nat_str (length body) @ crlf @ x) = (int (length body), crlf @ x, False)"
      by (intro strtol_nat_str) simp_all
    moreover have "dropWhile isspace_c ('' '' @ y) = dropWhile isspace_c y" for y by (simp add: isspace_c_def)
    then have "fst (strtol ('' '' @ y)) = fst (strtol y)" for y
      by (cases "split_sign (dropWhile isspace_c y)") (simp add: strtol_def Let_def)
    moreover have "c_str ('' '' @ nat_str (length body) @ crlf @ x) = '' '' @ nat_str (length body) @ crlf @ x"
      using that by (intro c_str_id) (simp add: nat_str_free)
    ultimately show ?thesis by (simp add: atoll_def)
  qed
  moreover have "NUL \<notin> set (take (length after - 2) after)" by (auto simp: after_def dest!: in_set_takeD split: if_splits)
  moreover have "atoi (drop 9 (?h @ tail)) = 200"
  proof -
    have "drop 9 (?h @ tail) = nat_str 200 @ '' OK'' @ drop 15 (?h @ tail)"
    proof -
      have "nat_str 200 = ''200''" by code_simp
      then show ?thesis by (simp add: h lines origin_start_def)
    qed
    moreover have "c_str (nat_str 200 @ '' '' @ y) = nat_str 200 @ '' '' @ c_str y" for y
      by (simp add: c_str_def takeWhile_append nat_str_free [of NUL 200]) 
    moreover have "strtol (nat_str 200 @ '' '' @ y) = (200, '' '' @ y, False)" for y
      using strtol_nat_str [of 200 "'' '' @ y"] by (simp add: LONG_MAX_def)
    ultimately show ?thesis by (simp add: atoi_def)
  qed
  moreover have "str_find (?h @ tail) '' '' 0 = Some 8"
    using origin_start_facts(4) by (simp add: h lines)
  moreover have "(if int (length body) > 0 then of_int (int (length body)) else 0 :: u64) = of_nat (length body)" by simp
  moreover have "unat (of_nat (length ?h) + of_nat (length body) :: u64) = length ?h + length body"
    using assms(1) by (intro unat_sum_u64) (simp add: origin_head_length)
  ultimately show ?thesis
    unfolding buf bench_head_def find head_def [symmetric] option.case Let_def need
    by (cases "body = []") (simp_all only: option.case origin_head_length append_assoc, simp_all)
qed

lemma origin_bench_done:
  assumes "length (origin_response keep body) < 2 ^ 63"
  shows "m < length (origin_response keep body) \<Longrightarrow> bench_done (take m (origin_response keep body)) s = None"
    "bench_done (origin_response keep body @ later) s =
       Some (Read_ok 200 (length (origin_response keep body)), later, s)"
proof -
  let ?h = "print_response ''HTTP/1.1'' 200 ''OK'' (origin_fields keep body)"
  show "bench_done (take m (origin_response keep body)) s = None" if m: "m < length (origin_response keep body)"
  proof (cases "m < length ?h")
    case True
    then show ?thesis by (simp add: bench_done_def origin_no_head)
  next
    case False
    then have "bench_head (take m (origin_response keep body)) = Some (200, int (length body), length (origin_response keep body))"
      using origin_bench_head [OF assms, of m "[]"] by simp
    with m show ?thesis by (simp add: bench_done_def)
  qed
  have "bench_head (take (length (origin_response keep body) + length later) (origin_response keep body @ later)) =
      Some (200, int (length body), length (origin_response keep body))"
    by (rule origin_bench_head [OF assms]) (simp add: origin_head_length)
  then show "bench_done (origin_response keep body @ later) s =
      Some (Read_ok 200 (length (origin_response keep body)), later, s)"
    by (simp add: bench_done_def)
qed

text \<open>C32: The load generator reads exactly one response. Whatever the origin answers, and
  however the bytes are cut and interrupted, \<open>read_one_response\<close> returns status 200 and the
  length of the response; and what it leaves in its buffer, with what is still to be received,
  is exactly what follows that response, so the next request on the connection stays in step.\<close>

theorem reads_one_origin_response:
  assumes "length (origin_response keep body) < 2 ^ 63"
    and "sk_rx s = pre @ rest" "\<forall>a \<in> set pre. calm a"
    and "buf @ concat (map answer_bytes pre) = origin_response keep body @ extra"
  shows "\<exists>later s'. read_one_response msg buf s = (Read_ok 200 (length (origin_response keep body)), later, s') \<and>
      later @ rx_bytes s' = extra @ concat (map answer_bytes rest)"
  by (rule read_exact [OF origin_bench_done(1) [OF assms(1)] origin_bench_done(2) [OF assms(1)] assms(2-4)])

theorem reads_one_origin_response_witness:
  "\<exists>later s'. read_one_response \<lparr>msg_errno = (\<lambda>_. []), msg_gai = (\<lambda>_. [])\<rparr> (take 5 (origin_response True ''ab''))
     \<lparr>sk_rx = [Recv_fail EINTR, Recv (drop 5 (origin_response True ''ab'' @ ''HTTP''))], sk_tx = [], sk_poll = [], sk_wire = [],
      sk_errno = EAGAIN\<rparr> = (Read_ok 200 (length (origin_response True ''ab'')), later, s') \<and> later @ rx_bytes s' = ''HTTP'' @ []"
proof -
  have len: "length (origin_response True ''ab'') = 117" by code_simp
  have "drop 5 (origin_response True ''ab'' @ ''HTTP'') \<noteq> []" using len by simp
  then have calm: "\<forall>a \<in> set [Recv_fail EINTR, Recv (drop 5 (origin_response True ''ab'' @ ''HTTP''))]. calm a" by simp
  have "take 5 (origin_response True ''ab'') = take 5 (origin_response True ''ab'' @ ''HTTP'')" using len by simp
  then have cat: "take 5 (origin_response True ''ab'') @
      concat (map answer_bytes [Recv_fail EINTR, Recv (drop 5 (origin_response True ''ab'' @ ''HTTP''))]) =
      origin_response True ''ab'' @ ''HTTP''" by (simp only: list.map concat.simps answer_bytes.simps append_Nil append_Nil2 append_take_drop_id)
  have short: "length (origin_response True ''ab'') < 2 ^ 63" using len by simp
  show ?thesis
    using reads_one_origin_response [OF short _ calm cat, where rest = "[]"] by simp
qed

text \<open>A finding. The comment says the search for the header is case-insensitive on the
  name only, but the name is searched as text anywhere in the head: a header whose name merely
  ends in \<open>Content-Length\<close>, or a value that contains it, is taken for it. On this response the
  proxy finds 3 bytes of body and a complete message; the load generator waits for 99.\<close>

theorem content_length_found_inside_another_name:
  "bench_head (print_response ''HTTP/1.1'' 200 ''OK'' [(''X-Content-Length'', ''99''), (''Content-Length'', ''3'')] @ ''abc'') =
     Some (200, 99, 159) \<and>
   response_complete (print_response ''HTTP/1.1'' 200 ''OK'' [(''X-Content-Length'', ''99''), (''Content-Length'', ''3'')] @ ''abc'')
     (parse_response_headers (print_response ''HTTP/1.1'' 200 ''OK'' [(''X-Content-Length'', ''99''), (''Content-Length'', ''3'')] @ ''abc''))"
  by code_simp

section \<open>A worker\<close>

record totals =
  tot_ok :: int
  tot_failed :: int
  tot_conns :: int
  tot_bytes :: int
  tot_non_200 :: int
  tot_errors :: "bytes list"

definition new_totals :: totals where
  "new_totals = \<lparr>tot_ok = 0, tot_failed = 0, tot_conns = 0, tot_bytes = 0, tot_non_200 = 0, tot_errors = []\<rparr>"

definition note_error :: "config \<Rightarrow> bytes \<Rightarrow> totals \<Rightarrow> totals" where
  "note_error cf what g =
     (if \<not> cf_verbose_errors cf then g
      else if length (tot_errors g) < 20 then g\<lparr>tot_errors := tot_errors g @ [what]\<rparr> else g)"

text \<open>What a worker holds between two requests; \<open>bw_res\<close> records the descriptors opened and
  closed so far.\<close>

record bench_worker =
  bw_sock :: "sock option"
  bw_rbuf :: bytes
  bw_lat :: "nat list"
  bw_res :: "resource list"

definition new_worker :: bench_worker where
  "new_worker = \<lparr>bw_sock = None, bw_rbuf = [], bw_lat = [], bw_res = []\<rparr>"

definition bench_request :: "config \<Rightarrow> nat \<Rightarrow> bytes" where
  "bench_request cf url_id =
     ''GET '' @ (''/resource/'' @ nat_str url_id) @ '' HTTP/1.1'' @ crlf @ ''Host: '' @ cf_host_header cf @ crlf @
     (if cf_keep_alive cf then ''Connection: keep-alive'' @ crlf else ''Connection: close'' @ crlf) @ crlf"

definition bench_connect :: "config \<Rightarrow> messages \<Rightarrow> int \<Rightarrow> connect_env \<Rightarrow> totals \<times> bench_worker \<Rightarrow>
    (bytes + sock) \<times> totals \<times> bench_worker" where
  "bench_connect cf msg thread_id env = (\<lambda>(g, w).
     case bw_sock w of
       Some s \<Rightarrow> (Inr s, g, w)
     | None \<Rightarrow>
         (case connect_to cf msg thread_id env of
            (Inl err, rs) \<Rightarrow> (Inl err, g, w\<lparr>bw_res := bw_res w @ rs\<rparr>)
          | (Inr s, rs) \<Rightarrow> (Inr s, g\<lparr>tot_conns := tot_conns g + 1\<rparr>, w\<lparr>bw_res := bw_res w @ rs, bw_rbuf := []\<rparr>)))"

definition bench_fail :: "config \<Rightarrow> bytes \<Rightarrow> totals \<Rightarrow> totals" where
  "bench_fail cf what g = note_error cf what (g\<lparr>tot_failed := tot_failed g + 1\<rparr>)"

definition bench_close :: "bench_worker \<Rightarrow> bench_worker" where
  "bench_close w = w\<lparr>bw_sock := None, bw_res := bw_res w @ [Sock_close]\<rparr>"

text \<open>One turn of the loop: the draw, the answers of the kernel to a connect and the measured
  microseconds are its inputs.\<close>

definition bench_turn :: "config \<Rightarrow> messages \<Rightarrow> int \<Rightarrow> rat list \<Rightarrow> rat \<times> connect_env \<times> nat \<Rightarrow>
    totals \<times> bench_worker \<Rightarrow> totals \<times> bench_worker" where
  "bench_turn cf msg thread_id cdf = (\<lambda>(r, env, us) gw.
     let req = bench_request cf (zipf_draw cdf r) in
     case bench_connect cf msg thread_id env gw of
       (Inl err, g, w) \<Rightarrow> (bench_fail cf err g, w)
     | (Inr s, g, w) \<Rightarrow>
         (case bench_send_all req s of
            (False, s) \<Rightarrow> (bench_fail cf ''send failed'' g, bench_close w)
          | (True, s) \<Rightarrow>
              (case read_one_response msg (bw_rbuf w) s of
                 (Read_error err, buf, s) \<Rightarrow> (bench_fail cf err g, bench_close (w\<lparr>bw_rbuf := buf\<rparr>))
               | (Read_ok status got, buf, s) \<Rightarrow>
                   let w = w\<lparr>bw_sock := Some s, bw_rbuf := buf, bw_lat := bw_lat w @ [us]\<rparr>;
                       g = g\<lparr>tot_ok := tot_ok g + 1, tot_bytes := tot_bytes g + int got,
                             tot_non_200 := (if status \<noteq> 200 then tot_non_200 g + 1 else tot_non_200 g)\<rparr> in
                   (g, if \<not> cf_keep_alive cf then bench_close w else w))))"

text \<open>\<open>None\<close>: \<open>reserve\<close> throws on a negative number of requests and the process ends.\<close>

definition bench_worker_run :: "(nat \<Rightarrow> rat \<Rightarrow> rat) \<Rightarrow> messages \<Rightarrow> config \<Rightarrow> int \<Rightarrow> (nat \<Rightarrow> rat \<times> connect_env \<times> nat) \<Rightarrow>
    totals \<Rightarrow> (totals \<times> bench_worker) option" where
  "bench_worker_run pw msg cf thread_id inputs g =
     (if cf_requests_per_thread cf < 0 then None
      else
        let cdf = zipf_cdf pw (cf_zipf_alpha cf) (nat (cf_num_unique_urls cf));
            (g, w) = fold (\<lambda>i. bench_turn cf msg thread_id cdf (inputs i)) [0..<nat (cf_requests_per_thread cf)] (g, new_worker);
            w = (case bw_sock w of Some s \<Rightarrow> bench_close w | None \<Rightarrow> w) in
        Some (g, w))"

text \<open>What holds after \<open>n\<close> turns that began with totals \<open>g0\<close>.\<close>

definition counted :: "totals \<Rightarrow> nat \<Rightarrow> totals \<times> bench_worker \<Rightarrow> bool" where
  "counted g0 n = (\<lambda>(g, w).
     tot_ok g + tot_failed g = tot_ok g0 + tot_failed g0 + int n \<and>
     tot_ok g = tot_ok g0 + int (length (bw_lat w)) \<and>
     tot_non_200 g - tot_non_200 g0 \<le> tot_ok g - tot_ok g0 \<and> tot_non_200 g0 \<le> tot_non_200 g \<and>
     (length (tot_errors g0) \<le> 20 \<longrightarrow> length (tot_errors g) \<le> 20) \<and>
     count_list (bw_res w) Sock_open = count_list (bw_res w) Sock_close + (if bw_sock w = None then 0 else 1))"

lemma bench_turn_counted:
  assumes "counted g0 n (g, w)"
  shows "counted g0 (Suc n) (bench_turn cf msg thread_id cdf input (g, w))"
proof -
  obtain r env us where i: "input = (r, env, us)" by (cases input)
  have errs: "length (tot_errors (bench_fail cf e x)) \<le> max 20 (length (tot_errors x))"
    "tot_ok (bench_fail cf e x) = tot_ok x" "tot_failed (bench_fail cf e x) = tot_failed x + 1"
    "tot_non_200 (bench_fail cf e x) = tot_non_200 x" "length (tot_errors x) \<le> 20 \<Longrightarrow> length (tot_errors (bench_fail cf e x)) \<le> 20" for e x
    by (auto simp: bench_fail_def note_error_def)
  obtain c g1 w1 where c: "bench_connect cf msg thread_id env (g, w) = (c, g1, w1)" by (metis prod_cases3)
  have conn: "tot_ok g1 = tot_ok g" "tot_failed g1 = tot_failed g" "tot_non_200 g1 = tot_non_200 g" "tot_errors g1 = tot_errors g"
    "bw_lat w1 = bw_lat w" "bw_sock w1 = bw_sock w"
    "count_list (bw_res w1) Sock_open = count_list (bw_res w1) Sock_close + (if \<exists>s. c = Inr s then 1 else 0)" 
    "\<not> (\<exists>s. c = Inr s) \<Longrightarrow> bw_sock w = None"
    using c assms by (auto simp: bench_connect_def connect_to_def counted_def split: option.splits if_splits)
  show ?thesis
  proof (cases c)
    case (Inl e)
    then show ?thesis using assms conn errs(5) [of g1 e]
      by (simp add: i bench_turn_def c counted_def errs Let_def)
  next
    case (Inr s)
    obtain sent s1 where s: "bench_send_all (bench_request cf (zipf_draw cdf r)) s = (sent, s1)" by fastforce
    obtain res buf s2 where rd: "read_one_response msg (bw_rbuf w1) s1 = (res, buf, s2)" by (metis prod_cases3)
    show ?thesis
      using assms conn errs(5) [of g1] Inr
      by (cases sent; cases res) (simp_all add: i bench_turn_def c s rd counted_def errs Let_def bench_close_def)
  qed
qed

lemma bench_turns_counted:
  "counted g0 (length xs) (fold (\<lambda>i. bench_turn cf msg thread_id cdf (inputs i)) xs (g0, new_worker))"
proof (induction xs rule: rev_induct)
  case Nil
  show ?case by (simp add: counted_def new_worker_def)
next
  case (snoc x xs)
  then show ?case
    by (cases "fold (\<lambda>i. bench_turn cf msg thread_id cdf (inputs i)) xs (g0, new_worker)") (simp add: bench_turn_counted)
qed

text \<open>A worker counts every request once and leaks nothing. For every configuration with a
  number of requests that is not negative, whatever the kernel and the peers answer, the worker
  ends: the requests it counted as served and as failed add up to the requests asked for, the
  latencies it reports are those of the served ones, at most those are counted as not 200, at
  most 20 errors are kept, and every socket it opened is closed.\<close>

theorem bench_worker_counts:
  assumes "0 \<le> cf_requests_per_thread cf" "length (tot_errors g0) \<le> 20"
  shows "\<exists>g w. bench_worker_run pw msg cf thread_id inputs g0 = Some (g, w) \<and>
      tot_ok g - tot_ok g0 + (tot_failed g - tot_failed g0) = cf_requests_per_thread cf \<and>
      int (length (bw_lat w)) = tot_ok g - tot_ok g0 \<and>
      0 \<le> tot_non_200 g - tot_non_200 g0 \<and> tot_non_200 g - tot_non_200 g0 \<le> tot_ok g - tot_ok g0 \<and>
      length (tot_errors g) \<le> 20 \<and> bw_sock w = None \<and>
      count_list (bw_res w) Sock_open = count_list (bw_res w) Sock_close"
proof -
  let ?xs = "[0..<nat (cf_requests_per_thread cf)]"
  obtain g w where f: "fold (\<lambda>i. bench_turn cf msg thread_id (zipf_cdf pw (cf_zipf_alpha cf) (nat (cf_num_unique_urls cf))) (inputs i))
      ?xs (g0, new_worker) = (g, w)" by fastforce
  from bench_turns_counted [of g0 ?xs cf msg thread_id "zipf_cdf pw (cf_zipf_alpha cf) (nat (cf_num_unique_urls cf))" inputs]
  have "counted g0 (nat (cf_requests_per_thread cf)) (g, w)" by (simp add: f)
  then show ?thesis using assms
    by (cases "bw_sock w") (simp_all add: bench_worker_run_def Let_def f counted_def bench_close_def)
qed

theorem bench_worker_counts_witness:
  "\<exists>g w. bench_worker_run (\<lambda>i a. 1) \<lparr>msg_errno = (\<lambda>_. []), msg_gai = (\<lambda>_. [])\<rparr> (new_config\<lparr>cf_requests_per_thread := 2\<rparr>) 0
      (\<lambda>i. (1, \<lparr>ce_socket = None, ce_bind = None, ce_connect = (if i = 0 then Some (Errno 111) else None),
         ce_sock = \<lparr>sk_rx = [], sk_tx = [], sk_poll = [], sk_wire = [], sk_errno = EAGAIN\<rparr>\<rparr>, 7)) new_totals = Some (g, w) \<and>
      tot_ok g - 0 + (tot_failed g - 0) = 2"
proof -
  have "0 \<le> cf_requests_per_thread (new_config\<lparr>cf_requests_per_thread := 2\<rparr>)" "length (tot_errors new_totals) \<le> 20"
    by (simp_all add: new_totals_def)
  from bench_worker_counts [OF this, of "\<lambda>i a. 1" "\<lparr>msg_errno = (\<lambda>_. []), msg_gai = (\<lambda>_. [])\<rparr>" 0
      "\<lambda>i. (1, \<lparr>ce_socket = None, ce_bind = None, ce_connect = (if i = 0 then Some (Errno 111) else None),
         ce_sock = \<lparr>sk_rx = [], sk_tx = [], sk_poll = [], sk_wire = [], sk_errno = EAGAIN\<rparr>\<rparr>, 7)"]
  show ?thesis by (auto simp: new_totals_def)
qed

section \<open>Percentiles\<close>

text \<open>\<open>None\<close>: the element is read outside the vector.\<close>

definition pct :: "nat list \<Rightarrow> rat \<Rightarrow> rat option" where
  "pct sorted_lat p =
     (if sorted_lat = [] then Some 0
      else
        let idx = p / 100 * of_nat (length sorted_lat - 1);
            lo = nat \<lfloor>idx\<rfloor>;
            hi = min (lo + 1) (length sorted_lat - 1);
            frac = idx - of_nat lo in
        if lo < length sorted_lat
        then Some ((of_nat (sorted_lat ! lo) * (1 - frac) + of_nat (sorted_lat ! hi) * frac) / 1000)
        else None)"

lemma pct_within:
  assumes "sorted xs" "xs \<noteq> []" "0 \<le> p" "p \<le> 100"
  shows "\<exists>v. pct xs p = Some v \<and> of_nat (hd xs) / 1000 \<le> v \<and> v \<le> of_nat (last xs) / 1000"
proof -
  define n where "n = length xs - 1"
  define idx where "idx = p / 100 * of_nat n"
  define lo where "lo = nat \<lfloor>idx\<rfloor>"
  define frac where "frac = idx - of_nat lo"
  define hi where "hi = min (lo + 1) n"
  have "p / 100 * of_nat n \<le> 1 * of_nat n" using assms(4) by (intro mult_right_mono) simp_all
  then have idx: "0 \<le> idx" "idx \<le> of_nat n" using assms(3) by (simp_all add: idx_def)
  have lo_eq: "(of_nat lo :: rat) = of_int \<lfloor>idx\<rfloor>" using idx(1) by (simp add: lo_def of_nat_nat)
  have frac: "0 \<le> frac" "frac \<le> 1" using floor_correct [of idx] by (simp_all add: frac_def lo_eq)
  have "\<lfloor>idx\<rfloor> \<le> int n" using idx(2) by (metis floor_mono floor_of_nat)
  then have lo: "lo \<le> n" by (simp add: lo_def)
  have n: "n < length xs" using assms(2) by (simp add: n_def)
  have le: "xs ! 0 \<le> xs ! i \<and> xs ! i \<le> xs ! n" if "i \<le> n" for i
    using sorted_nth_mono [OF assms(1), of 0 i] sorted_nth_mono [OF assms(1), of i n] that n by simp
  define u v where "u = (of_nat (xs ! lo) :: rat)" and "v = (of_nat (xs ! hi) :: rat)"
  define a b where "a = (of_nat (xs ! 0) :: rat)" and "b = (of_nat (xs ! n) :: rat)"
  have uv: "a \<le> u" "u \<le> b" "a \<le> v" "v \<le> b"
    using le [OF lo] le [of hi] by (simp_all add: u_def v_def a_def b_def hi_def)
  have "a * (1 - frac) + a * frac \<le> u * (1 - frac) + v * frac" "u * (1 - frac) + v * frac \<le> b * (1 - frac) + b * frac"
    using uv frac by (intro add_mono mult_right_mono; simp)+
  moreover have "x * (1 - frac) + x * frac = x" for x by (simp add: algebra_simps)
  ultimately have "a \<le> u * (1 - frac) + v * frac" "u * (1 - frac) + v * frac \<le> b" by simp_all
  moreover have "pct xs p = Some ((u * (1 - frac) + v * frac) / 1000)"
    using assms(2) lo n unfolding pct_def Let_def
    by (simp only: u_def v_def frac_def hi_def lo_def idx_def n_def if_False if_True order.strict_trans1)
  ultimately show ?thesis
    using assms(2) by (intro exI [of _ "(u * (1 - frac) + v * frac) / 1000"])
      (simp add: a_def b_def n_def hd_conv_nth last_conv_nth)
qed

lemma pct_max: "xs \<noteq> [] \<Longrightarrow> pct xs 100 = Some (of_nat (last xs) / 1000)"
  by (simp add: pct_def Let_def last_conv_nth min_def)

end
