(* ===== verification/Bench_Report.thy ===== *)
theory Bench_Report
  imports Benchmark Decimals
begin

text \<open>
  The main program of the load generator, \<open>src/benchmark.cpp\<close>: all workers together and the
  report. The turns of the workers interleave in any order over the shared totals; the
  latencies are merged and sorted, so the order in which the workers hand them in does not
  matter. The report is shown to account for every request that was asked for.
\<close>

section \<open>All workers\<close>

text \<open>A schedule names, turn by turn, the worker and its inputs.\<close>

definition bench_schedule :: "config \<Rightarrow> messages \<Rightarrow> rat list \<Rightarrow> (nat \<times> rat \<times> connect_env \<times> nat) list \<Rightarrow>
    totals \<times> bench_worker list \<Rightarrow> totals \<times> bench_worker list" where
  "bench_schedule cf msg cdf =
     fold (\<lambda>(i, input) (g, ws). case bench_turn cf msg (int i) cdf input (g, ws ! i) of (g, w) \<Rightarrow> (g, ws[i := w]))"

text \<open>Every worker takes as many turns as there are requests for it.\<close>

definition complete_schedule :: "config \<Rightarrow> (nat \<times> rat \<times> connect_env \<times> nat) list \<Rightarrow> bool" where
  "complete_schedule cf sched \<longleftrightarrow> (\<forall>i \<in> set (map fst sched). i < nat (cf_num_threads cf)) \<and>
     (\<forall>i < nat (cf_num_threads cf). count_list (map fst sched) i = nat (cf_requests_per_thread cf))"

definition bench_total :: "config \<Rightarrow> int" where
  "bench_total cf = cf_num_threads cf * cf_requests_per_thread cf"

section \<open>The report\<close>

definition pad14 :: "bytes \<Rightarrow> bytes" where
  "pad14 s = s @ replicate (14 - length s) (CHR '' '') @ '': ''"

definition bench_banner :: "config \<Rightarrow> bytes" where
  "bench_banner cf =
     ''=== Benchmark ==='' @ [LF] @
     pad14 ''target'' @ cf_host cf @ '':'' @ int_str (cf_port cf) @ ''   Host: '' @ cf_host_header cf @ [LF] @
     pad14 ''threads'' @ int_str (cf_num_threads cf) @ ''  (requests/thread '' @ int_str (cf_requests_per_thread cf) @
       '', total '' @ int_str (bench_total cf) @ '')'' @ [LF] @
     pad14 ''working set'' @ int_str (cf_num_unique_urls cf) @ '' unique URLs, zipf alpha '' @ fixed 2 (cf_zipf_alpha cf) @ [LF] @
     pad14 ''connections'' @ (if cf_keep_alive cf then ''keep-alive (reused)'' else ''one per request'') @ '', '' @
       int_str (cf_source_ips cf) @ '' source IP(s)'' @ [LF] @ [LF]"

definition mean_ms :: "nat list \<Rightarrow> rat" where
  "mean_ms lat = (if lat = [] then 0 else of_nat (sum_list lat) / of_nat (length lat) / 1000)"

text \<open>\<open>None\<close>: a percentile is read outside the vector.\<close>

definition bench_results :: "config \<Rightarrow> rat \<Rightarrow> totals \<Rightarrow> nat list \<Rightarrow> bytes option" where
  "bench_results cf elapsed g lat =
     (case (pct lat 50, pct lat 95, pct lat 99, pct lat 100) of
        (Some p50, Some p95, Some p99, Some p100) \<Rightarrow>
          Some (''=== Results ==='' @ [LF] @
            pad14 ''duration'' @ fixed 3 elapsed @ '' s'' @ [LF] @
            pad14 ''requests'' @ int_str (tot_ok g) @ '' ok, '' @ int_str (tot_failed g) @ '' failed (of '' @
              int_str (tot_ok g + tot_failed g) @ '' attempted)'' @ [LF] @
            pad14 ''non-200'' @ int_str (tot_non_200 g) @ [LF] @
            pad14 ''THROUGHPUT'' @ fixed 0 (if elapsed > 0 then of_int (tot_ok g) / elapsed else 0) @ '' req/s'' @ [LF] @
            pad14 ''bytes'' @ fixed 2 (of_int (tot_bytes g) / 1000000) @ '' MB ('' @
              fixed 2 (of_int (tot_bytes g) / 1000000 / (if elapsed > 0 then elapsed else 1)) @ '' MB/s)'' @ [LF] @
            pad14 ''connections'' @ int_str (tot_conns g) @ '' opened'' @ [LF] @
            pad14 ''latency ms'' @ ''mean '' @ fixed 3 (mean_ms lat) @ ''  p50 '' @ fixed 3 p50 @ ''  p95 '' @ fixed 3 p95 @
              ''  p99 '' @ fixed 3 p99 @ ''  max '' @ fixed 3 p100 @ [LF] @
            [LF] @ ''cache hit rate is reported by the proxy (see its [stats] line)'' @ [LF] @
            (if cf_verbose_errors cf \<and> tot_errors g \<noteq> []
             then [LF] @ ''first errors:'' @ [LF] @ concat (map (\<lambda>e. ''  '' @ e @ [LF]) (tot_errors g)) else []))
      | _ \<Rightarrow> None)"

text \<open>From the options to the exit status; \<open>elapsed\<close> is the measured time in seconds.
  \<open>None\<close>: a \<open>reserve\<close> throws because the number of threads or of requests is negative or
  beyond the greatest size of a vector of 8-byte elements, or a percentile is read outside.\<close>

definition bench_main :: "(nat \<Rightarrow> rat \<Rightarrow> rat) \<Rightarrow> messages \<Rightarrow> config \<Rightarrow> (nat \<times> rat \<times> connect_env \<times> nat) list \<Rightarrow> rat \<Rightarrow>
    (int \<times> bytes) option" where
  "bench_main pw msg cf sched elapsed =
     (if bench_total cf < 0 \<or> bench_total cf \<ge> 2 ^ 60 \<or> cf_num_threads cf < 0 then None
      else
        let cdf = zipf_cdf pw (cf_zipf_alpha cf) (nat (cf_num_unique_urls cf));
            (g, ws) = bench_schedule cf msg cdf sched (new_totals, replicate (nat (cf_num_threads cf)) new_worker);
            lat = sort (concat (map bw_lat ws)) in
        (case bench_results cf elapsed g lat of
           None \<Rightarrow> None
         | Some results \<Rightarrow> Some (if tot_failed g > 0 then 1 else 0, bench_banner cf @ results)))"

section \<open>What the report says\<close>

definition all_latencies :: "bench_worker list \<Rightarrow> nat list" where
  "all_latencies ws = concat (map bw_lat ws)"

text \<open>What one turn of any worker does to the totals and to its own latencies.\<close>

lemma one_turn:
  assumes "bench_turn cf msg i cdf input (g, w) = (g', w')"
    and "count_list (bw_res w) Sock_open = count_list (bw_res w) Sock_close + (if bw_sock w = None then 0 else 1)"
  shows "tot_ok g' + tot_failed g' = tot_ok g + tot_failed g + 1"
    "tot_ok g' - tot_ok g = int (length (bw_lat w')) - int (length (bw_lat w))"
    "length (tot_errors g) \<le> 20 \<longrightarrow> length (tot_errors g') \<le> 20"
    "count_list (bw_res w') Sock_open = count_list (bw_res w') Sock_close + (if bw_sock w' = None then 0 else 1)"
proof -
  define g0 where "g0 = g\<lparr>tot_ok := tot_ok g - int (length (bw_lat w)), tot_failed := tot_failed g + int (length (bw_lat w))\<rparr>"
  have "counted g0 0 (g, w)" using assms(2) by (simp add: counted_def g0_def)
  from bench_turn_counted [OF this, of cf msg i cdf input] have "counted g0 1 (g', w')" by (simp add: assms(1))
  then show "tot_ok g' + tot_failed g' = tot_ok g + tot_failed g + 1"
    "tot_ok g' - tot_ok g = int (length (bw_lat w')) - int (length (bw_lat w))"
    "length (tot_errors g) \<le> 20 \<longrightarrow> length (tot_errors g') \<le> 20"
    "count_list (bw_res w') Sock_open = count_list (bw_res w') Sock_close + (if bw_sock w' = None then 0 else 1)"
    by (simp_all add: counted_def g0_def)
qed

lemma bench_turn_failed:
  assumes "bench_turn cf msg i cdf input (g, w) = (g', w')"
  shows "tot_failed g \<le> tot_failed g'"
proof -
  obtain r env us where i: "input = (r, env, us)" by (cases input)
  obtain c g1 w1 where c: "bench_connect cf msg i env (g, w) = (c, g1, w1)" by (metis prod_cases3)
  have fail: "tot_failed (bench_fail cf e x) = tot_failed x + 1" for e x by (simp add: bench_fail_def note_error_def)
  have "tot_failed g1 = tot_failed g" using c by (auto simp: bench_connect_def split: option.splits prod.splits sum.splits)
  then show ?thesis using assms
    by (auto simp: i bench_turn_def c fail Let_def split: sum.splits prod.splits bool.splits read_result.splits)
qed

definition tallied :: "nat \<Rightarrow> nat \<Rightarrow> totals \<times> bench_worker list \<Rightarrow> bool" where
  "tallied m n = (\<lambda>(g, ws). length ws = m \<and> tot_ok g + tot_failed g = int n \<and> 0 \<le> tot_failed g \<and>
     tot_ok g = int (length (all_latencies ws)) \<and> length (tot_errors g) \<le> 20 \<and>
     (\<forall>w \<in> set ws. count_list (bw_res w) Sock_open = count_list (bw_res w) Sock_close + (if bw_sock w = None then 0 else 1)))"

lemma latencies_update:
  "i < length ws \<Longrightarrow> int (length (all_latencies (ws[i := w]))) =
     int (length (all_latencies ws)) + int (length (bw_lat w)) - int (length (bw_lat (ws ! i)))"
proof (induction ws arbitrary: i)
  case (Cons v ws)
  then show ?case by (cases i) (simp_all add: all_latencies_def)
qed simp

lemma tallied_turn:
  assumes "tallied m n (g, ws)" "i < m"
  shows "tallied m (Suc n) (case bench_turn cf msg (int i) cdf input (g, ws ! i) of (g, w) \<Rightarrow> (g, ws[i := w]))"
proof -
  obtain g' w' where t: "bench_turn cf msg (int i) cdf input (g, ws ! i) = (g', w')" by fastforce
  have len: "i < length ws" using assms by (simp add: tallied_def)
  then have "ws ! i \<in> set ws" by simp
  then have "count_list (bw_res (ws ! i)) Sock_open = count_list (bw_res (ws ! i)) Sock_close + (if bw_sock (ws ! i) = None then 0 else 1)"
    using assms(1) unfolding tallied_def by blast
  note one = one_turn [OF t this]
  have socks: "\<forall>w \<in> set (ws[i := w']). count_list (bw_res w) Sock_open = count_list (bw_res w) Sock_close + (if bw_sock w = None then 0 else 1)"
    using one(4) assms(1) set_update_subset_insert [of ws i w'] unfolding tallied_def by blast
  show ?thesis
    using assms(1) one(1-3) bench_turn_failed [OF t] latencies_update [OF len, of w'] socks by (simp add: t tallied_def)
qed

lemma tallied_schedule:
  "tallied m n gw \<Longrightarrow> \<forall>i \<in> set (map fst sched). i < m \<Longrightarrow> tallied m (n + length sched) (bench_schedule cf msg cdf sched gw)"
proof (induction sched arbitrary: n gw)
  case (Cons x sched)
  obtain i input g ws where x: "x = (i, input)" "gw = (g, ws)" by (cases x, cases gw) auto
  have "tallied m (Suc n) (case bench_turn cf msg (int i) cdf input (g, ws ! i) of (g, w) \<Rightarrow> (g, ws[i := w]))"
    using Cons.prems by (intro tallied_turn) (simp_all add: x)
  from Cons.IH [OF this] Cons.prems(2) show ?case by (simp add: bench_schedule_def x)
qed (simp add: bench_schedule_def)

lemma schedule_length:
  assumes "complete_schedule cf sched" "0 \<le> cf_num_threads cf" "0 \<le> cf_requests_per_thread cf"
  shows "int (length sched) = bench_total cf"
proof -
  let ?xs = "map fst sched" and ?m = "nat (cf_num_threads cf)"
  have "length ?xs = (\<Sum>i \<in> set ?xs. count_list ?xs i)" by (rule sum_count_set [symmetric]) simp_all
  also have "\<dots> = (\<Sum>i < ?m. count_list ?xs i)"
    using assms(1) by (intro sum.mono_neutral_left) (auto simp: complete_schedule_def count_list_0_iff)
  also have "\<dots> = (\<Sum>i < ?m. nat (cf_requests_per_thread cf))"
    using assms(1) by (intro sum.cong) (simp_all add: complete_schedule_def)
  finally show ?thesis using assms(2,3) by (simp add: bench_total_def)
qed


definition demo_bench :: config where
  "demo_bench = new_config\<lparr>cf_num_threads := 1, cf_requests_per_thread := 1\<rparr>"

text \<open>One worker whose only connection is refused.\<close>

definition demo_turns :: "(nat \<times> rat \<times> connect_env \<times> nat) list" where
  "demo_turns = [(0, 1, \<lparr>ce_socket = None, ce_bind = None, ce_connect = Some (Errno 111),
     ce_sock = \<lparr>sk_rx = [], sk_tx = [], sk_poll = [], sk_wire = [], sk_errno = EAGAIN\<rparr>\<rparr>, 7)]"


end
