(* ===== verification/End_To_End.thy ===== *)
theory End_To_End
  imports Benchmark Relay
begin

text \<open>
  The three programs together: a request of the load generator (\<open>src/benchmark.cpp\<close>) through
  the proxy (\<open>src/server_phase5.cpp\<close>) to the origin (\<open>src/origin_server.cpp\<close>) and back.
\<close>

section \<open>A request of the load generator\<close>

definition bench_path :: "nat \<Rightarrow> bytes" where
  "bench_path url_id = ''/resource/'' @ nat_str url_id"

definition bench_fields :: "config \<Rightarrow> (bytes \<times> bytes) list" where
  "bench_fields cf = [(''Host'', cf_host_header cf), (''Connection'', if cf_keep_alive cf then ''keep-alive'' else ''close'')]"

lemma bench_request_print:
  "bench_request cf url_id = print_request ''GET'' (bench_path url_id) ''HTTP/1.1'' (bench_fields cf)"
  by (simp add: bench_request_def print_request_def request_lines_def bench_path_def bench_fields_def header_line_def)

lemma bench_printable:
  assumes "field_ok (''Host'', cf_host_header cf)"
  shows "printable ''GET'' (bench_path url_id) ''HTTP/1.1'' (bench_fields cf)"
proof -
  have "field_ok (''Connection'', ''keep-alive'')" "field_ok (''Connection'', ''close'')" "word_ok ''GET''" "version_ok ''HTTP/1.1''"
    "word_ok ''/resource/''" by code_simp+
  moreover have "\<not> isdigit_c (CHR '' '')" "\<not> isdigit_c CR" "\<not> isdigit_c LF" by code_simp+
  then have "word_ok (bench_path url_id)"
    using nat_str_free [of _ url_id] \<open>word_ok ''/resource/''\<close> by (simp add: word_ok_def bench_path_def)
  ultimately show ?thesis using assms by (simp add: printable_def bench_fields_def)
qed

lemma bench_parsed:
  fixes url_id :: nat
  assumes "field_ok (''Host'', cf_host_header cf)" "cf_host_header cf \<noteq> []"
  defines "req \<equiv> parse_request (bench_request cf url_id)"
  shows "req_valid req" "req_host req = cf_host_header cf" "req_path req = bench_path url_id" "req_method req = ''GET''"
    "req_keep_alive req = cf_keep_alive cf" "cacheable_request req" "req_raw req = bench_request cf url_id"
    "expected_request_bytes req = of_nat (length (bench_request cf url_id))"
proof -
  let ?raw = "print_request ''GET'' (bench_path url_id) ''HTTP/1.1'' (bench_fields cf)"
  note p = bench_printable [OF assms(1), of url_id]
  have l: "to_lower ''Host'' = ''host''" "to_lower ''Connection'' = ''connection''" "to_lower ''keep-alive'' = ''keep-alive''"
    "to_lower ''close'' = ''close''" "to_lower ''/resource/'' = ''/resource/''" by code_simp+
  have c: "str_contains ''close'' ''close''" "\<not> str_contains ''keep-alive'' ''close''" "str_contains ''keep-alive'' ''keep-alive''" by code_simp+
  have v: "field_values (bench_fields cf) ''host'' = [cf_host_header cf]"
    "field_values (bench_fields cf) ''connection'' = [if cf_keep_alive cf then ''keep-alive'' else ''close'']"
    "field_values (bench_fields cf) ''content-length'' = []" "field_values (bench_fields cf) ''authorization'' = []"
    by (simp_all add: field_values_def bench_fields_def l)
  note H = header_loop_print [OF p]
  have "to_lower (bench_path url_id) = ''/resource/'' @ to_lower (nat_str url_id)" by (simp only: bench_path_def to_lower_append l)
  then have "take 7 (to_lower (bench_path url_id)) \<noteq> ''http://''" by simp
  then have "req_host req = cf_host_header cf \<and> req_path req = bench_path url_id \<and> req_keep_alive req = cf_keep_alive cf \<and>
      req_content_length req = -1 \<and> req_header req ''authorization'' = None \<and> req_raw req = ?raw"
    using parse_request_print [OF p, of "[]"] assms(2) unfolding req_def bench_request_print
    by (simp add: parse_fields_def normalise_target_def target_parts_def req_header_def Let_def H v parse_content_length_def
        decide_keep_alive_def l c)
  with print_request_facts [OF p, of "[]"] assms(2)
  show "req_valid req" "req_host req = cf_host_header cf" "req_path req = bench_path url_id" "req_method req = ''GET''"
    "req_keep_alive req = cf_keep_alive cf" "cacheable_request req" "req_raw req = bench_request cf url_id"
    "expected_request_bytes req = of_nat (length (bench_request cf url_id))"
    unfolding req_def bench_request_print by (simp_all add: cacheable_request_def expected_request_bytes_def)
qed

definition bench_head_text :: "config \<Rightarrow> nat \<Rightarrow> bytes" where
  "bench_head_text cf url_id = take (length (bench_request cf url_id) - 4) (bench_request cf url_id)"

lemma bench_head_text:
  assumes "field_ok (''Host'', cf_host_header cf)"
  shows "bench_request cf url_id = bench_head_text cf url_id @ crlf @ crlf" "whole_head (bench_head_text cf url_id)"
    "target_between (bench_head_text cf url_id) = bench_path url_id"
proof -
  note p = bench_printable [OF assms, of url_id]
  define tail where "tail = ''HTTP/1.1'' @ crlf @ ''Host: '' @ cf_host_header cf @ crlf @ ''Connection: '' @ (if cf_keep_alive cf then ''keep-alive'' else ''close'')"
  have r: "bench_request cf url_id = (''GET'' @ '' '' @ bench_path url_id @ '' '' @ tail) @ crlf @ crlf"
    by (simp add: bench_request_def bench_path_def tail_def)
  then have h: "bench_head_text cf url_id = ''GET'' @ '' '' @ bench_path url_id @ '' '' @ tail"
    by (simp add: bench_head_text_def)
  show eq: "bench_request cf url_id = bench_head_text cf url_id @ crlf @ crlf" using r h by simp
  let ?ls = "request_lines ''GET'' (bench_path url_id) ''HTTP/1.1'' (bench_fields cf)"
  have "?ls \<noteq> []" by (simp add: request_lines_def)
  from str_find_terminator [OF this printable_lines [OF p], of "[]"]
  have "str_find (bench_request cf url_id) (crlf @ crlf) 0 = Some (length (crlf_lines ?ls) - 2)"
    by (simp add: bench_request_print print_request_def)
  moreover have "length (crlf_lines ?ls) - 2 = length (bench_head_text cf url_id)"
    by (simp add: bench_head_text_def bench_request_print print_request_def)
  ultimately show "whole_head (bench_head_text cf url_id)" by (simp add: whole_head_def eq)
  have "word_ok ''GET''" "word_ok (bench_path url_id)" using p by (simp_all add: printable_def)
  from two_words [OF this, of tail] show "target_between (bench_head_text cf url_id) = bench_path url_id"
    unfolding h by (simp add: target_between_def substr_def)
qed

section \<open>There and back\<close>


definition e2e_config :: config where
  "e2e_config = new_config\<lparr>cf_host_header := ''a''\<rparr>"

definition e2e_resp :: bytes where
  "e2e_resp = origin_response False (origin_body 40 ''/resource/7'')"

definition e2e_sock :: sock where
  "e2e_sock = \<lparr>sk_rx = [], sk_tx = [Sent 50, Sent 500], sk_poll = [], sk_wire = [], sk_errno = EAGAIN\<rparr>"

definition e2e_server :: server where
  "e2e_server = relay_server\<lparr>sv_opt := new_options,
     sv_net := [demo_env [Recv (take 20 e2e_resp), Recv_fail EINTR, Recv (drop 20 e2e_resp)]]\<rparr>"


end
