(* ===== verification/Spec2Isabelle.thy ===== *)
theory Spec2Isabelle
  imports Http_Replies Interleaving Replies Audit_Trail Wakeups Early_Pools Early_Mains Origin_Loop Bench_Report End_To_End
begin

text \<open>
  A model of the multi-threaded proxy server under \<open>src/\<close>, with what makes it correct.

  \<^bold>\<open>The program.\<close> \<open>server_phase5.cpp\<close> is a forward proxy: its main thread accepts connections
  and waits on epoll, hands readable connections to a task queue, and a pool of workers reads
  requests, checks them against a policy, answers them from a cache or forwards them to an
  upstream, and writes an access log that a statistics thread flushes. \<open>http.hpp\<close> holds
  parsing, policy and log, \<open>lru_cache.hpp\<close> the cache. \<open>origin_server.cpp\<close> is the upstream and
  \<open>benchmark.cpp\<close> the client of the measurements. \<open>server_base_version.cpp\<close> and
  \<open>server_phase2.cpp\<close> to \<open>server_phase4.cpp\<close> are the earlier stages of the server.

  \<^bold>\<open>The language.\<close> \<open>Prelude\<close> has bytes, machine words and shared lemmas; \<open>Cpp_Strings\<close> the
  operations of \<open>std::string\<close> and of \<open>ctype.h\<close>, \<open>Cpp_Numbers\<close> \<open>strtol\<close>, \<open>atoi\<close>, stream
  extraction and the printing of integers, \<open>Decimals\<close> that of \<open>double\<close>s. A \<open>size_t\<close> is a 64-bit
  word where its wrap-around can matter (framing, capacities, counters) and a natural number
  where it is the length of something in memory. A \<open>double\<close> is a rational. An \<open>errno\<close> is a
  value of a datatype; an exception or an undefined operation is \<open>None\<close>.

  \<^bold>\<open>The parts, from the bottom up.\<close>
  \<^item> \<open>Http_Headers\<close>, \<open>Http_Request\<close>, \<open>Http_Framing\<close>: \<open>find_header_end\<close>, \<open>parse_request\<close> and
    \<open>expected_request_bytes\<close> of \<open>http.hpp\<close>. Parsing inverts printing for every well-formed
    request, every accepted buffer gives a well-formed request, and the computed length is exact.
  \<^item> \<open>Http_Response\<close>, \<open>Http_Chunked\<close>, \<open>Http_Replies\<close>: \<open>parse_response_headers\<close>,
    \<open>chunked_body_complete\<close>, \<open>response_complete\<close>, \<open>is_cacheable\<close>. A round trip, and the exact
    set of prefixes on which a chunked message counts as complete.
  \<^item> \<open>Access_Control\<close>, \<open>Access_Config\<close>: \<open>RouteTable\<close> and \<open>AccessControl\<close>. The first covering rule
    decides; a policy file is read back as it was written, or rejected with the first bad line.
  \<^item> \<open>Access_Log\<close>: \<open>AccessLog\<close>. Every sequence of stamps, appends and flushes keeps every line.
  \<^item> \<open>Cache_Contract\<close>, \<open>Lru_Cache\<close>, \<open>Sharded_Cache\<close>: \<open>lru_cache.hpp\<close>. The locale states what
    a client of a cache may rely on; the list with its index of node identities refines a
    bounded list in order of use, and the sharded cache is a family of independent ones.
  \<^item> \<open>Options\<close>, \<open>Sockets\<close>, \<open>Senders\<close>: a socket is a script of what the kernel will answer to
    \<open>recv\<close>, \<open>send\<close> and \<open>poll\<close>; the three \<open>send_all\<close> of the sources deliver everything or say so.
  \<^item> \<open>Upstream_Fetch\<close>: \<open>fetch_upstream\<close>. What is reported as success is a response; a framed
    message is read to its last byte and no further; nothing it opens is leaked.
  \<^item> \<open>Request_Handler\<close>, \<open>Serving\<close>, \<open>Worker\<close>, \<open>Relay\<close>: \<open>serve_one_request\<close> and \<open>handle_ready\<close>.
    \<open>Serving\<close> has the four ways a request ends, \<open>Worker\<close> a locale for relations that every step
    of a run respects, with its instances for framing, policy, counters and cache.
  \<^item> \<open>Startup\<close>: \<open>main\<close> up to its loop. \<open>Task_Queue\<close>: the three queues under a locale that says
    what the pools rely on. \<open>Wakeups\<close>: their mutex and condition variable, step by step.
  \<^item> \<open>Event_Loop\<close>: the loop of \<open>main\<close> as a transition system of the main thread, the workers, the
    peers, the flushes and the stop. Each connection has one owner; the policy, the cache and
    the counters are right in every reachable state; work that is there can be done. \<open>Replies\<close>:
    what a client sees of it is a sequence of whole replies.
  \<^item> \<open>Interleaving\<close>: \<open>serve_one_request\<close> cut into its accesses to shared state, so that several
    requests are served at once. \<open>Statistics_Thread\<close>, \<open>Audit_Trail\<close>: \<open>report_stats\<close> beside the
    loop, the end of \<open>main\<close>, and the access log as what is left afterwards.
  \<^item> \<open>Origin_Server\<close>, \<open>Origin_Loop\<close>: \<open>origin_server.cpp\<close>. \<open>Benchmark\<close>, \<open>Bench_Report\<close>:
    \<open>benchmark.cpp\<close>. \<open>End_To_End\<close>: a request from the load generator through the proxy to the
    origin and back.
  \<^item> \<open>Phase4_Cache\<close>, \<open>Early_Pools\<close>, \<open>Early_Servers\<close>, \<open>Early_Mains\<close>: the earlier servers; the cache of phase 4 with
    its two locked sections is shown linearizable against that of \<open>lru_cache.hpp\<close>, and the defects
    that the final server repairs are theorems.

  \<^bold>\<open>How they fit together.\<close> \<open>boot\<close> yields the state \<open>booted\<close> describes; \<open>reachable\<close> starts the loop
  in it and calls \<open>handle_ready\<close> for a connection a worker owns; that calls \<open>serve_one_request\<close>,
  which uses \<open>check\<close>, \<open>sharded_get\<close>, \<open>fetch_upstream\<close>, \<open>sharded_put\<close> and \<open>log_write\<close> on the shared
  record \<open>server\<close>. The theorems of \<open>Event_Loop\<close> lift what \<open>Worker\<close> proves of one run to the whole
  server. A run of \<open>handle_ready\<close> is one step there; \<open>Interleaving\<close> proves the results on policy,
  cache, counters and log again for requests whose accesses to the shared state interleave, and
  \<open>Phase4_Cache\<close>, \<open>Access_Log\<close> and \<open>Wakeups\<close> go down to the single locked section.

  \<^bold>\<open>Bounds and fuel.\<close> Loops that need not end are partial functions whose value is then \<open>None\<close>
  (\<open>handle_ready\<close>, \<open>serve_buffered\<close>, \<open>round_up_pow2\<close>, \<open>p4_accept_all\<close>); that the first two
  return is a theorem, for the third the arguments are characterised, for the last the answers
  of the kernel. Only \<open>worker_loop\<close> has fuel, because a worker waits for ever on a queue
  that is never stopped; \<open>job_run\<close> counts steps, of which 8 are shown to be enough. A script of
  a kernel that is used up answers \<open>EAGAIN\<close> to \<open>recv\<close>, \<open>send\<close> and \<open>accept\<close> and a
  timeout to \<open>poll\<close>, so theorems about all scripts are about all finite behaviours.
  Theorems about framing assume buffers below \<open>2 ^ 63\<close> bytes; \<open>booted\<close> gives the limits
  that the server enforces.

  \<^bold>\<open>Parameters.\<close> \<open>std::hash\<close>, the wording of \<open>strerror\<close>, the clock, the file system, the answers of
  the kernel, \<open>pow\<close> and \<open>atof\<close> of the load generator, and how a stream prints a \<open>double\<close> are
  arguments of the definitions that use them.

  \<^bold>\<open>Not modelled.\<close> Memory exhaustion; socket options; the raising of the descriptor limit in the
  origin and the load generator (it only changes a limit of the process); ignoring \<open>SIGPIPE\<close>;
  messages of \<open>perror\<close> in the handlers of the early servers; the freeing of \<open>Conn\<close> objects beyond the one-owner theorems. The
  tests (\<open>test_http.cpp\<close>, \<open>test_lru_cache.cpp\<close>, \<open>concurrency_test.cpp\<close>), the scripts, the
  build files and the documents hold no logic of the program; where the tests or comments state a
  property it is a theorem here, or one of the findings.
\<close>

end
